(* ===== verification/KmsPrelude.thy ===== *)
theory KmsPrelude
  imports Main "HOL-Library.Word" "HOL-Library.AList" "HOL-Library.List_Lexorder"
    "HOL-Library.Char_ord"
begin

text \<open>
  Shared vocabulary of the development: the machine types of the Rust sources, byte strings,
  the pieces of the Rust standard library the sources call (fixed-width big-endian integers,
  decimal printing and parsing, the string trimming functions, \<open>HashMap\<close>), and the lemmas and
  theorem collections the component theories use.

  A Rust \<open>String\<close> is modelled as the list of its UTF-8 bytes (an Isabelle \<open>char\<close> is one byte).
  \<open>trim\<close> is modelled for ASCII white space. A \<open>HashMap\<close> is an association list with distinct
  keys: its list order stands for the unspecified iteration order of the map.
\<close>

type_synonym u8 = "8 word"
type_synonym u32 = "32 word"
type_synonym u64 = "64 word"
type_synonym i64 = "64 word"
type_synonym bytes = "8 word list"
type_synonym address = bytes
type_synonym instant = nat
type_synonym ('k, 'v) hash_map = "('k \<times> 'v) list"

section \<open>Definitions\<close>

subsection \<open>Durations\<close>

text \<open>
  \<open>Duration\<close> and \<open>Instant\<close> count nanoseconds. \<open>Instant::elapsed\<close> saturates at zero, as
  subtraction on \<open>nat\<close> does.
\<close>

definition from_secs :: "nat \<Rightarrow> nat" where
  "from_secs s = s * 1000000000"

definition elapsed :: "instant \<Rightarrow> instant \<Rightarrow> nat" where
  "elapsed now t = now - t"

subsection \<open>Results\<close>

text \<open>
  A \<open>Result<T, E>\<close> is a sum with the error on the left. \<open>rbind\<close> is the \<open>?\<close> operator, \<open>map_err\<close> the
  method of that name; an \<open>anyhow::Error\<close> is its message.
\<close>

definition rbind :: "'e + 'a \<Rightarrow> ('a \<Rightarrow> 'e + 'b) \<Rightarrow> 'e + 'b" where
  "rbind r f = (case r of Inl e \<Rightarrow> Inl e | Inr a \<Rightarrow> f a)"

definition map_err :: "('e \<Rightarrow> 'f) \<Rightarrow> 'e + 'a \<Rightarrow> 'f + 'a" where
  "map_err g r = (case r of Inl e \<Rightarrow> Inl (g e) | Inr a \<Rightarrow> Inr a)"

definition ok_or :: "'e \<Rightarrow> 'a option \<Rightarrow> 'e + 'a" where
  "ok_or e x = (case x of None \<Rightarrow> Inl e | Some a \<Rightarrow> Inr a)"

definition is_ok :: "'e + 'a \<Rightarrow> bool" where
  "is_ok r = (case r of Inl _ \<Rightarrow> False | Inr _ \<Rightarrow> True)"

type_synonym 'a anyhow = "string + 'a"

subsection \<open>Bytes and characters\<close>

definition byte_of_char :: "char \<Rightarrow> u8" where
  "byte_of_char c = word_of_nat (of_char c)"

definition as_bytes :: "string \<Rightarrow> bytes" where
  "as_bytes s = map byte_of_char s"

text \<open>\<open>be_bytes n v\<close>: the value \<open>v\<close> as \<open>n\<close> big-endian bytes (\<open>to_be_bytes\<close>).\<close>

fun be_bytes :: "nat \<Rightarrow> nat \<Rightarrow> bytes" where
  "be_bytes 0 v = []"
| "be_bytes (Suc n) v = be_bytes n (v div 256) @ [word_of_nat (v mod 256)]"

definition u32_be :: "u32 \<Rightarrow> bytes" where
  "u32_be w = be_bytes 4 (unat w)"

definition u64_be :: "u64 \<Rightarrow> bytes" where
  "u64_be w = be_bytes 8 (unat w)"

subsection \<open>Decimal numbers\<close>

definition digit_char :: "nat \<Rightarrow> char" where
  "digit_char d = char_of (48 + d)"

definition is_digit :: "char \<Rightarrow> bool" where
  "is_digit c \<longleftrightarrow> 48 \<le> (of_char c :: nat) \<and> (of_char c :: nat) \<le> 57"

definition digit_val :: "char \<Rightarrow> nat" where
  "digit_val c = of_char c - 48"

fun show_nat :: "nat \<Rightarrow> string" where
  "show_nat n = (if n < 10 then [digit_char n] else show_nat (n div 10) @ [digit_char (n mod 10)])"

declare show_nat.simps [simp del]

definition show_int :: "int \<Rightarrow> string" where
  "show_int i = (if i < 0 then CHR ''-'' # show_nat (nat (- i)) else show_nat (nat i))"

definition parse_digits :: "string \<Rightarrow> nat option" where
  "parse_digits s =
     (if s \<noteq> [] \<and> list_all is_digit s
      then Some (foldl (\<lambda>acc c. 10 * acc + digit_val c) 0 s) else None)"

text \<open>\<open>str::parse::<i64>\<close>: an optional sign, at least one digit, and the value in range.\<close>

definition parse_i64 :: "string \<Rightarrow> i64 option" where
  "parse_i64 s =
     (let (neg, ds) =
        (case s of c # cs \<Rightarrow> if c = CHR ''-'' then (True, cs)
                            else if c = CHR ''+'' then (False, cs) else (False, s)
         | [] \<Rightarrow> (False, s))
      in case parse_digits ds of
           None \<Rightarrow> None
         | Some n \<Rightarrow>
             (let v = (if neg then - int n else int n)
              in if - (2 ^ 63) \<le> v \<and> v < 2 ^ 63 then Some (word_of_int v) else None))"

subsection \<open>String functions\<close>

definition is_ascii_space :: "char \<Rightarrow> bool" where
  "is_ascii_space c \<longleftrightarrow> c = CHR 0x20 \<or> (9 \<le> (of_char c :: nat) \<and> (of_char c :: nat) \<le> 13)"

definition trim :: "string \<Rightarrow> string" where
  "trim s = rev (dropWhile is_ascii_space (rev (dropWhile is_ascii_space s)))"

text \<open>\<open>trim_start_matches("0x")\<close> removes the prefix as often as it occurs.\<close>

fun trim_0x :: "string \<Rightarrow> string" where
  "trim_0x (a # b # s) =
     (if a = CHR ''0'' \<and> b = CHR ''x'' then trim_0x s else a # b # s)"
| "trim_0x s = s"

text \<open>\<open>trim_end_matches('/')\<close>\<close>

definition trim_end_slash :: "string \<Rightarrow> string" where
  "trim_end_slash s = rev (dropWhile (\<lambda>c. c = CHR ''/'') (rev s))"

definition starts_with :: "string \<Rightarrow> string \<Rightarrow> bool" where
  "starts_with p s \<longleftrightarrow> take (length p) s = p"

text \<open>
  Pieces of the program's texts: the dash in UTF-8, a name in single quotes, and the \<open>{:?}\<close> of a string
  that has nothing to escape.
\<close>

definition em_dash :: string where
  "em_dash = [CHR 0xE2, CHR 0x80, CHR 0x94]"

definition squoted :: "string \<Rightarrow> string" where
  "squoted s = CHR 0x27 # s @ [CHR 0x27]"

definition quoted :: "string \<Rightarrow> string" where
  "quoted s = CHR 0x22 # s @ [CHR 0x22]"

subsection \<open>Hash maps\<close>

definition hm_empty :: "('k, 'v) hash_map" where
  "hm_empty = []"

definition hm_get :: "('k, 'v) hash_map \<Rightarrow> 'k \<Rightarrow> 'v option" where
  "hm_get m k = map_of m k"

definition hm_insert :: "'k \<Rightarrow> 'v \<Rightarrow> ('k, 'v) hash_map \<Rightarrow> ('k, 'v) hash_map" where
  "hm_insert k v m = AList.update k v m"

definition hm_remove :: "'k \<Rightarrow> ('k, 'v) hash_map \<Rightarrow> ('k, 'v) hash_map" where
  "hm_remove k m = AList.delete k m"

definition hm_values :: "('k, 'v) hash_map \<Rightarrow> 'v list" where
  "hm_values m = map snd m"

definition hm_map_values :: "('v \<Rightarrow> 'v) \<Rightarrow> ('k, 'v) hash_map \<Rightarrow> ('k, 'v) hash_map" where
  "hm_map_values f m = map (\<lambda>(k, v). (k, f v)) m"

definition hm_retain :: "('v \<Rightarrow> bool) \<Rightarrow> ('k, 'v) hash_map \<Rightarrow> ('k, 'v) hash_map" where
  "hm_retain p m = filter (\<lambda>(k, v). p v) m"

definition hm_wf :: "('k, 'v) hash_map \<Rightarrow> bool" where
  "hm_wf m \<longleftrightarrow> distinct (map fst m)"

text \<open>\<open>Iterator::max\<close> on unsigned values, with \<open>unwrap_or(0)\<close> for an empty iterator.\<close>

definition max_or_0 :: "u64 list \<Rightarrow> u64" where
  "max_or_0 xs = foldr max xs 0"

text \<open>\<open>Iterator::position\<close>.\<close>

fun position :: "('a \<Rightarrow> bool) \<Rightarrow> 'a list \<Rightarrow> nat option" where
  "position p [] = None"
| "position p (x # xs) = (if p x then Some 0 else map_option Suc (position p xs))"

section \<open>Lemmas\<close>

subsection \<open>Results\<close>

lemma rbind_simps [simp]:
  "rbind (Inl e) f = Inl e"
  "rbind (Inr a) f = f a"
  by (simp_all add: rbind_def)

lemma rbind_Inr_iff: "rbind r f = Inr b \<longleftrightarrow> (\<exists>a. r = Inr a \<and> f a = Inr b)"
  by (cases r) auto

lemma rbind_Inl_iff: "rbind r f = Inl e \<longleftrightarrow> r = Inl e \<or> (\<exists>a. r = Inr a \<and> f a = Inl e)"
  by (cases r) auto

lemma map_err_simps [simp]:
  "map_err g (Inl e) = Inl (g e)"
  "map_err g (Inr a) = Inr a"
  by (simp_all add: map_err_def)

lemma map_err_Inr_iff [simp]: "map_err g r = Inr a \<longleftrightarrow> r = Inr a"
  by (cases r) auto

lemma map_err_Inl_iff: "map_err g r = Inl e \<longleftrightarrow> (\<exists>e'. r = Inl e' \<and> e = g e')"
  by (cases r) auto

lemma ok_or_simps [simp]:
  "ok_or e None = Inl e"
  "ok_or e (Some a) = Inr a"
  by (simp_all add: ok_or_def)

lemma ok_or_Inr_iff [simp]: "ok_or e x = Inr a \<longleftrightarrow> x = Some a"
  by (cases x) auto

lemma ok_or_Inl_iff [simp]: "ok_or e x = Inl e' \<longleftrightarrow> x = None \<and> e' = e"
  by (cases x) auto

lemma is_ok_simps [simp]: "\<not> is_ok (Inl e)" "is_ok (Inr a)"
  by (simp_all add: is_ok_def)

lemmas result_iffs = rbind_Inr_iff rbind_Inl_iff map_err_Inl_iff

subsection \<open>Bytes and big-endian integers\<close>

lemma unat_byte_of_char: "unat (byte_of_char c) = of_char c"
proof -
  have "(of_char c :: nat) < 256"
    by (cases c) (simp add: of_char_def)
  then show ?thesis
    by (simp add: byte_of_char_def unat_of_nat)
qed

lemma byte_of_char_eq_iff [simp]: "byte_of_char c = byte_of_char d \<longleftrightarrow> c = d"
  by (metis of_char_eq_iff unat_byte_of_char)

lemma as_bytes_eq_iff [simp]: "as_bytes s = as_bytes t \<longleftrightarrow> s = t"
  unfolding as_bytes_def by (rule inj_map_eq_map) (auto intro: injI)

lemma length_as_bytes [simp]: "length (as_bytes s) = length s"
  by (simp add: as_bytes_def)

lemma as_bytes_append [simp]: "as_bytes (s @ t) = as_bytes s @ as_bytes t"
  by (simp add: as_bytes_def)

lemma as_bytes_Cons [simp]: "as_bytes (c # s) = byte_of_char c # as_bytes s"
  by (simp add: as_bytes_def)

lemma length_be_bytes [simp]: "length (be_bytes n v) = n"
  by (induction n arbitrary: v) auto

lemma be_bytes_inject:
  "be_bytes n v = be_bytes n w \<Longrightarrow> v < 256 ^ n \<Longrightarrow> w < 256 ^ n \<Longrightarrow> v = w"
proof (induction n arbitrary: v w)
  case 0
  then show ?case by simp
next
  case (Suc n)
  from Suc.prems(1) have hi: "be_bytes n (v div 256) = be_bytes n (w div 256)"
    and lo: "(word_of_nat (v mod 256) :: u8) = word_of_nat (w mod 256)"
    by auto
  from Suc.prems(2,3) have "v div 256 < 256 ^ n" "w div 256 < 256 ^ n"
    by (auto simp: less_mult_imp_div_less mult.commute)
  with hi have "v div 256 = w div 256" by (rule Suc.IH)
  moreover from arg_cong [OF lo, of unat] have "v mod 256 = w mod 256"
    by (simp add: unat_of_nat)
  ultimately show ?case by (metis mult_div_mod_eq)
qed

text \<open>Reading a big-endian integer back (\<open>from_be_bytes\<close>).\<close>

definition be_val :: "bytes \<Rightarrow> nat" where
  "be_val b = foldl (\<lambda>acc x. 256 * acc + unat x) 0 b"

lemma be_val_be_bytes: "v < 256 ^ n \<Longrightarrow> be_val (be_bytes n v) = v"
proof (induction n arbitrary: v)
  case 0
  then show ?case by (simp add: be_val_def)
next
  case (Suc n)
  then have "v div 256 < 256 ^ n" by (simp add: less_mult_imp_div_less mult.commute)
  then have "foldl (\<lambda>acc x. 256 * acc + unat x) 0 (be_bytes n (v div 256)) = v div 256"
    using Suc.IH by (simp add: be_val_def)
  then show ?case by (simp add: be_val_def unat_of_nat)
qed

lemma length_u32_be [simp]: "length (u32_be w) = 4"
  by (simp add: u32_be_def)

lemma length_u64_be [simp]: "length (u64_be w) = 8"
  by (simp add: u64_be_def)

lemma unat_word_less: "unat w < 2 ^ LENGTH('a)" for w :: "'a::len word"
  by (rule unsigned_less)

lemma u32_be_inject [simp]: "u32_be v = u32_be w \<longleftrightarrow> v = w"
  using unat_word_less [of v] unat_word_less [of w] be_bytes_inject [of 4 "unat v" "unat w"]
  by (auto simp: u32_be_def intro: unsigned_word_eqI)

lemma u64_be_inject [simp]: "u64_be v = u64_be w \<longleftrightarrow> v = w"
  using unat_word_less [of v] unat_word_less [of w] be_bytes_inject [of 8 "unat v" "unat w"]
  by (auto simp: u64_be_def intro: unsigned_word_eqI)

subsection \<open>Decimal printing and parsing\<close>

lemma digit_char_is_digit: "d < 10 \<Longrightarrow> is_digit (digit_char d)"
  by (simp add: is_digit_def digit_char_def)

lemma digit_val_digit_char: "d < 10 \<Longrightarrow> digit_val (digit_char d) = d"
  by (simp add: digit_val_def digit_char_def)

lemma show_nat_nonempty: "show_nat n \<noteq> []"
  by (subst show_nat.simps) simp

lemma show_nat_digits: "list_all is_digit (show_nat n)"
proof (induction n rule: show_nat.induct)
  case (1 n)
  then show ?case
    by (subst show_nat.simps) (simp add: digit_char_is_digit)
qed

lemma foldl_show_nat: "foldl (\<lambda>acc c. 10 * acc + digit_val c) 0 (show_nat n) = n"
proof (induction n rule: show_nat.induct)
  case (1 n)
  then show ?case
    by (subst show_nat.simps) (simp add: digit_val_digit_char)
qed

lemma parse_digits_show_nat: "parse_digits (show_nat n) = Some n"
  by (simp add: parse_digits_def show_nat_nonempty show_nat_digits foldl_show_nat)

lemma show_nat_inject: "show_nat m = show_nat n \<Longrightarrow> m = n"
  by (metis foldl_show_nat)

lemma sign_not_digit: "\<not> is_digit (CHR ''-'')" "\<not> is_digit (CHR ''+'')"
  by (simp_all add: is_digit_def)

lemma show_nat_hd_digit: "show_nat n = c # cs \<Longrightarrow> is_digit c"
  using show_nat_digits [of n] by simp

lemma show_int_inject: "show_int i = show_int j \<Longrightarrow> i = j"
proof -
  assume eq: "show_int i = show_int j"
  have not_sign: "show_nat n \<noteq> CHR ''-'' # cs" for n cs
    using show_nat_hd_digit [of n] sign_not_digit(1) by blast
  show "i = j"
  proof (cases "i < 0"; cases "j < 0")
    assume "i < 0" "j < 0"
    with eq show ?thesis by (auto simp: show_int_def dest: show_nat_inject)
  next
    assume "i < 0" "\<not> j < 0"
    with eq not_sign [of "nat j", symmetric] show ?thesis by (simp add: show_int_def)
  next
    assume "\<not> i < 0" "j < 0"
    with eq not_sign [of "nat i"] show ?thesis by (simp add: show_int_def)
  next
    assume "\<not> i < 0" "\<not> j < 0"
    with eq show ?thesis by (auto simp: show_int_def dest: show_nat_inject)
  qed
qed

lemma show_sint_inject: "show_int (sint v) = show_int (sint w) \<longleftrightarrow> v = w"
  for v w :: i64
  by (auto dest: show_int_inject signed_word_eqI)

lemma parse_i64_show: "parse_i64 (show_int (sint w)) = Some w"
proof (cases "sint w < 0")
  case True
  have "- (2 ^ 63) \<le> sint w" using sint_ge [of w] by simp
  with True show ?thesis
    by (simp add: parse_i64_def show_int_def parse_digits_show_nat)
next
  case False
  have "sint w < 2 ^ 63" using sint_lt [of w] by simp
  moreover obtain c cs where s: "show_nat (nat (sint w)) = c # cs"
    using show_nat_nonempty by (meson neq_Nil_conv)
  moreover have "c \<noteq> CHR ''-''" "c \<noteq> CHR ''+''"
    using show_nat_hd_digit [OF s] sign_not_digit by auto
  moreover have "parse_digits (c # cs) = Some (nat (sint w))"
    using parse_digits_show_nat s by metis
  ultimately show ?thesis
    using False by (simp add: parse_i64_def show_int_def)
qed

subsection \<open>Hash maps\<close>

text \<open>
  The interface every table and cache of the program is used through: a lookup after an insert,
  a removal, a change of all values and a \<open>retain\<close>, under the invariant that keys are distinct.
\<close>

locale hash_table =
  fixes empty :: "'m" and get :: "'m \<Rightarrow> 'k \<Rightarrow> 'v option" and ins :: "'k \<Rightarrow> 'v \<Rightarrow> 'm \<Rightarrow> 'm"
    and del :: "'k \<Rightarrow> 'm \<Rightarrow> 'm" and vals :: "'m \<Rightarrow> 'v list" and wf :: "'m \<Rightarrow> bool"
  assumes get_empty: "get empty k = None"
    and get_ins: "get (ins k v m) k' = (if k' = k then Some v else get m k')"
    and get_del: "get (del k m) k' = (if k' = k then None else get m k')"
    and wf_empty: "wf empty"
    and wf_ins: "wf m \<Longrightarrow> wf (ins k v m)"
    and wf_del: "wf m \<Longrightarrow> wf (del k m)"
    and vals_get: "wf m \<Longrightarrow> v \<in> set (vals m) \<longleftrightarrow> (\<exists>k. get m k = Some v)"
begin

lemma get_ins_same: "get (ins k v m) k = Some v"
  by (simp add: get_ins)

lemma get_ins_other: "k' \<noteq> k \<Longrightarrow> get (ins k v m) k' = get m k'"
  by (simp add: get_ins)

lemma ins_ins_same: "get (ins k v (ins k w m)) = get (ins k v m)"
  by (rule ext) (simp add: get_ins)

lemma vals_ins:
  assumes "wf m" "w \<in> set (vals (ins k v m))"
  shows "w = v \<or> w \<in> set (vals m)"
proof -
  from assms obtain k' where "get (ins k v m) k' = Some w"
    using vals_get wf_ins by blast
  then show ?thesis
    using assms(1) vals_get by (auto simp: get_ins split: if_splits)
qed

lemma vals_ins_new: "wf m \<Longrightarrow> v \<in> set (vals (ins k v m))"
  using vals_get [OF wf_ins] get_ins_same by blast

lemma vals_ins_keep:
  assumes "wf m" "get m k' = Some w" "k' \<noteq> k"
  shows "w \<in> set (vals (ins k v m))"
  using assms vals_get [OF wf_ins [OF assms(1)]] get_ins_other by metis

end

lemma hm_wf_distinct: "hm_wf m \<Longrightarrow> distinct (map fst m)"
  by (simp add: hm_wf_def)

interpretation hm: hash_table hm_empty hm_get hm_insert hm_remove hm_values hm_wf
proof unfold_locales
  fix m :: "('k, 'v) hash_map" and v :: 'v
  assume wf: "hm_wf m"
  show "v \<in> set (hm_values m) \<longleftrightarrow> (\<exists>k. hm_get m k = Some v)"
    using wf by (force simp: hm_values_def hm_get_def hm_wf_def map_of_eq_Some_iff)
qed (auto simp: hm_get_def hm_empty_def hm_insert_def hm_remove_def hm_wf_def update_conv'
       delete_conv' distinct_update distinct_delete)

lemma hm_get_map_values: "hm_get (hm_map_values f m) k = map_option f (hm_get m k)"
  by (induction m) (auto simp: hm_get_def hm_map_values_def)

lemma hm_wf_map_values [simp]: "hm_wf (hm_map_values f m) \<longleftrightarrow> hm_wf m"
proof -
  have "map fst (hm_map_values f m) = map fst m"
    by (induction m) (auto simp: hm_map_values_def)
  then show ?thesis by (simp add: hm_wf_def)
qed

lemma hm_wf_retain: "hm_wf m \<Longrightarrow> hm_wf (hm_retain p m)"
  by (simp add: hm_wf_def hm_retain_def distinct_map_filter)

lemma hm_get_retain:
  "hm_wf m \<Longrightarrow> hm_get (hm_retain p m) k = (case hm_get m k of Some v \<Rightarrow> if p v then Some v else None | None \<Rightarrow> None)"
proof (induction m)
  case Nil
  then show ?case by (simp add: hm_get_def hm_retain_def)
next
  case (Cons a m)
  obtain k' v where a: "a = (k', v)" by (cases a)
  with Cons.prems have "hm_wf m" and new: "k' \<notin> fst ` set m"
    by (auto simp: hm_wf_def)
  then have "map_of m k' = None"
    by (simp add: map_of_eq_None_iff)
  moreover have "map_of (filter (\<lambda>(k, v). p v) m) k' = None"
    using new by (force simp: map_of_eq_None_iff)
  ultimately show ?case
    using Cons.IH [OF \<open>hm_wf m\<close>] a by (auto simp: hm_get_def hm_retain_def)
qed

lemmas hm_simps [simp] = hm.get_empty hm.get_ins hm.get_del hm.wf_empty hm.wf_ins hm.wf_del
  hm_get_map_values

subsection \<open>Maxima and positions\<close>

lemma max_or_0_ge: "x \<in> set xs \<Longrightarrow> x \<le> max_or_0 xs"
  by (induction xs) (auto simp: max_or_0_def max_def)

lemma max_or_0_le: "(\<And>x. x \<in> set xs \<Longrightarrow> x \<le> b) \<Longrightarrow> max_or_0 xs \<le> b"
  by (induction xs) (auto simp: max_or_0_def)

lemma max_or_0_mem: "xs \<noteq> [] \<Longrightarrow> max_or_0 xs \<in> set xs"
proof (induction xs)
  case Nil
  then show ?case by simp
next
  case (Cons x xs)
  show ?case
  proof (cases xs)
    case Nil
    then show ?thesis by (simp add: max_or_0_def max_def)
  next
    case Cons
    with Cons.IH have "max_or_0 xs \<in> set xs" by simp
    moreover have "max_or_0 (x # xs) = max x (max_or_0 xs)" by (simp add: max_or_0_def)
    ultimately show ?thesis by (simp add: max_def)
  qed
qed

lemma max_or_0_pos: "0 < max_or_0 xs \<Longrightarrow> max_or_0 xs \<in> set xs"
  by (rule max_or_0_mem) (auto simp: max_or_0_def)

lemma position_Some:
  "position p xs = Some i \<Longrightarrow> i < length xs \<and> p (xs ! i) \<and> (\<forall>j < i. \<not> p (xs ! j))"
proof (induction xs arbitrary: i)
  case Nil
  then show ?case by simp
next
  case (Cons x xs)
  show ?case
  proof (cases "p x")
    case True
    with Cons.prems show ?thesis by simp
  next
    case False
    with Cons.prems obtain k where k: "position p xs = Some k" and i: "i = Suc k" by auto
    from Cons.IH [OF k] False i show ?thesis
      by (auto simp: nth_Cons' less_Suc_eq_0_disj)
  qed
qed

lemma position_None_iff: "position p xs = None \<longleftrightarrow> (\<forall>x \<in> set xs. \<not> p x)"
  by (induction xs) auto

subsection \<open>Trimming\<close>

lemma trim_0x_id: "\<not> starts_with ''0x'' s \<Longrightarrow> trim_0x s = s"
  by (cases s rule: trim_0x.cases) (auto simp: starts_with_def)

lemma trim_0x_prefix: "trim_0x (''0x'' @ s) = trim_0x s"
  by simp

lemma trim_0x_no_prefix: "\<not> starts_with ''0x'' (trim_0x s)"
proof (induction s rule: trim_0x.induct)
  case (1 a b s)
  then show ?case by (auto simp: starts_with_def)
qed (auto simp: starts_with_def)

end
