(* ===== verification/UintZigzag.thy ===== *)
theory UintZigzag
  imports KmsPrelude
begin

text \<open>
  The vendored crate \<open>vendor/uint-zigzag\<close> (the variable-length integers of the DKG round
  messages). \<open>Uint\<close> is a \<open>128 word\<close>; a write or read outside a buffer, which panics in Rust, is
  \<open>None\<close>; a stream is the list of its remaining bytes. Shown: the encoding never panics and has
  1 to 19 bytes, decoding inverts it and ignores what follows, \<open>peek\<close> finds its length, and
  what \<open>from_reader\<close> does with an encoded value: it reads one byte past it.
\<close>

unbundle bit_operations_syntax

type_synonym uint = "128 word"

datatype io_error = UnexpectedEof | InvalidData

definition MAX_BYTES :: nat where
  "MAX_BYTES = 19"

function try_from_loop :: "bytes \<Rightarrow> nat \<Rightarrow> nat \<Rightarrow> uint \<Rightarrow> uint option" where
  "try_from_loop v i s x =
     (if i < MAX_BYTES then
        (if i \<ge> length v then None
         else if v ! i < 0x80 then Some (x OR push_bit s (ucast (v ! i)))
         else try_from_loop v (i + 1) (s + 7) (x OR push_bit s (ucast (v ! i AND 0x7f))))
      else None)"
  by pat_completeness auto
termination
  by (relation "measure (\<lambda>(v, i, s, x). MAX_BYTES - i)") auto

definition try_from :: "bytes \<Rightarrow> uint option" where
  "try_from v = try_from_loop v 0 0 0"

function peek_loop :: "bytes \<Rightarrow> nat \<Rightarrow> nat option" where
  "peek_loop v i =
     (if i < MAX_BYTES then
        (if i \<ge> length v then None
         else if v ! i < 0x80 then Some (i + 1)
         else peek_loop v (i + 1))
      else None)"
  by pat_completeness auto
termination
  by (relation "measure (\<lambda>(v, i). MAX_BYTES - i)") auto

definition peek :: "bytes \<Rightarrow> nat option" where
  "peek v = peek_loop v 0"

lemma unat_drop7: "unat (drop_bit 7 x) = unat x div 128" for x :: uint
  by (simp only: unat_drop_bit_eq) (simp add: drop_bit_eq_div)

lemma unat_drop7_less: "0x80 \<le> x \<Longrightarrow> unat (drop_bit 7 x) < unat x" for x :: uint
  by (simp only: unat_drop7) (simp add: word_le_nat_alt)

text \<open>The loop of \<open>to_bytes_with_length\<close>; \<open>None\<close> is the panic of an index out of bounds.\<close>

function to_bytes_loop :: "bytes \<Rightarrow> nat \<Rightarrow> uint \<Rightarrow> (bytes \<times> nat) option" where
  "to_bytes_loop buffer i x =
     (if 0x80 \<le> x then
        (if i < length buffer
         then to_bytes_loop (buffer[i := ucast x OR 0x80]) (i + 1) (drop_bit 7 x)
         else None)
      else if i < length buffer then Some (buffer[i := ucast x], i + 1) else None)"
  by pat_completeness auto
termination
  by (relation "measure (\<lambda>(b, i, x). unat x)") (auto dest: unat_drop7_less)

definition to_bytes_with_length :: "uint \<Rightarrow> bytes \<Rightarrow> (bytes \<times> nat) option" where
  "to_bytes_with_length u buffer = to_bytes_loop buffer 0 u"

definition to_bytes :: "uint \<Rightarrow> bytes \<Rightarrow> bytes option" where
  "to_bytes u buffer = map_option fst (to_bytes_with_length u buffer)"

definition to_vec :: "uint \<Rightarrow> bytes option" where
  "to_vec u = map_option (\<lambda>(output, i). take i output)
     (to_bytes_with_length u (replicate MAX_BYTES 0))"

text \<open>\<open>to_writer\<close> appends to the stream and returns the number of bytes written.\<close>

definition to_writer :: "uint \<Rightarrow> bytes \<Rightarrow> (bytes \<times> nat) option" where
  "to_writer u out = map_option (\<lambda>(output, n). (out @ take n output, n))
     (to_bytes_with_length u (replicate MAX_BYTES 0))"

text \<open>\<open>from_reader\<close>: one byte per turn, then \<open>peek\<close> on the bytes before it.\<close>

function from_reader_loop :: "bytes \<Rightarrow> bytes \<Rightarrow> nat \<Rightarrow> io_error + bytes \<times> bytes \<times> nat" where
  "from_reader_loop reader output i =
     (if i < MAX_BYTES then
        (case reader of
           [] \<Rightarrow> Inl UnexpectedEof
         | b # rest \<Rightarrow>
             (let output' = output[i := b]
              in if peek (take i output') \<noteq> None then Inr (rest, output', i)
                 else from_reader_loop rest output' (i + 1)))
      else Inr (reader, output, i))"
  by pat_completeness auto
termination
  by (relation "measure (\<lambda>(r, out, i). MAX_BYTES - i)") auto

definition from_reader :: "bytes \<Rightarrow> io_error + uint \<times> bytes" where
  "from_reader reader =
     (case from_reader_loop reader (replicate MAX_BYTES 0) 0 of
        Inl e \<Rightarrow> Inl e
      | Inr (rest, output, i) \<Rightarrow>
          (if i = MAX_BYTES then Inl InvalidData
           else case try_from (take i output) of
                  None \<Rightarrow> Inl InvalidData
                | Some u \<Rightarrow> Inr (u, rest)))"

declare try_from_loop.simps [simp del] peek_loop.simps [simp del]
  to_bytes_loop.simps [simp del] from_reader_loop.simps [simp del]

text \<open>The reference encoding: seven bits per byte, least significant first.\<close>

function leb128 :: "uint \<Rightarrow> bytes" where
  "leb128 x = (if 0x80 \<le> x then (ucast x OR 0x80) # leb128 (drop_bit 7 x) else [ucast x])"
  by pat_completeness auto
termination
  by (relation "measure unat") (auto dest: unat_drop7_less)

declare leb128.simps [simp del]

section \<open>Lemmas\<close>

lemma leb128_nonempty: "leb128 x \<noteq> []"
  by (subst leb128.simps) simp

lemma leb128_length: "unat x < 128 ^ Suc k \<Longrightarrow> length (leb128 x) \<le> Suc k"
proof (induction k arbitrary: x)
  case 0
  then have "\<not> 0x80 \<le> x" by (simp add: word_le_nat_alt)
  then show ?case by (subst leb128.simps) simp
next
  case (Suc k)
  have "unat (drop_bit 7 x) < 128 ^ Suc k"
    using Suc.prems by (simp only: unat_drop7) (simp add: less_mult_imp_div_less)
  then have "length (leb128 (drop_bit 7 x)) \<le> Suc k" by (rule Suc.IH)
  then show ?case by (subst leb128.simps) simp
qed

lemma leb128_max_bytes: "length (leb128 x) \<le> MAX_BYTES"
proof -
  have "unat x < 2 ^ 128" using unat_word_less [of x] by simp
  also have "(2::nat) ^ 128 < 128 ^ Suc 18" by simp
  finally have "length (leb128 x) \<le> Suc 18" by (rule leb128_length)
  then show ?thesis by (simp add: MAX_BYTES_def)
qed

lemma continuation_byte: "\<not> (ucast x OR 0x80 :: u8) < 0x80" for x :: uint
  by (simp add: not_less le_word_or1)

lemma last_byte: "x < 0x80 \<Longrightarrow> (ucast x :: u8) < 0x80" for x :: uint
  by (simp add: word_less_nat_alt unsigned_ucast_eq take_bit_nat_eq_self)

lemma low_seven_bits: "(y OR 0x80) AND 0x7f = take_bit 7 y" for y :: u8
proof -
  have "(0x7f :: u8) = mask 7" by (simp add: mask_eq_exp_minus_1)
  then have "(y OR 0x80) AND 0x7f = take_bit 7 (y OR 0x80)" by (simp add: take_bit_eq_mask)
  also have "\<dots> = take_bit 7 y" by simp
  finally show ?thesis .
qed

lemma accumulate_step:
  "take_bit s u OR push_bit s (ucast ((ucast (drop_bit s u) OR 0x80 :: u8) AND 0x7f))
     = take_bit (s + 7) u" for u :: uint
  by (rule bit_word_eqI, simp only: low_seven_bits) (auto simp: bit_simps)

lemma accumulate_last:
  assumes "drop_bit s u < 0x80"
  shows "take_bit s u OR push_bit s (ucast (ucast (drop_bit s u) :: u8)) = (u :: uint)"
proof (rule bit_word_eqI)
  fix n assume "n < LENGTH(128)"
  from assms have "unat (drop_bit s u) < 2 ^ 7" by (simp add: word_less_nat_alt)
  then have t: "take_bit 7 (drop_bit s u) = drop_bit s u"
    by (simp add: unsigned_take_bit_eq take_bit_nat_eq_self word_unat_eq_iff)
  have hi: "\<not> bit u n" if "n \<ge> s + 7"
  proof -
    from that have "bit u n = bit (drop_bit s u) (n - s)" by (simp add: bit_simps)
    also have "\<dots> = bit (take_bit 7 (drop_bit s u)) (n - s)" by (simp only: t)
    also have "\<dots> = False" using that by (auto simp: bit_take_bit_iff)
    finally show ?thesis by simp
  qed
  with \<open>n < LENGTH(128)\<close>
  show "bit (take_bit s u OR push_bit s (ucast (ucast (drop_bit s u) :: u8))) n = bit u n"
    by (cases "n < s"; cases "n < s + 7") (auto simp: bit_simps)
qed

lemma try_from_loop_leb128:
  assumes "length pre + length (leb128 (drop_bit s u)) \<le> MAX_BYTES"
  shows "try_from_loop (pre @ leb128 (drop_bit s u) @ rest) (length pre) s (take_bit s u) = Some u"
  using assms
proof (induction "drop_bit s u" arbitrary: pre s rule: leb128.induct)
  case 1
  show ?case
  proof (cases "0x80 \<le> drop_bit s u")
    case True
    let ?b = "ucast (drop_bit s u) OR 0x80 :: u8"
    have split: "leb128 (drop_bit s u) = ?b # leb128 (drop_bit (s + 7) u)"
      using True by (subst leb128.simps) (simp add: add.commute)
    have "try_from_loop ((pre @ [?b]) @ leb128 (drop_bit (s + 7) u) @ rest) (length (pre @ [?b]))
        (s + 7) (take_bit (s + 7) u) = Some u"
      using "1.hyps" [of "s + 7" "pre @ [?b]"] True "1.prems" split
      by (simp add: add.commute)
    then show ?thesis
      using "1.prems" split
      by (subst try_from_loop.simps) (simp add: continuation_byte accumulate_step)
  next
    case False
    then have "leb128 (drop_bit s u) = [ucast (drop_bit s u)]"
      by (subst leb128.simps) simp
    with False "1.prems" show ?thesis
      by (subst try_from_loop.simps) (simp add: last_byte not_le accumulate_last)
  qed
qed

lemma try_from_leb128: "try_from (leb128 u @ rest) = Some u"
  using try_from_loop_leb128 [of "[]" 0 u rest] leb128_max_bytes [of u]
  by (simp add: try_from_def)

lemma peek_loop_leb128:
  assumes "length pre + length (leb128 u) \<le> MAX_BYTES"
  shows "peek_loop (pre @ leb128 u @ rest) (length pre) = Some (length pre + length (leb128 u))"
  using assms
proof (induction u arbitrary: pre rule: leb128.induct)
  case (1 u)
  show ?case
  proof (cases "0x80 \<le> u")
    case True
    let ?b = "ucast u OR 0x80 :: u8"
    have split: "leb128 u = ?b # leb128 (drop_bit 7 u)"
      using True by (subst leb128.simps) simp
    with "1.prems" "1.IH" [OF True, of "pre @ [?b]"] show ?thesis
      by (subst peek_loop.simps) (simp add: continuation_byte)
  next
    case False
    then have "leb128 u = [ucast u]" by (subst leb128.simps) simp
    with False "1.prems" show ?thesis
      by (subst peek_loop.simps) (simp add: last_byte not_le)
  qed
qed

lemma peek_leb128: "peek (leb128 u @ rest) = Some (length (leb128 u))"
  using peek_loop_leb128 [of "[]" u rest] leb128_max_bytes [of u] by (simp add: peek_def)

lemma peek_loop_leb128_prefix:
  assumes "length pre + j < MAX_BYTES" "j < length (leb128 u)"
  shows "peek_loop (pre @ take j (leb128 u)) (length pre) = None"
  using assms
proof (induction u arbitrary: pre j rule: leb128.induct)
  case (1 u)
  show ?case
  proof (cases j)
    case 0
    then show ?thesis by (subst peek_loop.simps) simp
  next
    case (Suc k)
    with "1.prems" have big: "0x80 \<le> u"
      using leb128.simps [of u] by (auto split: if_splits)
    let ?b = "ucast u OR 0x80 :: u8"
    have split: "leb128 u = ?b # leb128 (drop_bit 7 u)"
      using big by (subst leb128.simps) simp
    with "1.prems" Suc "1.IH" [OF big, of "pre @ [?b]" k] show ?thesis
      by (subst peek_loop.simps) (simp add: continuation_byte)
  qed
qed

lemma peek_leb128_prefix: "j < length (leb128 u) \<Longrightarrow> peek (take j (leb128 u)) = None"
  using peek_loop_leb128_prefix [of "[]" j u] leb128_max_bytes [of u] by (simp add: peek_def)

lemma to_bytes_loop_leb128:
  assumes "i + length (leb128 x) \<le> length buffer"
  shows "to_bytes_loop buffer i x =
    Some (take i buffer @ leb128 x @ drop (i + length (leb128 x)) buffer, i + length (leb128 x))"
  using assms
proof (induction x arbitrary: buffer i rule: leb128.induct)
  case (1 x)
  show ?case
  proof (cases "0x80 \<le> x")
    case True
    let ?b = "ucast x OR 0x80 :: u8"
    have split: "leb128 x = ?b # leb128 (drop_bit 7 x)"
      using True by (subst leb128.simps) simp
    with "1.prems" have i: "i < length buffer" by simp
    from i have "take (Suc i) (buffer[i := ?b]) = take i buffer @ [?b]"
      by (simp add: take_Suc_conv_app_nth)
    with True i split "1.prems" "1.IH" [OF True, of "Suc i" "buffer[i := ?b]"] show ?thesis
      by (subst to_bytes_loop.simps) simp
  next
    case False
    then have one: "leb128 x = [ucast x]" by (subst leb128.simps) simp
    with "1.prems" have i: "i < length buffer" by simp
    with one False show ?thesis
      by (subst to_bytes_loop.simps) (simp add: upd_conv_take_nth_drop)
  qed
qed

lemma to_vec_leb128: "to_vec u = Some (leb128 u)"
  using leb128_max_bytes [of u]
  by (simp add: to_vec_def to_bytes_with_length_def to_bytes_loop_leb128)

text \<open>The state of \<open>from_reader\<close> after it has read \<open>j\<close> bytes of an encoded value.\<close>

lemma from_reader_loop_prefix:
  assumes "j \<le> length (leb128 u)"
  shows "from_reader_loop (leb128 u @ rest) (replicate MAX_BYTES 0) 0 =
    from_reader_loop (drop j (leb128 u) @ rest)
      (take j (leb128 u) @ replicate (MAX_BYTES - j) 0) j"
  using assms
proof (induction j)
  case 0
  then show ?case by simp
next
  case (Suc j)
  let ?e = "leb128 u"
  from Suc.prems have j: "j < length ?e" by simp
  with leb128_max_bytes [of u] have jm: "j < MAX_BYTES" by simp
  have rd: "drop j ?e @ rest = ?e ! j # drop (Suc j) ?e @ rest"
    using j by (simp add: Cons_nth_drop_Suc [symmetric])
  have "replicate (MAX_BYTES - j) (0::u8) = 0 # replicate (MAX_BYTES - Suc j) 0"
    using jm by (metis Suc_diff_Suc replicate_Suc)
  then have out: "(take j ?e @ replicate (MAX_BYTES - j) 0)[j := ?e ! j]
      = take (Suc j) ?e @ replicate (MAX_BYTES - Suc j) 0"
    using j by (simp add: list_update_append take_Suc_conv_app_nth)
  have "from_reader_loop (drop j ?e @ rest) (take j ?e @ replicate (MAX_BYTES - j) 0) j =
      from_reader_loop (drop (Suc j) ?e @ rest)
        (take (Suc j) ?e @ replicate (MAX_BYTES - Suc j) 0) (Suc j)"
    using j jm by (subst from_reader_loop.simps) (simp add: rd out Let_def peek_leb128_prefix)
  with Suc show ?case by simp
qed

lemma from_reader_loop_leb128:
  "from_reader_loop (leb128 u @ rest) (replicate MAX_BYTES 0) 0 =
    from_reader_loop rest (leb128 u @ replicate (MAX_BYTES - length (leb128 u)) 0)
      (length (leb128 u))"
  using from_reader_loop_prefix [of "length (leb128 u)" u rest] by simp

lemma from_reader_next:
  assumes "length (leb128 u) < MAX_BYTES"
  shows "from_reader (leb128 u @ b # rest) = Inr (u, rest)"
proof -
  let ?out = "leb128 u @ replicate (MAX_BYTES - length (leb128 u)) 0"
  have "from_reader_loop (leb128 u @ b # rest) (replicate MAX_BYTES 0) 0
      = Inr (rest, ?out[length (leb128 u) := b], length (leb128 u))"
    unfolding from_reader_loop_leb128 using assms peek_leb128 [of u "[]"]
    by (subst from_reader_loop.simps) (simp add: Let_def)
  then show ?thesis
    using assms try_from_leb128 [of u "[]"] by (simp add: from_reader_def)
qed

lemma from_reader_exact:
  assumes "length (leb128 u) < MAX_BYTES"
  shows "from_reader (leb128 u) = Inl UnexpectedEof"
proof -
  have "from_reader_loop (leb128 u) (replicate MAX_BYTES 0) 0 = Inl UnexpectedEof"
    using from_reader_loop_leb128 [of u "[]"] assms
    by (simp add: from_reader_loop.simps [of "[]"])
  then show ?thesis by (simp add: from_reader_def)
qed

lemma from_reader_longest:
  assumes "length (leb128 u) = MAX_BYTES"
  shows "from_reader (leb128 u @ rest) = Inl InvalidData"
proof -
  have "from_reader_loop (leb128 u @ rest) (replicate MAX_BYTES 0) 0
      = Inr (rest, leb128 u, MAX_BYTES)"
    unfolding from_reader_loop_leb128 using assms
    by (simp add: from_reader_loop.simps [of rest])
  then show ?thesis by (simp add: from_reader_def)
qed

section \<open>Properties\<close>

text \<open>C35. The variable-length encoding is total and reversible: every 128-bit value is encoded (no index is
  out of bounds) in 1 to 19 bytes, and, whatever follows, \<open>try_from\<close> reads the value back and
  \<open>peek\<close> the number of its bytes.\<close>

theorem varint_roundtrip:
  "\<exists>bs. to_vec u = Some bs \<and> bs \<noteq> [] \<and> length bs \<le> 19 \<and>
     (\<forall>rest. try_from (bs @ rest) = Some u \<and> peek (bs @ rest) = Some (length bs))"
  using to_vec_leb128 leb128_nonempty leb128_max_bytes [of u] try_from_leb128 peek_leb128
  by (auto simp: MAX_BYTES_def)

text \<open>The stream reader is off by one: it looks at the bytes before the one it has just read, so a stream
  that ends with an encoded value is an error, a longer stream loses the byte after the value, and
  a value of 19 bytes is never read.\<close>

theorem from_reader_off_by_one:
  "\<exists>bs. to_vec u = Some bs \<and>
     (if length bs < 19
      then from_reader bs = Inl UnexpectedEof \<and> (\<forall>b rest. from_reader (bs @ b # rest) = Inr (u, rest))
      else (\<forall>rest. from_reader (bs @ rest) = Inl InvalidData))"
proof (cases "length (leb128 u) < 19")
  case True
  with from_reader_exact [of u] from_reader_next [of u] to_vec_leb128 [of u] show ?thesis
    by (auto simp: MAX_BYTES_def)
next
  case False
  with leb128_max_bytes [of u] have "length (leb128 u) = MAX_BYTES" by (simp add: MAX_BYTES_def)
  with from_reader_longest [of u] to_vec_leb128 [of u] False show ?thesis by auto
qed

end
