(* ===== verification/UintOps.thy ===== *)
theory UintOps
  imports UintZigzag "HOL-Library.Signed_Division"
begin

text \<open>
  The rest of \<open>vendor/uint-zigzag\<close>: conversions, operators, sums and products, and serde. The macros
  of the crate are definitions that are generic in the width; a type of signed integers is the words
  of its width, read with \<open>sint\<close>. Arithmetic wraps, as in the release profile the node is built
  with; a panic (division by zero, the quotient of the smallest signed integer by minus one) is
  \<open>None\<close>. Shown: conversions are inverse, an operator with the crate's type on the right is the
  truncation of the same operator on 128 bits exactly where truncation commutes with it, sums are
  sums, every product is zero, and serde round trips.
\<close>

unbundle bit_operations_syntax

section \<open>Definitions\<close>

datatype operator = Add | Sub | Mul | Div | Rem | BitAnd | BitOr | BitXor | Shl | Shr

text \<open>\<open>impl_from!\<close>: \<open>v as u128\<close> extends by the sign of the source type, \<open>v.0 as $tt\<close> truncates.\<close>

definition from_unsigned :: "'a::len word \<Rightarrow> uint" where
  "from_unsigned v = ucast v"

definition from_signed :: "'a::len word \<Rightarrow> uint" where
  "from_signed v = scast v"

definition into_int :: "uint \<Rightarrow> 'a::len word" where
  "into_int u = ucast u"

text \<open>The operators of the primitive types.\<close>

fun unsigned_op :: "operator \<Rightarrow> 'a::len word \<Rightarrow> 'a word \<Rightarrow> 'a word option" where
  "unsigned_op Add a b = Some (a + b)"
| "unsigned_op Sub a b = Some (a - b)"
| "unsigned_op Mul a b = Some (a * b)"
| "unsigned_op Div a b = (if b = 0 then None else Some (a div b))"
| "unsigned_op Rem a b = (if b = 0 then None else Some (a mod b))"
| "unsigned_op BitAnd a b = Some (a AND b)"
| "unsigned_op BitOr a b = Some (a OR b)"
| "unsigned_op BitXor a b = Some (a XOR b)"
| "unsigned_op Shl a b = Some (push_bit (unat b mod LENGTH('a)) a)"
| "unsigned_op Shr a b = Some (drop_bit (unat b mod LENGTH('a)) a)"

definition signed_panics :: "'a::len word \<Rightarrow> 'a word \<Rightarrow> bool" where
  "signed_panics a b \<longleftrightarrow> b = 0 \<or> (b = - 1 \<and> sint a = - (2 ^ (LENGTH('a) - 1)))"

fun signed_op :: "operator \<Rightarrow> 'a::len word \<Rightarrow> 'a word \<Rightarrow> 'a word option" where
  "signed_op Div a b = (if signed_panics a b then None else Some (word_of_int (sint a sdiv sint b)))"
| "signed_op Rem a b = (if signed_panics a b then None else Some (word_of_int (sint a smod sint b)))"
| "signed_op Shr a b = Some (signed_drop_bit (unat b mod LENGTH('a)) a)"
| "signed_op opr a b = unsigned_op opr a b"

text \<open>\<open>ops_impl!\<close>: \<open>Uint\<close> on the left gives \<open>Uint\<close>, a primitive type on the left gives that type; \<open>assign_ops_impl!\<close>
  stores what the operator gives.\<close>

definition uint_op :: "operator \<Rightarrow> uint \<Rightarrow> uint \<Rightarrow> uint option" where
  "uint_op opr a b = unsigned_op opr a b"

definition uint_op_unsigned :: "operator \<Rightarrow> uint \<Rightarrow> 'a::len word \<Rightarrow> uint option" where
  "uint_op_unsigned opr a b = unsigned_op opr a (ucast b)"

definition uint_op_signed :: "operator \<Rightarrow> uint \<Rightarrow> 'a::len word \<Rightarrow> uint option" where
  "uint_op_signed opr a b = unsigned_op opr a (scast b)"

definition unsigned_op_uint :: "operator \<Rightarrow> 'a::len word \<Rightarrow> uint \<Rightarrow> 'a word option" where
  "unsigned_op_uint opr a b = unsigned_op opr a (ucast b)"

definition signed_op_uint :: "operator \<Rightarrow> 'a::len word \<Rightarrow> uint \<Rightarrow> 'a word option" where
  "signed_op_uint opr a b = signed_op opr a (ucast b)"

text \<open>\<open>assign_ops_impl!\<close>: the value of the left side afterwards.\<close>

definition assign_op :: "operator \<Rightarrow> uint \<Rightarrow> uint \<Rightarrow> uint option" where
  "assign_op opr self rhs = unsigned_op opr self rhs"

definition assign_op_unsigned :: "operator \<Rightarrow> uint \<Rightarrow> 'a::len word \<Rightarrow> uint option" where
  "assign_op_unsigned opr self rhs = unsigned_op opr self (ucast rhs)"

definition assign_op_signed :: "operator \<Rightarrow> uint \<Rightarrow> 'a::len word \<Rightarrow> uint option" where
  "assign_op_signed opr self rhs = unsigned_op opr self (scast rhs)"

text \<open>\<open>Display\<close>: the value in decimal.\<close>

definition uint_display :: "uint \<Rightarrow> string" where
  "uint_display u = show_nat (unat u)"

text \<open>\<open>iter_impl!\<close>: both loops start at \<open>0u128\<close>.\<close>

primrec sum_loop :: "uint list \<Rightarrow> uint \<Rightarrow> uint" where
  "sum_loop [] i = i"
| "sum_loop (v # vs) i = sum_loop vs (i + v)"

primrec product_loop :: "uint list \<Rightarrow> uint \<Rightarrow> uint" where
  "product_loop [] i = i"
| "product_loop (v # vs) i = product_loop vs (i * v)"

definition uint_sum :: "uint list \<Rightarrow> uint" where
  "uint_sum vs = sum_loop vs 0"

definition uint_product :: "uint list \<Rightarrow> uint" where
  "uint_product vs = product_loop vs 0"

text \<open>serde: a byte string, written and read by the format (a parameter).\<close>

definition uint_serialize :: "(bytes \<Rightarrow> 'e + 'o) \<Rightarrow> uint \<Rightarrow> ('e + 'o) option" where
  "uint_serialize serialize_bytes u =
     (case to_bytes_with_length u (replicate MAX_BYTES 0) of
        None \<Rightarrow> None
      | Some (buffer, n) \<Rightarrow> Some (serialize_bytes (take n buffer)))"

definition visit_bytes :: "(nat \<Rightarrow> 'e) \<Rightarrow> bytes \<Rightarrow> 'e + uint" where
  "visit_bytes invalid_length v = (case try_from v of None \<Rightarrow> Inl (invalid_length (length v)) | Some u \<Rightarrow> Inr u)"

definition uint_deserialize :: "(nat \<Rightarrow> 'e) \<Rightarrow> ('i \<Rightarrow> 'e + bytes) \<Rightarrow> 'i \<Rightarrow> 'e + uint" where
  "uint_deserialize invalid_length deserialize_bytes input =
     (case deserialize_bytes input of Inl e \<Rightarrow> Inl e | Inr v \<Rightarrow> visit_bytes invalid_length v)"

section \<open>Lemmas\<close>

text \<open>Conversions into \<open>Uint\<close> and back are the identity for every width up to 128 bits; a negative number becomes
  a large one, so that its encoding has the full length.\<close>

lemma from_into_unsigned: "LENGTH('a::len) \<le> 128 \<Longrightarrow> into_int (from_unsigned v) = (v :: 'a word)"
  unfolding into_int_def from_unsigned_def by (rule bit_word_eqI) (simp add: bit_simps)

lemma from_into_signed:
  assumes "LENGTH('a::len) \<le> 128"
  shows "into_int (from_signed v) = (v :: 'a word)"
  unfolding into_int_def from_signed_def
  by (rule bit_word_eqI) (use assms in \<open>auto simp: bit_simps\<close>)

lemma negative_is_longest: "to_vec (from_signed (- 1 :: 64 word)) = Some (replicate 18 0xff @ [3])"
  by code_simp

lemma truncation_ring:
  fixes x y :: uint
  assumes "LENGTH('a::len) \<le> 128"
  shows "(ucast (x + y) :: 'a word) = ucast x + ucast y" "(ucast (x - y) :: 'a word) = ucast x - ucast y"
    "(ucast (x * y) :: 'a word) = ucast x * ucast y"
proof -
  have cut: "(word_of_int (take_bit 128 k) :: 'a word) = word_of_int k" for k
    using assms by (simp add: word_of_int_eq_iff min_def)
  show "(ucast (x + y) :: 'a word) = ucast x + ucast y" "(ucast (x - y) :: 'a word) = ucast x - ucast y"
    "(ucast (x * y) :: 'a word) = ucast x * ucast y"
    by (simp_all add: ucast_eq uint_word_arith_bintrs cut del: of_int_uint)
qed

lemma truncation_commutes:
  assumes "LENGTH('a::len) \<le> 128" "opr \<in> {Add, Sub, Mul, BitAnd, BitOr, BitXor}"
  shows "unsigned_op_uint opr (a :: 'a word) b = map_option into_int (uint_op opr (from_unsigned a) b)"
proof -
  have "(ucast (ucast a + b) :: 'a word) = a + ucast b" "(ucast (ucast a - b) :: 'a word) = a - ucast b"
    "(ucast (ucast a * b) :: 'a word) = a * ucast b"
    using truncation_ring [OF assms(1)] from_into_unsigned [OF assms(1), of a] by (simp_all add: into_int_def from_unsigned_def)
  moreover have "(ucast (ucast a AND b) :: 'a word) = a AND ucast b" "(ucast (ucast a OR b) :: 'a word) = a OR ucast b"
    "(ucast (ucast a XOR b) :: 'a word) = a XOR ucast b"
    using assms(1) by (auto intro!: bit_word_eqI simp: bit_simps)
  ultimately show ?thesis
    using assms(2) by (auto simp: unsigned_op_uint_def uint_op_def from_unsigned_def into_int_def)
qed

text \<open>An assigning operator leaves what the operator returns, and the decimal text determines the value.\<close>

lemma assign_is_operator:
  "assign_op opr a b = uint_op opr a b"
  "assign_op_unsigned opr a v = uint_op opr a (from_unsigned v)"
  "assign_op_signed opr a w = uint_op opr a (from_signed w)"
  by (simp_all add: assign_op_def assign_op_unsigned_def assign_op_signed_def uint_op_def
      from_unsigned_def from_signed_def)

lemma display_parses: "map_option word_of_nat (parse_digits (uint_display u)) = Some u"
  by (simp add: uint_display_def parse_digits_show_nat)

lemma uint_sum_list: "uint_sum vs = sum_list vs"
proof -
  have "sum_loop vs i = i + sum_list vs" for i by (induction vs arbitrary: i) simp_all
  then show ?thesis by (simp add: uint_sum_def)
qed

lemma uint_product_zero: "uint_product vs = 0"
  unfolding uint_product_def by (induction vs) simp_all

lemma serde_roundtrip:
  assumes "\<And>b. deserialize_bytes (out b) = Inr b"
  shows "\<exists>o'. uint_serialize (\<lambda>b. Inr (out b)) u = Some (Inr o') \<and> uint_deserialize bad deserialize_bytes o' = Inr u"
proof -
  from to_vec_leb128 [of u] obtain buffer n where "to_bytes_with_length u (replicate MAX_BYTES 0) = Some (buffer, n)"
    "take n buffer = leb128 u" by (auto simp: to_vec_def split: prod.splits)
  then show ?thesis
    using assms try_from_leb128 [of u "[]"] by (simp add: uint_serialize_def uint_deserialize_def visit_bytes_def)
qed

end
