(* ===== verification/Crates.thy ===== *)
theory Crates
  imports KmsPrelude
begin

text \<open>
  The third-party crates the sources call are not part of the repository: they are parameters of
  the model, the fields of the record \<open>crates\<close>. What the sources rely on is stated here as named
  predicates on that record (documented behaviour of the crates); theorems that need one take it as
  a hypothesis. A failing call returns \<open>Inl\<close> with the text of the crate's error. A randomised
  function (ECIES encryption, ECDSA signing) stands for one outcome of its random choices.
\<close>

record crates =
  hex_encode :: "bytes \<Rightarrow> string"
  hex_decode :: "string \<Rightarrow> bytes anyhow"
  b64url_encode :: "bytes \<Rightarrow> string"
  b64url_decode :: "string \<Rightarrow> bytes anyhow"
  ecies_enc :: "bytes \<Rightarrow> bytes \<Rightarrow> bytes anyhow"
  ecies_dec :: "bytes \<Rightarrow> bytes \<Rightarrow> bytes anyhow"
  keccak256 :: "bytes \<Rightarrow> bytes"
  sha256 :: "bytes \<Rightarrow> bytes"
  k256_verifying_key :: "bytes \<Rightarrow> bytes anyhow"
  k256_sign_prehash :: "bytes \<Rightarrow> bytes \<Rightarrow> (bytes \<times> u8) anyhow"
  k256_parse_sig :: "bytes \<Rightarrow> bytes anyhow"
  k256_recover :: "bytes \<Rightarrow> bytes \<Rightarrow> u8 \<Rightarrow> bytes anyhow"
  debug_address :: "address \<Rightarrow> string"

text \<open>\<open>hex\<close>: decoding inverts encoding, two characters per byte, and the output consists of
  decimal digits and lower-case letters a to f.\<close>

definition is_lower_hex :: "char \<Rightarrow> bool" where
  "is_lower_hex c \<longleftrightarrow> c \<in> set ''0123456789abcdef''"

definition hex_ok :: "'z crates_scheme \<Rightarrow> bool" where
  "hex_ok L \<longleftrightarrow>
     (\<forall>b. hex_decode L (hex_encode L b) = Inr b) \<and>
     (\<forall>s b. hex_decode L s = Inr b \<longrightarrow> length s = 2 * length b) \<and>
     (\<forall>b. list_all is_lower_hex (hex_encode L b))"

text \<open>\<open>base64\<close>, URL-safe alphabet without padding: decoding inverts encoding; the alphabet has no
  white space; only the empty byte string encodes to the empty text.\<close>

definition b64_ok :: "'z crates_scheme \<Rightarrow> bool" where
  "b64_ok L \<longleftrightarrow>
     (\<forall>b. b64url_decode L (b64url_encode L b) = Inr b) \<and>
     (\<forall>b. list_all (\<lambda>c. \<not> is_ascii_space c) (b64url_encode L b)) \<and>
     (\<forall>b. b64url_encode L b = [] \<longrightarrow> b = [])"

text \<open>\<open>ecies\<close>: what is encrypted to a key pair's public key is decrypted by its private key.\<close>

definition ecies_ok :: "'z crates_scheme \<Rightarrow> bool" where
  "ecies_ok L \<longleftrightarrow>
     (\<forall>sk pk m c. k256_verifying_key L sk = Inr pk \<longrightarrow> ecies_enc L pk m = Inr c
        \<longrightarrow> ecies_dec L sk c = Inr m)"

text \<open>\<open>ecies\<close> authenticates: a ciphertext for one key pair is refused under any other key.\<close>

definition ecies_binds_key :: "'z crates_scheme \<Rightarrow> bool" where
  "ecies_binds_key L \<longleftrightarrow>
     (\<forall>sk sk' pk m c. k256_verifying_key L sk = Inr pk \<longrightarrow> ecies_enc L pk m = Inr c
        \<longrightarrow> sk' \<noteq> sk \<longrightarrow> (\<exists>e. ecies_dec L sk' c = Inl e))"

text \<open>\<open>k256\<close>: a recoverable signature has 64 bytes, a recovery id of 0 or 1, and recovers to the
  signer's public key (65 bytes); Keccak-256 has 32 bytes of output.\<close>

definition k256_ok :: "'z crates_scheme \<Rightarrow> bool" where
  "k256_ok L \<longleftrightarrow>
     (\<forall>sk h rs v. k256_sign_prehash L sk h = Inr (rs, v) \<longrightarrow>
        length rs = 64 \<and> v \<in> {0, 1} \<and>
        (\<exists>sig pk. k256_parse_sig L rs = Inr sig \<and> k256_verifying_key L sk = Inr pk \<and>
           k256_recover L h sig v = Inr pk)) \<and>
     (\<forall>sk pk. k256_verifying_key L sk = Inr pk \<longrightarrow> length pk = 65) \<and>
     (\<forall>m. length (keccak256 L m) = 32)"

lemma hex_okD:
  assumes "hex_ok L"
  shows hex_ok_roundtrip: "hex_decode L (hex_encode L b) = Inr b"
    and hex_ok_length: "hex_decode L s = Inr c \<Longrightarrow> length s = 2 * length c"
    and hex_ok_encode_length: "length (hex_encode L b) = 2 * length b"
proof -
  show rt: "hex_decode L (hex_encode L b) = Inr b" for b
    using assms by (simp add: hex_ok_def)
  show len: "hex_decode L s = Inr c \<Longrightarrow> length s = 2 * length c" for s c
    using assms by (simp add: hex_ok_def)
  show "length (hex_encode L b) = 2 * length b"
    using len [OF rt] .
qed

lemma hex_ok_trim_0x:
  assumes "hex_ok L"
  shows "trim_0x (hex_encode L b) = hex_encode L b"
proof (rule trim_0x_id)
  have "\<not> is_lower_hex (CHR ''x'')" by (simp add: is_lower_hex_def)
  then have "CHR ''x'' \<notin> set (hex_encode L b)" using assms by (auto simp: hex_ok_def list_all_iff)
  then show "\<not> starts_with ''0x'' (hex_encode L b)"
    unfolding starts_with_def
    by (metis in_set_takeD list.set_intros(1) list.set_intros(2))
qed

lemma dropWhile_none: "list_all (\<lambda>c. \<not> P c) s \<Longrightarrow> dropWhile P s = s"
  by (cases s) auto

lemma trim_no_space: "list_all (\<lambda>c. \<not> is_ascii_space c) s \<Longrightarrow> trim s = s"
  by (simp add: trim_def dropWhile_none list_all_iff)

lemma b64_ok_trim: "b64_ok L \<Longrightarrow> trim (b64url_encode L b) = b64url_encode L b"
  by (rule trim_no_space) (simp add: b64_ok_def)

lemma b64_ok_roundtrip: "b64_ok L \<Longrightarrow> b64url_decode L (b64url_encode L b) = Inr b"
  by (simp add: b64_ok_def)

lemma b64_ok_nonempty: "b64_ok L \<Longrightarrow> b \<noteq> [] \<Longrightarrow> b64url_encode L b \<noteq> []"
  by (auto simp: b64_ok_def)

lemma ecies_okD:
  "ecies_ok L \<Longrightarrow> k256_verifying_key L sk = Inr pk \<Longrightarrow> ecies_enc L pk m = Inr c \<Longrightarrow>
     ecies_dec L sk c = Inr m"
  by (simp add: ecies_ok_def)

section \<open>A concrete instance\<close>

text \<open>
  One executable value of the record that satisfies every predicate above: real hexadecimal text
  (also used for base64), a ciphertext that carries its recipient, a signature that carries its
  key. It is not secure; it shows that the hypotheses are consistent and lets the theorems be
  applied to concrete inputs.
\<close>

definition nibble_char :: "nat \<Rightarrow> char" where
  "nibble_char n = (if n < 10 then char_of (48 + n) else char_of (87 + n))"

definition char_nibble :: "char \<Rightarrow> nat option" where
  "char_nibble c =
     (let n = of_char c in
      if 48 \<le> n \<and> n \<le> 57 then Some (n - 48)
      else if 97 \<le> n \<and> n \<le> 102 then Some (n - 87)
      else if 65 \<le> n \<and> n \<le> 70 then Some (n - 55) else None)"

primrec demo_hex_encode :: "bytes \<Rightarrow> string" where
  "demo_hex_encode [] = []"
| "demo_hex_encode (b # bs) =
     nibble_char (unat b div 16) # nibble_char (unat b mod 16) # demo_hex_encode bs"

fun demo_hex_decode :: "string \<Rightarrow> bytes anyhow" where
  "demo_hex_decode [] = Inr []"
| "demo_hex_decode [c] = Inl ''Odd number of digits''"
| "demo_hex_decode (c # d # s) =
     (case (char_nibble c, char_nibble d) of
        (Some x, Some y) \<Rightarrow>
          rbind (demo_hex_decode s) (\<lambda>bs. Inr (word_of_nat (16 * x + y) # bs))
      | _ \<Rightarrow> Inl ''Invalid character'')"

definition demo_pk :: "bytes \<Rightarrow> bytes" where
  "demo_pk sk = 4 # sk @ replicate 32 0"

definition demo_hash :: "bytes \<Rightarrow> bytes" where
  "demo_hash m = take 32 (m @ replicate 32 0)"

definition demo_crates :: crates where
  "demo_crates =
     \<lparr> hex_encode = demo_hex_encode, hex_decode = demo_hex_decode,
       b64url_encode = demo_hex_encode, b64url_decode = demo_hex_decode,
       ecies_enc = (\<lambda>pk m. if length pk = 65 then Inr (pk @ m) else Inl ''bad key''),
       ecies_dec = (\<lambda>sk c. if length sk = 32 \<and> take 65 c = demo_pk sk then Inr (drop 65 c)
                           else Inl ''decrypt''),
       keccak256 = demo_hash, sha256 = demo_hash,
       k256_verifying_key = (\<lambda>sk. if length sk = 32 then Inr (demo_pk sk) else Inl ''bad scalar''),
       k256_sign_prehash = (\<lambda>sk h. if length sk = 32 \<and> length h = 32 then Inr (sk @ h, 0)
                                   else Inl ''sign''),
       k256_parse_sig = (\<lambda>rs. if length rs = 64 then Inr rs else Inl ''bad signature''),
       k256_recover = (\<lambda>h sig v. if drop 32 sig = h then Inr (demo_pk (take 32 sig))
                                 else Inl ''no key''),
       debug_address = (\<lambda>a. ''0x'' @ demo_hex_encode a) \<rparr>"

lemma char_nibble_char: "n < 16 \<Longrightarrow> char_nibble (nibble_char n) = Some n"
  by (simp add: char_nibble_def nibble_char_def Let_def)

lemma nibble_char_plain:
  assumes "n < 16"
  shows "is_lower_hex (nibble_char n) \<and> \<not> is_ascii_space (nibble_char n)"
proof -
  have "list_all (\<lambda>n. is_lower_hex (nibble_char n) \<and> \<not> is_ascii_space (nibble_char n)) [0..<16]"
    by code_simp
  with assms show ?thesis by (simp only: list_all_iff set_upt) simp
qed

lemma demo_hex_roundtrip: "demo_hex_decode (demo_hex_encode b) = Inr b"
proof (induction b)
  case Nil
  then show ?case by simp
next
  case (Cons x b)
  have "unat x < 256" using unat_word_less [of x] by simp
  then have "unat x div 16 < 16" by (simp add: less_mult_imp_div_less)
  with Cons show ?case
    by (simp add: char_nibble_char)
qed

lemma demo_hex_decode_length: "demo_hex_decode s = Inr b \<Longrightarrow> length s = 2 * length b"
  by (induction s arbitrary: b rule: demo_hex_decode.induct)
    (auto simp: result_iffs split: option.splits)

lemma demo_hex_chars:
  "c \<in> set (demo_hex_encode b) \<Longrightarrow> is_lower_hex c \<and> \<not> is_ascii_space c"
proof (induction b)
  case Nil
  then show ?case by simp
next
  case (Cons x b)
  have "unat x < 256" using unat_word_less [of x] by simp
  then have "unat x div 16 < 16" "unat x mod 16 < 16" by (simp_all add: less_mult_imp_div_less)
  with Cons nibble_char_plain show ?case by auto
qed

lemma demo_crates_hex: "hex_ok demo_crates"
  using demo_hex_chars
  by (auto simp: hex_ok_def demo_crates_def demo_hex_roundtrip demo_hex_decode_length list_all_iff)

lemma demo_crates_b64: "b64_ok demo_crates"
proof -
  have "demo_hex_encode b = [] \<Longrightarrow> b = []" for b by (cases b) auto
  then show ?thesis using demo_hex_chars
    by (auto simp: b64_ok_def demo_crates_def demo_hex_roundtrip list_all_iff)
qed

lemma demo_pk_length: "length sk = 32 \<Longrightarrow> length (demo_pk sk) = 65"
  by (simp add: demo_pk_def)

lemma demo_pk_inject: "demo_pk a = demo_pk b \<longleftrightarrow> a = b"
  by (simp add: demo_pk_def)

lemma demo_crates_ecies: "ecies_ok demo_crates" "ecies_binds_key demo_crates"
  by (auto simp: ecies_ok_def ecies_binds_key_def demo_crates_def demo_pk_length demo_pk_inject
      split: if_splits)

lemma demo_crates_k256: "k256_ok demo_crates"
  by (auto simp: k256_ok_def demo_crates_def demo_pk_length demo_hash_def split: if_splits)

lemmas demo_crates_ok = demo_crates_hex demo_crates_b64 demo_crates_ecies demo_crates_k256

text \<open>The predicates do not depend on what a later theory adds to the record.\<close>

lemma crates_ok_truncate:
  "hex_ok (crates.truncate r) = hex_ok r"
  "b64_ok (crates.truncate r) = b64_ok r"
  "ecies_ok (crates.truncate r) = ecies_ok r"
  "ecies_binds_key (crates.truncate r) = ecies_binds_key r"
  "k256_ok (crates.truncate r) = k256_ok r"
  by (simp_all add: hex_ok_def b64_ok_def ecies_ok_def ecies_binds_key_def k256_ok_def crates.defs)

lemma crates_ok_demo:
  assumes "crates.truncate r = demo_crates"
  shows "hex_ok r" "b64_ok r" "ecies_ok r" "ecies_binds_key r" "k256_ok r"
  using demo_crates_ok unfolding assms [symmetric] by (simp_all add: crates_ok_truncate)

end
