(* ===== verification/KmsError.thy ===== *)
theory KmsError
  imports KmsPrelude
begin

text \<open>
  \<open>src/error.rs\<close>: the error type of the HTTP side, its texts, and the HTTP response each error
  becomes. The JSON body \<open>{"error": message}\<close> is represented by its message.
\<close>

datatype kms_error =
    InvalidTimestamp string
  | InvalidSignature string
  | AppNotFound string
  | NotAttested string
  | BadRequest string
  | ChainError string
  | CryptoError string
  | ConfigError string

fun kms_error_to_string :: "kms_error \<Rightarrow> string" where
  "kms_error_to_string (InvalidTimestamp s) = ''invalid timestamp: '' @ s"
| "kms_error_to_string (InvalidSignature s) = ''invalid signature: '' @ s"
| "kms_error_to_string (AppNotFound s) = ''app not found on-chain: '' @ s"
| "kms_error_to_string (NotAttested s) = ''attestation required: '' @ s"
| "kms_error_to_string (BadRequest s) = ''bad request: '' @ s"
| "kms_error_to_string (ChainError s) = ''chain error: '' @ s"
| "kms_error_to_string (CryptoError s) = ''crypto error: '' @ s"
| "kms_error_to_string (ConfigError s) = ''config error: '' @ s"

fun status_code :: "kms_error \<Rightarrow> nat" where
  "status_code (InvalidTimestamp _) = 401"
| "status_code (InvalidSignature _) = 401"
| "status_code (AppNotFound _) = 404"
| "status_code (BadRequest _) = 400"
| "status_code (NotAttested _) = 403"
| "status_code (ChainError _) = 500"
| "status_code (CryptoError _) = 500"
| "status_code (ConfigError _) = 500"

definition into_response :: "kms_error \<Rightarrow> nat \<times> string" where
  "into_response e = (status_code e, kms_error_to_string e)"

end
