(* ===== verification/MetricsCore.thy ===== *)
theory MetricsCore
  imports KmsPrelude
begin

text \<open>
  \<open>src/metrics.rs\<close>, the process-wide counter set and the functions that change it. The counters
  are 64-bit atomics; each operation of the program bumps them through the functions below, so
  the record is threaded through every modelled handler. The gauges derived from the node state
  (\<open>cluster_view\<close>) and the master baseline are in \<open>Monitoring\<close>.
\<close>

record metrics =
  started :: instant
  appkey_ok :: u64
  appkey_unauthorized :: u64
  appkey_not_ready :: u64
  appkey_bad_request :: u64
  appkey_error :: u64
  dprf_discarded_malformed :: u64
  dprf_discarded_peer_error :: u64
  dprf_short :: u64
  genesis_ok :: u64
  genesis_fail :: u64
  recovery_ok :: u64
  recovery_fail :: u64
  dealer_ok :: u64
  dealer_fail :: u64
  refresh_ok :: u64
  refresh_fail :: u64
  fall_behind :: u64
  membership_fail :: u64
  sealed_persist_fail :: u64
  sealed_stale_discarded :: u64
  sealed_identity_mismatch :: u64
  share_path_writable :: i64
  master_matches_baseline :: i64
  last_recovery_seconds :: u64
  verifier_enabled :: i64
  verifier_allowed :: u64
  verifier_denied :: u64
  verifier_stale_served :: u64
  verifier_unavailable_refused :: u64
  verifier_scan_behind :: u64
  gossip_push_ok :: u64
  gossip_push_fail :: u64
  gossip_last_success :: i64
  chain_rpc_ok :: u64
  chain_rpc_fail :: u64
  chain_stale_served :: u64

definition metrics_new :: "instant \<Rightarrow> metrics" where
  "metrics_new now =
     \<lparr> started = now, appkey_ok = 0, appkey_unauthorized = 0, appkey_not_ready = 0,
       appkey_bad_request = 0, appkey_error = 0, dprf_discarded_malformed = 0,
       dprf_discarded_peer_error = 0, dprf_short = 0, genesis_ok = 0, genesis_fail = 0,
       recovery_ok = 0, recovery_fail = 0, dealer_ok = 0, dealer_fail = 0, refresh_ok = 0,
       refresh_fail = 0, fall_behind = 0, membership_fail = 0, sealed_persist_fail = 0,
       sealed_stale_discarded = 0, sealed_identity_mismatch = 0, share_path_writable = -1,
       master_matches_baseline = -1, last_recovery_seconds = 0, verifier_enabled = 0,
       verifier_allowed = 0, verifier_denied = 0, verifier_stale_served = 0,
       verifier_unavailable_refused = 0, verifier_scan_behind = 0, gossip_push_ok = 0,
       gossip_push_fail = 0, gossip_last_success = 0, chain_rpc_ok = 0, chain_rpc_fail = 0,
       chain_stale_served = 0 \<rparr>"

text \<open>\<open>inc\<close> is an atomic \<open>fetch_add\<close>, which wraps around. It is used with a field's update
  function: \<open>chain_rpc_ok_update inc m\<close>.\<close>

definition inc :: "u64 \<Rightarrow> u64" where
  "inc c = c + 1"

text \<open>\<open>record(ok, fail, r)\<close>, with the two counters given by their update functions.\<close>

definition record_outcome ::
    "((u64 \<Rightarrow> u64) \<Rightarrow> metrics \<Rightarrow> metrics) \<Rightarrow> ((u64 \<Rightarrow> u64) \<Rightarrow> metrics \<Rightarrow> metrics)
       \<Rightarrow> 'e + 'a \<Rightarrow> metrics \<Rightarrow> metrics" where
  "record_outcome ok fail r m = (if is_ok r then ok inc m else fail inc m)"

definition note_share_acquired :: "instant \<Rightarrow> metrics \<Rightarrow> metrics" where
  "note_share_acquired now m =
     (if last_recovery_seconds m = 0
      then m\<lparr>last_recovery_seconds :=
               max (word_of_nat (elapsed now (started m) div 1000000000)) 1\<rparr>
      else m)"

section \<open>Lemmas\<close>

lemma note_share_acquired_frozen:
  "last_recovery_seconds m \<noteq> 0 \<Longrightarrow> note_share_acquired now m = m"
  by (simp add: note_share_acquired_def)

lemma note_share_acquired_nonzero: "last_recovery_seconds (note_share_acquired now m) \<noteq> 0"
  by (auto simp: note_share_acquired_def max_def)

end
