(* ===== verification/NodeSetup.thy ===== *)
theory NodeSetup
  imports Crates
begin

text \<open>
  \<open>src/config.rs\<close> and \<open>src/tee.rs\<close>: the configuration records with their serde defaults, and how
  a node obtains its signing key (environment variables in mock mode, up to ten \<open>GetAppSecretKey\<close>
  calls otherwise). The TOML parser and the tapp-server are outside the repository: the parsed
  optional fields and the replies of the server are arguments. Shown: the key a node starts with
  always has 32 + 20 bytes, the \<open>unwrap\<close> of the mock path cannot panic, the retry loop makes at
  most ten calls, stops at the first reply and sleeps at most 55 s.
\<close>

record server_config =
  bind_addr :: string
  grpc_bind :: string
  timestamp_tolerance_secs :: i64

record tapp_config =
  app_id :: string
  tapp_ip :: string
  tapp_port :: "16 word"
  tapp_socket :: "string option"
  mock_tee :: bool

record verifier_config =
  vurl :: string
  pubkeys :: "string list"
  api_key :: string
  insecure_http :: bool

record chain_config =
  rpc_url :: string
  contract_address :: string

record cluster_config =
  threshold :: u32
  total_nodes :: u32
  bootstrap :: bool
  self_url :: string
  seeds :: "string list"
  cfg_sealed_share :: "string option"
  cfg_sealed_share_path :: "string option"

record config =
  server :: server_config
  tapp :: tapp_config
  chain :: chain_config
  cluster :: cluster_config
  verifier_cfg :: "verifier_config option"

definition default_http_bind :: string where
  "default_http_bind = ''0.0.0.0:8080''"

definition default_grpc_bind :: string where
  "default_grpc_bind = ''0.0.0.0:9090''"

definition default_timestamp_tolerance_secs :: i64 where
  "default_timestamp_tolerance_secs = 300"

definition default_tapp_ip :: string where
  "default_tapp_ip = ''127.0.0.1''"

definition default_tapp_port :: "16 word" where
  "default_tapp_port = 50051"

text \<open>Deserialisation of a section: \<open>None\<close> is a field absent from the file.\<close>

definition or_default :: "'a \<Rightarrow> 'a option \<Rightarrow> 'a" where
  "or_default d x = (case x of None \<Rightarrow> d | Some v \<Rightarrow> v)"

definition de_server_config :: "string option \<Rightarrow> string option \<Rightarrow> i64 option \<Rightarrow> server_config" where
  "de_server_config b g t =
     \<lparr> bind_addr = or_default default_http_bind b,
       grpc_bind = or_default default_grpc_bind g,
       timestamp_tolerance_secs = or_default default_timestamp_tolerance_secs t \<rparr>"

text \<open>\<open>app_id\<close> has no default: the section is refused without it.\<close>

definition de_tapp_config ::
    "string option \<Rightarrow> string option \<Rightarrow> (16 word) option \<Rightarrow> string option \<Rightarrow> bool option
       \<Rightarrow> tapp_config anyhow" where
  "de_tapp_config a ip port sock mock =
     rbind (ok_or ''missing field app_id'' a) (\<lambda>a'.
       Inr \<lparr> app_id = a', tapp_ip = or_default default_tapp_ip ip,
             tapp_port = or_default default_tapp_port port, tapp_socket = sock,
             mock_tee = or_default False mock \<rparr>)"

text \<open>\<open>seeds\<close> is also accepted under its old name \<open>peers\<close>; serde refuses the two together.\<close>

definition de_cluster_config ::
    "u32 option \<Rightarrow> u32 option \<Rightarrow> bool option \<Rightarrow> string option \<Rightarrow> string list option
       \<Rightarrow> string list option \<Rightarrow> string option \<Rightarrow> string option \<Rightarrow> cluster_config anyhow" where
  "de_cluster_config t n boot self sds peers share path =
     rbind (ok_or ''missing field threshold'' t) (\<lambda>t'.
     rbind (ok_or ''missing field total_nodes'' n) (\<lambda>n'.
     if sds \<noteq> None \<and> peers \<noteq> None then Inl ''duplicate field seeds''
     else Inr \<lparr> threshold = t', total_nodes = n', bootstrap = or_default False boot,
                self_url = or_default [] self,
                seeds = (case sds of Some s \<Rightarrow> s | None \<Rightarrow> or_default [] peers),
                cfg_sealed_share = share, cfg_sealed_share_path = path \<rparr>))"

definition tapp_url :: "tapp_config \<Rightarrow> string" where
  "tapp_url c = ''http://'' @ tapp_ip c @ '':'' @ show_nat (unat (tapp_port c))"

subsection \<open>The signing key\<close>

record node_key =
  private_key :: bytes
  eth_address :: address

datatype key_error =
    EnvNotSet string
  | BadHexLength string nat
  | BadHex string
  | KeyCallFailed string
  | BadKeyLength nat
  | BadAddressLength nat
  | CannotConnect string
  | RpcFailed string
  | UnwrapPanic

text \<open>\<open>hex::decode(..)?.try_into().unwrap()\<close>: a panic when the length is not the array's.\<close>

definition decode_array :: "'z crates_scheme \<Rightarrow> nat \<Rightarrow> string \<Rightarrow> key_error + bytes" where
  "decode_array L n s =
     rbind (map_err BadHex (hex_decode L s)) (\<lambda>b.
       if length b = n then Inr b else Inl UnwrapPanic)"

definition fetch_mock :: "'z crates_scheme \<Rightarrow> (string \<Rightarrow> string option) \<Rightarrow> key_error + node_key" where
  "fetch_mock L env =
     rbind (ok_or (EnvNotSet ''MOCK_APP_PRIVATE_KEY'') (env ''MOCK_APP_PRIVATE_KEY'')) (\<lambda>raw.
     let hex = trim_0x raw in
     if length hex \<noteq> 64 then Inl (BadHexLength ''MOCK_APP_PRIVATE_KEY'' (length hex)) else
     rbind (decode_array L 32 hex) (\<lambda>pk.
     rbind (ok_or (EnvNotSet ''MOCK_APP_ETH_ADDRESS'') (env ''MOCK_APP_ETH_ADDRESS'')) (\<lambda>addr_raw.
     let addr_hex = trim_0x addr_raw in
     if length addr_hex \<noteq> 40 then Inl (BadHexLength ''MOCK_APP_ETH_ADDRESS'' (length addr_hex)) else
     rbind (decode_array L 20 addr_hex) (\<lambda>a.
     Inr \<lparr> private_key = pk, eth_address = a \<rparr>))))"

record secret_key_reply =
  success :: bool
  reply_message :: string
  reply_private_key :: bytes
  reply_eth_address :: bytes

definition check_reply :: "secret_key_reply \<Rightarrow> key_error + node_key" where
  "check_reply r =
     (if \<not> success r then Inl (KeyCallFailed (reply_message r))
      else if length (reply_private_key r) \<noteq> 32 then Inl (BadKeyLength (length (reply_private_key r)))
      else if length (reply_eth_address r) \<noteq> 20 then Inl (BadAddressLength (length (reply_eth_address r)))
      else Inr \<lparr> private_key = reply_private_key r, eth_address = reply_eth_address r \<rparr>)"

text \<open>
  The retry loop. \<open>rpc attempt\<close> is what the call of that attempt returns. The result carries the
  number of calls made and the seconds slept.
\<close>

function fetch_attempts ::
    "(nat \<Rightarrow> string + secret_key_reply) \<Rightarrow> nat \<Rightarrow> key_error \<Rightarrow> nat \<Rightarrow> nat
       \<Rightarrow> (key_error + node_key) \<times> nat \<times> nat" where
  "fetch_attempts rpc attempt last_err calls slept =
     (if attempt \<le> 10 then
        (case rpc attempt of
           Inr r \<Rightarrow> (check_reply r, calls + 1, slept)
         | Inl e \<Rightarrow> fetch_attempts rpc (attempt + 1) (RpcFailed e) (calls + 1) (slept + attempt))
      else (Inl last_err, calls, slept))"
  by pat_completeness auto
termination
  by (relation "measure (\<lambda>(rpc, a, e, c, s). 11 - a)") auto

declare fetch_attempts.simps [simp del]

text \<open>\<open>fetch_grpc\<close>: over the Unix socket when one is configured, else over TCP; a refused
  connection is an error and is not retried.\<close>

definition fetch_grpc ::
    "(string + unit) \<Rightarrow> (string + unit) \<Rightarrow> (nat \<Rightarrow> string + secret_key_reply) \<Rightarrow> tapp_config
       \<Rightarrow> (key_error + node_key) \<times> nat \<times> nat" where
  "fetch_grpc unix_connect tcp_connect rpc cfg =
     (case (case tapp_socket cfg of Some sock \<Rightarrow> unix_connect | None \<Rightarrow> tcp_connect) of
        Inl e \<Rightarrow> (Inl (CannotConnect e), 0, 0)
      | Inr _ \<Rightarrow> fetch_attempts rpc 1 (RpcFailed ''GetAppSecretKey never attempted'') 0 0)"

definition fetch_signing_key ::
    "'z crates_scheme \<Rightarrow> (string \<Rightarrow> string option) \<Rightarrow> (string + unit) \<Rightarrow> (string + unit)
       \<Rightarrow> (nat \<Rightarrow> string + secret_key_reply) \<Rightarrow> tapp_config \<Rightarrow> (key_error + node_key) \<times> nat \<times> nat" where
  "fetch_signing_key L env unix_connect tcp_connect rpc cfg =
     (if mock_tee cfg then (fetch_mock L env, 0, 0)
      else fetch_grpc unix_connect tcp_connect rpc cfg)"

definition node_key_wf :: "node_key \<Rightarrow> bool" where
  "node_key_wf k \<longleftrightarrow> length (private_key k) = 32 \<and> length (eth_address k) = 20"

section \<open>Lemmas\<close>

lemma decode_array_length: "decode_array L n s = Inr b \<Longrightarrow> length b = n"
  by (auto simp: decode_array_def result_iffs split: if_splits)

lemma decode_array_no_panic:
  "hex_ok L \<Longrightarrow> length s = 2 * n \<Longrightarrow> decode_array L n s \<noteq> Inl UnwrapPanic"
  by (auto simp: decode_array_def result_iffs dest!: hex_ok_length split: if_splits)

lemma check_reply_wf: "check_reply r = Inr k \<Longrightarrow> node_key_wf k"
  by (auto simp: check_reply_def node_key_wf_def split: if_splits)

lemma fetch_mock_wf: "fetch_mock L env = Inr k \<Longrightarrow> node_key_wf k"
  by (auto simp: fetch_mock_def Let_def result_iffs node_key_wf_def dest!: decode_array_length
      split: if_splits)

lemma fetch_mock_no_panic: "hex_ok L \<Longrightarrow> fetch_mock L env \<noteq> Inl UnwrapPanic"
  using decode_array_no_panic [of L _ 32] decode_array_no_panic [of L _ 20]
  by (auto simp: fetch_mock_def Let_def result_iffs split: if_splits)

lemma check_reply_no_panic: "check_reply r \<noteq> Inl UnwrapPanic"
  by (simp add: check_reply_def)

lemma fetch_attempts_no_panic:
  "fetch_attempts rpc a (RpcFailed e) c w = (r, calls, slept) \<Longrightarrow> r \<noteq> Inl UnwrapPanic"
proof (induction "11 - a" arbitrary: a e c w)
  case 0
  then show ?case by (auto simp: fetch_attempts.simps [of rpc a])
next
  case (Suc d)
  have d: "d = 11 - (a + 1)" and a: "a \<le> 10" using Suc.hyps(2) by simp_all
  show ?case
  proof (cases "rpc a")
    case (Inl x)
    with Suc.prems a have "fetch_attempts rpc (a + 1) (RpcFailed x) (c + 1) (w + a) = (r, calls, slept)"
      by (simp add: fetch_attempts.simps [of rpc a])
    with d show ?thesis by (rule Suc.hyps(1))
  next
    case (Inr reply)
    with Suc.prems a check_reply_no_panic show ?thesis by (auto simp: fetch_attempts.simps [of rpc a])
  qed
qed

text \<open>At most one call per attempt that is left, at most its number of seconds of sleep after it.\<close>

lemma fetch_attempts_bound:
  "fetch_attempts rpc a e calls slept = (r, calls', slept') \<Longrightarrow>
     calls' \<le> calls + (11 - a) \<and> slept' \<le> slept + sum id {a..10}"
proof (induction rpc a e calls slept rule: fetch_attempts.induct)
  case (1 rpc a e calls slept)
  consider "\<not> a \<le> 10" | x where "a \<le> 10" "rpc a = Inr x" | x where "a \<le> 10" "rpc a = Inl x" by (cases "rpc a") auto
  then show ?case
  proof cases
    case (3 x)
    have "sum id {a..10} = a + sum id {a + 1..10}" using 3(1) by (simp add: sum.atLeast_Suc_atMost)
    moreover have "fetch_attempts rpc (a + 1) (RpcFailed x) (calls + 1) (slept + a) = (r, calls', slept')"
      using 1(2) 3 by (simp add: fetch_attempts.simps [of rpc a])
    ultimately show ?thesis using 1(1) [OF 3] 3(1) by fastforce
  qed (use 1(2) in \<open>auto simp: fetch_attempts.simps [of rpc a]\<close>)
qed

lemma fetch_attempts_wf: "fetch_attempts rpc a e calls slept = (Inr k, calls', slept') \<Longrightarrow> node_key_wf k"
proof (induction rpc a e calls slept rule: fetch_attempts.induct)
  case (1 rpc a e calls slept)
  show ?case
    using "1.prems" "1.IH" unfolding fetch_attempts.simps [of rpc a e]
    by (auto dest: check_reply_wf split: if_splits sum.splits)
qed

lemma fetch_signing_key_wf: "fetch_signing_key L vars unix_connect tcp_connect rpc cfg = (Inr k, calls, slept) \<Longrightarrow> node_key_wf k"
  by (auto simp: fetch_signing_key_def fetch_grpc_def dest: fetch_mock_wf fetch_attempts_wf split: if_splits option.splits sum.splits)

section \<open>Properties\<close>

text \<open>C36. A node starts with a complete key or not at all: the key it gets has 32 bytes and its address 20,
  the \<open>unwrap\<close>s of mock mode never panic, and the server is called at most ten times, with at most 55
  seconds of waiting in between, until the first reply.\<close>

theorem signing_key_complete:
  assumes "hex_ok L" "fetch_signing_key L env unix tcp rpc cfg = (r, calls, slept)"
  shows "(\<forall>k. r = Inr k \<longrightarrow> node_key_wf k) \<and> r \<noteq> Inl UnwrapPanic \<and> calls \<le> 10 \<and> slept \<le> 55"
proof -
  have wf: "\<forall>k. r = Inr k \<longrightarrow> node_key_wf k" using assms(2) fetch_signing_key_wf by blast
  consider "mock_tee cfg" | e where "\<not> mock_tee cfg" "fetch_signing_key L env unix tcp rpc cfg = (Inl (CannotConnect e), 0, 0)"
    | "\<not> mock_tee cfg" "fetch_attempts rpc 1 (RpcFailed ''GetAppSecretKey never attempted'') 0 0 = (r, calls, slept)"
    using assms(2) by (auto simp: fetch_signing_key_def fetch_grpc_def split: if_splits option.splits sum.splits)
  then show ?thesis
  proof cases
    case 1
    with assms fetch_mock_no_panic [OF assms(1)] wf show ?thesis by (auto simp: fetch_signing_key_def)
  next
    case 2
    with assms(2) wf show ?thesis by auto
  next
    case 3
    have "sum id {1..10} = (55 :: nat)" by code_simp
    with fetch_attempts_bound [OF 3(2)] fetch_attempts_no_panic [OF 3(2)] wf show ?thesis by simp
  qed
qed

theorem signing_key_complete_witness:
  "\<exists>r calls slept. fetch_signing_key demo_crates (\<lambda>_. None) (Inr ()) (Inr ())
     (\<lambda>a. if a < 3 then Inl ''down'' else Inr \<lparr> success = True, reply_message = [],
        reply_private_key = replicate 32 1, reply_eth_address = replicate 20 2 \<rparr>)
     \<lparr> app_id = ''kms'', tapp_ip = ''127.0.0.1'', tapp_port = 50051, tapp_socket = None, mock_tee = False \<rparr>
     = (r, calls, slept) \<and> calls \<le> 10 \<and> slept \<le> 55"
proof -
  obtain r calls slept where c: "fetch_signing_key demo_crates (\<lambda>_. None) (Inr ()) (Inr ())
     (\<lambda>a. if a < 3 then Inl ''down'' else Inr \<lparr> success = True, reply_message = [],
        reply_private_key = replicate 32 1, reply_eth_address = replicate 20 2 \<rparr>)
     \<lparr> app_id = ''kms'', tapp_ip = ''127.0.0.1'', tapp_port = 50051, tapp_socket = None, mock_tee = False \<rparr>
     = (r, calls, slept)" by (metis prod_cases3)
  from signing_key_complete [OF demo_crates_hex c] c show ?thesis by blast
qed

end
