(* ===== verification/Crypto.thy ===== *)
theory Crypto
  imports Crates KmsError
begin

text \<open>
  \<open>src/crypto.rs\<close>: the derivation message, the threshold-BLS calls, the share and partial wire
  formats, ECIES and ECDSA, and the messages responders sign. The BLS operations are \<open>blsful\<close>'s:
  the fields of the record \<open>bls\<close>. A secret-key share is the pair of its identifier and its value,
  as the bridge from gennaro builds it. Shown: the derivation message determines \<open>app_id\<close> and
  \<open>material\<close>; a signed response determines caller, index, epoch and ciphertext, and neither a
  response of another method nor a request can be taken for it; signing and recovering agree.
\<close>

record ('sc, 'pa, 'sg, 'pk) bls =
  scalar_from :: "nat \<Rightarrow> 'sc"
  sks_split_new :: "nat \<Rightarrow> nat \<Rightarrow> ('sc \<times> 'sc) list anyhow"
  sks_sign :: "'sc \<times> 'sc \<Rightarrow> bytes \<Rightarrow> 'pa anyhow"
  sks_to_vec :: "'sc \<times> 'sc \<Rightarrow> bytes"
  sks_try_from :: "bytes \<Rightarrow> ('sc \<times> 'sc) anyhow"
  part_to_vec :: "'pa \<Rightarrow> bytes"
  part_try_from :: "bytes \<Rightarrow> 'pa anyhow"
  sig_from_shares :: "'pa list \<Rightarrow> 'sg anyhow"
  pk_try_from :: "bytes \<Rightarrow> 'pk anyhow"
  sig_verify :: "'sg \<Rightarrow> 'pk \<Rightarrow> bytes \<Rightarrow> unit anyhow"
  sig_to_vec :: "'sg \<Rightarrow> bytes"
  hkdf_sha256 :: "bytes \<Rightarrow> bytes \<Rightarrow> nat \<Rightarrow> bytes"

section \<open>Definitions\<close>

subsection \<open>The DPRF\<close>

definition DPRF_DST :: bytes where
  "DPRF_DST = as_bytes ''0g-kms:dprf:v1''"

definition KDF_DST :: bytes where
  "KDF_DST = as_bytes ''0g-kms:dprf-kdf:v2''"

text \<open>\<open>len() as u64\<close> keeps the low 64 bits.\<close>

definition len_u64 :: "'a list \<Rightarrow> u64" where
  "len_u64 xs = word_of_nat (length xs)"

definition dprf_message :: "string \<Rightarrow> bytes \<Rightarrow> bytes" where
  "dprf_message app_id material =
     (let app = as_bytes app_id
      in DPRF_DST @ u64_be (len_u64 app) @ app @ u64_be (len_u64 material) @ material)"

definition split_master :: "('sc, 'pa, 'sg, 'pk) bls \<Rightarrow> nat \<Rightarrow> nat \<Rightarrow> ('sc \<times> 'sc) list anyhow" where
  "split_master B t n =
     map_err (\<lambda>e. ''master split failed: '' @ e) (sks_split_new B t n)"

definition dprf_partial :: "('sc, 'pa, 'sg, 'pk) bls \<Rightarrow> 'sc \<times> 'sc \<Rightarrow> bytes \<Rightarrow> 'pa anyhow" where
  "dprf_partial B share msg = map_err (\<lambda>e. ''partial sign failed: '' @ e) (sks_sign B share msg)"

definition dprf_sigma :: "('sc, 'pa, 'sg, 'pk) bls \<Rightarrow> 'pa list \<Rightarrow> 'sg anyhow" where
  "dprf_sigma B partials = map_err (\<lambda>e. ''partial combine failed: '' @ e) (sig_from_shares B partials)"

definition dprf_verify :: "('sc, 'pa, 'sg, 'pk) bls \<Rightarrow> 'sg \<Rightarrow> bytes \<Rightarrow> bytes \<Rightarrow> unit anyhow" where
  "dprf_verify B sigma group_pubkey msg =
     rbind (map_err (\<lambda>e. ''invalid group public key: '' @ e) (pk_try_from B group_pubkey)) (\<lambda>pk.
       map_err (\<lambda>e. ''combined signature failed verification: '' @ e) (sig_verify B sigma pk msg))"

definition sigma_to_app_key :: "('sc, 'pa, 'sg, 'pk) bls \<Rightarrow> 'sg \<Rightarrow> bytes" where
  "sigma_to_app_key B sigma = hkdf_sha256 B (sig_to_vec B sigma) KDF_DST 32"

definition dprf_combine :: "('sc, 'pa, 'sg, 'pk) bls \<Rightarrow> 'pa list \<Rightarrow> bytes anyhow" where
  "dprf_combine B partials = rbind (dprf_sigma B partials) (\<lambda>s. Inr (sigma_to_app_key B s))"

subsection \<open>Wire formats and the gennaro bridge\<close>

definition share_to_bytes :: "('sc, 'pa, 'sg, 'pk) bls \<Rightarrow> 'sc \<times> 'sc \<Rightarrow> bytes" where
  "share_to_bytes B share = sks_to_vec B share"

definition share_from_bytes :: "('sc, 'pa, 'sg, 'pk) bls \<Rightarrow> bytes \<Rightarrow> ('sc \<times> 'sc) anyhow" where
  "share_from_bytes B b = map_err (\<lambda>e. ''invalid secret-key share bytes: '' @ e) (sks_try_from B b)"

definition gennaro_share_to_blsful :: "('sc, 'pa, 'sg, 'pk) bls \<Rightarrow> nat \<Rightarrow> 'sc \<Rightarrow> 'sc \<times> 'sc" where
  "gennaro_share_to_blsful B pid scalar = (scalar_from B (pid mod 2 ^ 64), scalar)"

definition blsful_share_scalar :: "'sc \<times> 'sc \<Rightarrow> 'sc" where
  "blsful_share_scalar share = snd share"

definition partial_to_bytes :: "('sc, 'pa, 'sg, 'pk) bls \<Rightarrow> 'pa \<Rightarrow> bytes" where
  "partial_to_bytes B p = part_to_vec B p"

definition partial_from_bytes :: "('sc, 'pa, 'sg, 'pk) bls \<Rightarrow> bytes \<Rightarrow> 'pa anyhow" where
  "partial_from_bytes B b = map_err (\<lambda>e. ''invalid partial signature bytes: '' @ e) (part_try_from B b)"

subsection \<open>ECIES and ECDSA\<close>

definition pubkey_from_private :: "'z crates_scheme \<Rightarrow> bytes \<Rightarrow> bytes anyhow" where
  "pubkey_from_private L sk = map_err (\<lambda>e. ''invalid private key: '' @ e) (k256_verifying_key L sk)"

definition ecies_encrypt :: "'z crates_scheme \<Rightarrow> bytes \<Rightarrow> bytes \<Rightarrow> kms_error + bytes" where
  "ecies_encrypt L pubkey plaintext =
     map_err (\<lambda>e. CryptoError (''ECIES encrypt failed: '' @ e)) (ecies_enc L pubkey plaintext)"

definition ecies_decrypt :: "'z crates_scheme \<Rightarrow> bytes \<Rightarrow> bytes \<Rightarrow> kms_error + bytes" where
  "ecies_decrypt L sk ciphertext =
     map_err (\<lambda>e. CryptoError (''ECIES decrypt failed: '' @ e)) (ecies_dec L sk ciphertext)"

definition sign_bytes :: "'z crates_scheme \<Rightarrow> bytes \<Rightarrow> bytes \<Rightarrow> bytes anyhow" where
  "sign_bytes L sk message =
     (let hash = keccak256 L message in
      rbind (map_err (\<lambda>e. ''invalid signing key: '' @ e) (k256_verifying_key L sk)) (\<lambda>_.
      rbind (map_err (\<lambda>e. ''signing failed: '' @ e) (k256_sign_prehash L sk hash)) (\<lambda>(rs, v).
      Inr (rs @ [v]))))"

text \<open>The text \<open>kms:{method}:{timestamp}\<close> every request between nodes signs.\<close>

definition request_text :: "string \<Rightarrow> i64 \<Rightarrow> string" where
  "request_text rpc timestamp = ''kms:'' @ rpc @ '':'' @ show_int (sint timestamp)"

definition sign_request :: "'z crates_scheme \<Rightarrow> bytes \<Rightarrow> string \<Rightarrow> i64 \<Rightarrow> bytes anyhow" where
  "sign_request L sk rpc timestamp = sign_bytes L sk (as_bytes (request_text rpc timestamp))"

subsection \<open>Signed responses\<close>

definition ecies_response_msg :: "string \<Rightarrow> address \<Rightarrow> bytes \<Rightarrow> bytes \<Rightarrow> bytes" where
  "ecies_response_msg rpc caller_addr meta ciphertext =
     as_bytes ''kms-resp:'' @ as_bytes rpc @ [byte_of_char (CHR '':'')] @ caller_addr @ meta @ ciphertext"

definition dprf_partial_signing_msg :: "address \<Rightarrow> u32 \<Rightarrow> u64 \<Rightarrow> bytes \<Rightarrow> bytes" where
  "dprf_partial_signing_msg caller_addr shard_index epoch ciphertext =
     ecies_response_msg ''GetDprfPartial'' caller_addr (u32_be shard_index @ u64_be epoch) ciphertext"

definition shard_signing_msg :: "string \<Rightarrow> address \<Rightarrow> u32 \<Rightarrow> bytes \<Rightarrow> bytes" where
  "shard_signing_msg rpc caller_addr shard_index ciphertext =
     ecies_response_msg rpc caller_addr (u32_be shard_index) ciphertext"

section \<open>Lemmas\<close>

text \<open>
  Concatenated encodings are read back unambiguously when each field is self-delimiting: the
  interface shared by the length-prefixed fields of the derivation message and the fixed-width
  and delimited fields of the signed responses.
\<close>

locale self_delimiting =
  fixes enc :: "'a \<Rightarrow> 'b list" and ok :: "'a \<Rightarrow> bool"
  assumes delimits: "ok x \<Longrightarrow> ok y \<Longrightarrow> enc x @ r = enc y @ s \<Longrightarrow> x = y"
begin

lemma rest_eq:
  assumes "ok x" "ok y" "enc x @ r = enc y @ s"
  shows "r = s"
proof -
  from assms have "x = y" by (rule delimits)
  with assms(3) show ?thesis by simp
qed

lemma enc_inject: "ok x \<Longrightarrow> ok y \<Longrightarrow> enc x = enc y \<Longrightarrow> x = y"
  using delimits [of x y "[]" "[]"] by simp

lemma field_then_rest:
  assumes "ok x" "ok y" "pre @ enc x @ r = pre @ enc y @ s"
  shows "x = y \<and> r = s"
proof -
  from assms(3) have eq: "enc x @ r = enc y @ s" by simp
  show ?thesis using delimits [OF assms(1,2) eq] rest_eq [OF assms(1,2) eq] ..
qed

end

text \<open>A field of fixed width is self-delimiting as soon as its encoding is injective.\<close>

locale fixed_width =
  fixes enc :: "'a \<Rightarrow> 'b list" and width :: nat and ok :: "'a \<Rightarrow> bool"
  assumes width: "ok x \<Longrightarrow> length (enc x) = width"
    and inject: "ok x \<Longrightarrow> ok y \<Longrightarrow> enc x = enc y \<Longrightarrow> x = y"
begin

sublocale self_delimiting enc ok
proof unfold_locales
  fix x y :: 'a and r s :: "'b list"
  assume ok: "ok x" "ok y" and eq: "enc x @ r = enc y @ s"
  from ok have "length (enc x) = length (enc y)" by (simp add: width)
  with eq have "enc x = enc y" by simp
  with ok show "x = y" by (rule inject)
qed

end

interpretation u32_field: fixed_width u32_be 4 "\<lambda>_. True"
  by unfold_locales simp_all

interpretation u64_field: fixed_width u64_be 8 "\<lambda>_. True"
  by unfold_locales simp_all

interpretation address_field: fixed_width "\<lambda>a. a" 20 "\<lambda>a :: address. length a = 20"
  by unfold_locales simp_all

text \<open>A length-prefixed byte string (the length in 64 bits).\<close>

definition prefixed :: "bytes \<Rightarrow> bytes" where
  "prefixed b = u64_be (len_u64 b) @ b"

lemma len_u64_inject:
  assumes "length a < 2 ^ 64" "length b < 2 ^ 64" "len_u64 a = len_u64 b"
  shows "length a = length b"
proof -
  from assms(3) have "unat (len_u64 a) = unat (len_u64 b)" by simp
  with assms(1,2) show ?thesis by (simp add: len_u64_def unat_of_nat)
qed

interpretation prefixed_field: self_delimiting prefixed "\<lambda>b. length b < 2 ^ 64"
proof unfold_locales
  fix x y r s :: bytes
  assume len: "length x < 2 ^ 64" "length y < 2 ^ 64" and eq: "prefixed x @ r = prefixed y @ s"
  from eq have split: "u64_be (len_u64 x) @ x @ r = u64_be (len_u64 y) @ y @ s"
    by (simp add: prefixed_def)
  then have "len_u64 x = len_u64 y" by (rule u64_field.delimits [OF TrueI TrueI])
  with len have "length x = length y" by (rule len_u64_inject)
  moreover from split have "x @ r = y @ s" by (rule u64_field.rest_eq [OF TrueI TrueI])
  ultimately show "x = y" by simp
qed

lemma dprf_message_prefixed:
  "dprf_message app_id material = DPRF_DST @ prefixed (as_bytes app_id) @ prefixed material"
  by (simp add: dprf_message_def prefixed_def Let_def)

lemma dprf_message_inject:
  assumes "length a < 2 ^ 64" "length a' < 2 ^ 64" "length m < 2 ^ 64" "length m' < 2 ^ 64"
    and "dprf_message a m = dprf_message a' m'"
  shows "a = a' \<and> m = m'"
proof -
  have "as_bytes a = as_bytes a' \<and> prefixed m = prefixed m'"
    using assms(1,2,5) unfolding dprf_message_prefixed
    by (intro prefixed_field.field_then_rest [of _ _ DPRF_DST]) simp_all
  then show ?thesis
    using prefixed_field.enc_inject [OF assms(3,4)] by simp
qed

text \<open>The name of a method, ended by the colon it does not contain.\<close>

definition rpc_field :: "string \<Rightarrow> bytes" where
  "rpc_field rpc = as_bytes rpc @ [byte_of_char (CHR '':'')]"

interpretation rpc_name: self_delimiting rpc_field "\<lambda>s. CHR '':'' \<notin> set s"
proof unfold_locales
  fix x y :: string and r s :: bytes
  assume "CHR '':'' \<notin> set x" "CHR '':'' \<notin> set y" "rpc_field x @ r = rpc_field y @ s"
  then show "x = y"
  proof (induction x arbitrary: y)
    case Nil
    then show ?case by (cases y) (auto simp: rpc_field_def as_bytes_def)
  next
    case (Cons c x)
    then show ?case by (cases y) (auto simp: rpc_field_def as_bytes_def)
  qed
qed

lemma ecies_response_msg_fields:
  "ecies_response_msg rpc addr meta ct = as_bytes ''kms-resp:'' @ rpc_field rpc @ addr @ meta @ ct"
  by (simp add: ecies_response_msg_def rpc_field_def)

lemma ecies_response_msg_inject:
  assumes "CHR '':'' \<notin> set rpc" "CHR '':'' \<notin> set rpc'" "length a = 20" "length a' = 20"
    and "ecies_response_msg rpc a meta ct = ecies_response_msg rpc' a' meta' ct'"
  shows "rpc = rpc' \<and> a = a' \<and> meta @ ct = meta' @ ct'"
proof -
  have "rpc = rpc' \<and> a @ meta @ ct = a' @ meta' @ ct'"
    using assms(1,2,5) unfolding ecies_response_msg_fields
    by (intro rpc_name.field_then_rest [of _ _ "as_bytes ''kms-resp:''"]) simp_all
  then have "rpc = rpc'" and rest: "a @ meta @ ct = a' @ meta' @ ct'" by simp_all
  with address_field.delimits [OF assms(3,4) rest] address_field.rest_eq [OF assms(3,4) rest]
  show ?thesis by simp
qed

lemma dprf_partial_signing_msg_inject:
  assumes "length a = 20" "length a' = 20"
    and "dprf_partial_signing_msg a i e ct = dprf_partial_signing_msg a' i' e' ct'"
  shows "a = a' \<and> i = i' \<and> e = e' \<and> ct = ct'"
proof -
  have "a = a'" and m: "u32_be i @ u64_be e @ ct = u32_be i' @ u64_be e' @ ct'"
    using ecies_response_msg_inject [OF _ _ assms(1,2) assms(3) [unfolded dprf_partial_signing_msg_def]]
    by simp_all
  from m have "i = i'" and m2: "u64_be e @ ct = u64_be e' @ ct'"
    using u32_field.delimits [OF TrueI TrueI m] u32_field.rest_eq [OF TrueI TrueI m] by auto
  from m2 have "e = e'" "ct = ct'"
    using u64_field.delimits [OF TrueI TrueI m2] u64_field.rest_eq [OF TrueI TrueI m2] by auto
  with \<open>a = a'\<close> \<open>i = i'\<close> show ?thesis by simp
qed

lemma shard_signing_msg_inject:
  assumes "CHR '':'' \<notin> set rpc" "CHR '':'' \<notin> set rpc'" "length a = 20" "length a' = 20"
    and "shard_signing_msg rpc a i ct = shard_signing_msg rpc' a' i' ct'"
  shows "rpc = rpc' \<and> a = a' \<and> i = i' \<and> ct = ct'"
proof -
  have "rpc = rpc' \<and> a = a'" and m: "u32_be i @ ct = u32_be i' @ ct'"
    using ecies_response_msg_inject [OF assms(1-4) assms(5) [unfolded shard_signing_msg_def]]
    by simp_all
  with u32_field.delimits [OF TrueI TrueI m] u32_field.rest_eq [OF TrueI TrueI m]
  show ?thesis by simp
qed

lemma request_text_inject:
  assumes "CHR '':'' \<notin> set rpc" "CHR '':'' \<notin> set rpc'"
    and "request_text rpc t = request_text rpc' t'"
  shows "rpc = rpc' \<and> t = t'"
proof -
  have "rpc = rpc' \<and> as_bytes (show_int (sint t)) = as_bytes (show_int (sint t'))"
  proof (rule rpc_name.field_then_rest [OF assms(1,2), of "[]"])
    from assms(3) have "rpc @ '':'' @ show_int (sint t) = rpc' @ '':'' @ show_int (sint t')"
      by (simp add: request_text_def)
    from arg_cong [OF this, of as_bytes]
    show "[] @ rpc_field rpc @ as_bytes (show_int (sint t))
        = [] @ rpc_field rpc' @ as_bytes (show_int (sint t'))"
      by (simp add: rpc_field_def)
  qed
  then show ?thesis by (simp add: show_sint_inject)
qed

text \<open>A request and a response are never the same message: they differ at the fourth byte.\<close>

lemma request_not_response: "as_bytes (request_text rpc t) \<noteq> ecies_response_msg rpc' a meta ct"
proof
  assume eq: "as_bytes (request_text rpc t) = ecies_response_msg rpc' a meta ct"
  from arg_cong [OF this, of "\<lambda>l. l ! 3"] show False
    by (simp add: request_text_def ecies_response_msg_def)
qed

subsection \<open>Signing\<close>

lemma sign_bytes_shape:
  assumes "k256_ok L" "sign_bytes L sk m = Inr sig"
  obtains rs v pk parsed where "sig = rs @ [v]" "length rs = 64" "v \<in> {0, 1}"
    "k256_verifying_key L sk = Inr pk" "k256_parse_sig L rs = Inr parsed"
    "k256_recover L (keccak256 L m) parsed v = Inr pk"
proof -
  from assms(2) obtain rs v where sig: "sig = rs @ [v]"
    and sgn: "k256_sign_prehash L sk (keccak256 L m) = Inr (rs, v)"
    by (auto simp: sign_bytes_def Let_def result_iffs)
  from sgn assms(1) obtain parsed pk where "length rs = 64" "v \<in> {0, 1}"
    "k256_parse_sig L rs = Inr parsed" "k256_verifying_key L sk = Inr pk"
    "k256_recover L (keccak256 L m) parsed v = Inr pk"
    unfolding k256_ok_def by blast
  with sig that show thesis by blast
qed

section \<open>Properties\<close>

text \<open>C27. The derivation message is unambiguous: two requests have the same message, and so the same key,
  only if they have the same app and the same material (lengths below \<open>2^64\<close>).\<close>

theorem derivation_message_unique:
  assumes "length a < 2 ^ 64" "length a' < 2 ^ 64" "length m < 2 ^ 64" "length m' < 2 ^ 64"
  shows "dprf_message a m = dprf_message a' m' \<longleftrightarrow> a = a' \<and> m = m'"
  using dprf_message_inject [OF assms] by auto

theorem derivation_message_unique_witness:
  "dprf_message ''ab'' [99] \<noteq> dprf_message ''a'' [98, 99]"
  using derivation_message_unique [of "''ab''" "''a''" "[99]" "[98, 99]"] by simp

text \<open>C28. A signature on a response cannot be moved: the signed message determines the method, the caller, the
  shard index, the epoch and the ciphertext. So a response of \<open>RequestShard\<close> is not one of
  \<open>GetShardContribution\<close>, the messages of shard responses, partial signatures and requests never
  coincide, and no signature on one is a signature on another. Methods are RPC names, which contain
  no colon.\<close>

theorem signed_messages_bind:
  assumes "length a = 20" "length a' = 20" "CHR '':'' \<notin> set rpc" "CHR '':'' \<notin> set rpc'" "rpc \<noteq> ''GetDprfPartial''"
  shows "(dprf_partial_signing_msg a i e ct = dprf_partial_signing_msg a' i' e' ct' \<longleftrightarrow>
      a = a' \<and> i = i' \<and> e = e' \<and> ct = ct') \<and>
    (shard_signing_msg rpc a i ct = shard_signing_msg rpc' a' i' ct' \<longleftrightarrow> rpc = rpc' \<and> a = a' \<and> i = i' \<and> ct = ct') \<and>
    shard_signing_msg ''RequestShard'' a i ct \<noteq> shard_signing_msg ''GetShardContribution'' a' i' ct' \<and>
    shard_signing_msg rpc a i ct \<noteq> dprf_partial_signing_msg a' i' e' ct' \<and>
    as_bytes (request_text rpc'' ts) \<noteq> shard_signing_msg rpc a i ct \<and>
    as_bytes (request_text rpc'' ts) \<noteq> dprf_partial_signing_msg a i e ct"
proof (intro conjI)
  show "dprf_partial_signing_msg a i e ct = dprf_partial_signing_msg a' i' e' ct' \<longleftrightarrow>
      a = a' \<and> i = i' \<and> e = e' \<and> ct = ct'"
    using dprf_partial_signing_msg_inject [OF assms(1,2)] by blast
  show "shard_signing_msg rpc a i ct = shard_signing_msg rpc' a' i' ct' \<longleftrightarrow> rpc = rpc' \<and> a = a' \<and> i = i' \<and> ct = ct'"
    using shard_signing_msg_inject [OF assms(3,4,1,2)] by blast
  show "shard_signing_msg ''RequestShard'' a i ct \<noteq> shard_signing_msg ''GetShardContribution'' a' i' ct'"
    using shard_signing_msg_inject(1) [OF _ _ assms(1,2), of "''RequestShard''" "''GetShardContribution''" i ct i' ct'] by auto
  show "shard_signing_msg rpc a i ct \<noteq> dprf_partial_signing_msg a' i' e' ct'"
  proof
    assume "shard_signing_msg rpc a i ct = dprf_partial_signing_msg a' i' e' ct'"
    then have "rpc = ''GetDprfPartial''"
      unfolding shard_signing_msg_def dprf_partial_signing_msg_def
      using ecies_response_msg_inject [OF assms(3) _ assms(1,2)] by simp
    with assms(5) show False ..
  qed
qed (simp_all only: shard_signing_msg_def dprf_partial_signing_msg_def request_not_response not_False_eq_True)

theorem signed_messages_bind_witness:
  "shard_signing_msg ''RequestShard'' (replicate 20 1) 1 [2] \<noteq> shard_signing_msg ''GetShardContribution'' (replicate 20 1) 1 [2] \<and>
   shard_signing_msg ''RequestShard'' (replicate 20 1) 1 [2] \<noteq> dprf_partial_signing_msg (replicate 20 1) 1 0 [2]"
  using signed_messages_bind [of "replicate 20 1" "replicate 20 1" "''RequestShard''" "''GetShardContribution''" 1 0 "[2]" 1 0 "[2]"]
  by simp

end
