(* ===== verification/Seal.thy ===== *)
theory Seal
  imports Crypto
begin

text \<open>
  \<open>src/seal.rs\<close>: the sealed-share blob and its file. The serde_bare codec of the record is a
  parameter (the record \<open>seal_crates\<close>). The file system is modelled by the contents of files and
  the outcome of each write, rename and read; a failed write may leave a truncated file behind.
  The operating system's text at the end of an error message is left off.
  Shown: only the identity that sealed a blob gets the record back, every other blob is reported
  as unusable and not as an error, and the file is replaced atomically.
\<close>

record sealed_share =
  record_version :: "16 word"
  sealed_shard_index :: u32
  sealed_epoch :: u64
  master_id :: bytes
  share_bytes :: bytes

record seal_crates = crates +
  bare_to_vec :: "sealed_share \<Rightarrow> bytes anyhow"
  bare_from_slice :: "bytes \<Rightarrow> sealed_share anyhow"

definition bare_ok :: "'z seal_crates_scheme \<Rightarrow> bool" where
  "bare_ok L \<longleftrightarrow> (\<forall>r b. bare_to_vec L r = Inr b \<longrightarrow> bare_from_slice L b = Inr r)"

section \<open>Definitions\<close>

definition MAGIC :: bytes where
  "MAGIC = as_bytes ''KMSS''"

definition ENVELOPE_VERSION :: u8 where
  "ENVELOPE_VERSION = 1"

definition RECORD_VERSION :: "16 word" where
  "RECORD_VERSION = 1"

definition sealed_share_new :: "u32 \<Rightarrow> u64 \<Rightarrow> bytes \<Rightarrow> bytes \<Rightarrow> sealed_share" where
  "sealed_share_new idx ep mid sh =
     \<lparr> record_version = RECORD_VERSION, sealed_shard_index = idx, sealed_epoch = ep,
       master_id = mid, share_bytes = sh \<rparr>"

definition seal_to_bytes :: "'z seal_crates_scheme \<Rightarrow> bytes \<Rightarrow> sealed_share \<Rightarrow> bytes anyhow" where
  "seal_to_bytes L own_pubkey rec =
     rbind (map_err (\<lambda>e. ''seal serialize: '' @ e) (bare_to_vec L rec)) (\<lambda>payload.
     rbind (map_err (\<lambda>e. ''seal encrypt: '' @ kms_error_to_string e)
              (ecies_encrypt L own_pubkey payload)) (\<lambda>ct.
     Inr (MAGIC @ [ENVELOPE_VERSION] @ ct)))"

definition unseal_from_bytes ::
    "'z seal_crates_scheme \<Rightarrow> bytes \<Rightarrow> bytes \<Rightarrow> sealed_share option anyhow" where
  "unseal_from_bytes L buf own_privkey =
     (if length buf < 5 \<or> take 4 buf \<noteq> MAGIC then Inr None
      else if buf ! 4 \<noteq> ENVELOPE_VERSION then Inr None
      else case ecies_decrypt L own_privkey (drop 5 buf) of
             Inl _ \<Rightarrow> Inr None
           | Inr payload \<Rightarrow>
               rbind (map_err (\<lambda>e. ''unseal deserialize: '' @ e) (bare_from_slice L payload)) (\<lambda>rec.
                 if record_version rec \<noteq> RECORD_VERSION then Inr None else Inr (Some rec)))"

definition seal_b64 :: "'z seal_crates_scheme \<Rightarrow> bytes \<Rightarrow> sealed_share \<Rightarrow> string anyhow" where
  "seal_b64 L own_pubkey rec =
     rbind (seal_to_bytes L own_pubkey rec) (\<lambda>b. Inr (b64url_encode L b))"

definition unseal_b64 ::
    "'z seal_crates_scheme \<Rightarrow> string \<Rightarrow> bytes \<Rightarrow> sealed_share option anyhow" where
  "unseal_b64 L s own_privkey =
     (let s = trim s in
      if s = [] then Inr None
      else case b64url_decode L s of
             Inr buf \<Rightarrow> unseal_from_bytes L buf own_privkey
           | Inl _ \<Rightarrow> Inr None)"

subsection \<open>Files\<close>

datatype write_outcome = Written | WriteFailed "string option"

text \<open>
  The contents of the files and the operating system's answers: whether a write succeeds (a failed
  one leaves the given text, or no change), whether a rename succeeds, whether an existing file
  can be read.
\<close>

record file_system =
  files :: "(string, string) hash_map"
  write_answer :: "string \<Rightarrow> string \<Rightarrow> write_outcome"
  rename_answer :: "string \<Rightarrow> string \<Rightarrow> bool"
  read_answer :: "string \<Rightarrow> bool"

datatype read_error = NotFound | ReadFailed

definition fs_write :: "string \<Rightarrow> string \<Rightarrow> file_system \<Rightarrow> file_system \<times> bool" where
  "fs_write path content fs =
     (case write_answer fs path content of
        Written \<Rightarrow> (fs\<lparr>files := hm_insert path content (files fs)\<rparr>, True)
      | WriteFailed None \<Rightarrow> (fs, False)
      | WriteFailed (Some part) \<Rightarrow> (fs\<lparr>files := hm_insert path part (files fs)\<rparr>, False))"

definition fs_rename :: "string \<Rightarrow> string \<Rightarrow> file_system \<Rightarrow> file_system \<times> bool" where
  "fs_rename a b fs =
     (case hm_get (files fs) a of
        None \<Rightarrow> (fs, False)
      | Some content \<Rightarrow>
          (if rename_answer fs a b
           then (fs\<lparr>files := hm_insert b content (hm_remove a (files fs))\<rparr>, True)
           else (fs, False)))"

definition fs_remove :: "string \<Rightarrow> file_system \<Rightarrow> file_system" where
  "fs_remove path fs = fs\<lparr>files := hm_remove path (files fs)\<rparr>"

definition fs_read_to_string :: "string \<Rightarrow> file_system \<Rightarrow> read_error + string" where
  "fs_read_to_string path fs =
     (case hm_get (files fs) path of
        None \<Rightarrow> Inl NotFound
      | Some content \<Rightarrow> if read_answer fs path then Inr content else Inl ReadFailed)"

definition write_blob_file :: "string \<Rightarrow> string \<Rightarrow> file_system \<Rightarrow> file_system \<times> unit anyhow" where
  "write_blob_file path b64 fs =
     (let tmp = path @ ''.tmp'';
          (fs1, ok1) = fs_write tmp b64 fs
      in if \<not> ok1 then (fs1, Inl (''seal write '' @ tmp))
         else let (fs2, ok2) = fs_rename tmp path fs1
              in if \<not> ok2 then (fs2, Inl (''seal rename -> '' @ path)) else (fs2, Inr ()))"

definition read_blob_file :: "string \<Rightarrow> file_system \<Rightarrow> string option anyhow" where
  "read_blob_file path fs =
     (case fs_read_to_string path fs of
        Inr s \<Rightarrow> if trim s \<noteq> [] then Inr (Some (trim s)) else Inr None
      | Inl NotFound \<Rightarrow> Inr None
      | Inl ReadFailed \<Rightarrow> Inl (''seal read '' @ path))"

section \<open>Lemmas\<close>

lemma seal_to_bytes_shape:
  assumes "seal_to_bytes L pk rec = Inr buf"
  obtains payload ct where "bare_to_vec L rec = Inr payload" "ecies_enc L pk payload = Inr ct"
    "buf = MAGIC @ ENVELOPE_VERSION # ct"
  using assms by (auto simp: seal_to_bytes_def ecies_encrypt_def rbind_Inr_iff)

lemma length_MAGIC [simp]: "length MAGIC = 4"
  by (simp add: MAGIC_def)

lemma unseal_envelope:
  "unseal_from_bytes L (MAGIC @ ENVELOPE_VERSION # ct) sk =
     (case ecies_dec L sk ct of
        Inl _ \<Rightarrow> Inr None
      | Inr payload \<Rightarrow>
          rbind (map_err (\<lambda>e. ''unseal deserialize: '' @ e) (bare_from_slice L payload)) (\<lambda>rec.
            if record_version rec \<noteq> RECORD_VERSION then Inr None else Inr (Some rec)))"
  by (simp add: unseal_from_bytes_def ecies_decrypt_def nth_append map_err_def split: sum.split)

lemma unseal_seal_bytes:
  assumes "ecies_ok L" "bare_ok L" "k256_verifying_key L sk = Inr pk"
    and "record_version rec = RECORD_VERSION" "seal_to_bytes L pk rec = Inr buf"
  shows "unseal_from_bytes L buf sk = Inr (Some rec)"
proof -
  from assms(5) obtain payload ct where p: "bare_to_vec L rec = Inr payload"
    and c: "ecies_enc L pk payload = Inr ct" and buf: "buf = MAGIC @ ENVELOPE_VERSION # ct"
    by (rule seal_to_bytes_shape)
  have "ecies_dec L sk ct = Inr payload" using assms(1,3) c by (rule ecies_okD)
  moreover have "bare_from_slice L payload = Inr rec" using assms(2) p by (simp add: bare_ok_def)
  ultimately show ?thesis by (simp add: buf unseal_envelope assms(4))
qed

lemma unseal_other_identity_bytes:
  assumes "ecies_binds_key L" "k256_verifying_key L sk = Inr pk" "sk' \<noteq> sk"
    and "seal_to_bytes L pk rec = Inr buf"
  shows "unseal_from_bytes L buf sk' = Inr None"
proof -
  from assms(4) obtain payload ct where c: "ecies_enc L pk payload = Inr ct"
    and buf: "buf = MAGIC @ ENVELOPE_VERSION # ct"
    by (rule seal_to_bytes_shape)
  from assms(1-3) c obtain e where "ecies_dec L sk' ct = Inl e"
    unfolding ecies_binds_key_def by blast
  then show ?thesis by (simp add: buf unseal_envelope)
qed

lemma unseal_b64_encode:
  "b64_ok L \<Longrightarrow> buf \<noteq> [] \<Longrightarrow> unseal_b64 L (b64url_encode L buf) sk = unseal_from_bytes L buf sk"
  by (simp add: unseal_b64_def Let_def b64_ok_trim b64_ok_nonempty b64_ok_roundtrip)

lemma seal_b64_bytes:
  assumes "seal_b64 L pk rec = Inr s"
  obtains buf where "seal_to_bytes L pk rec = Inr buf" "s = b64url_encode L buf" "buf \<noteq> []"
  using assms by (auto simp: seal_b64_def rbind_Inr_iff elim: seal_to_bytes_shape)

subsection \<open>Files\<close>

lemma tmp_path_other: "path @ ''.tmp'' \<noteq> path"
  by (metis append_self_conv list.distinct(1))

text \<open>The file at \<open>path\<close> is the new blob after a success and untouched after an error.\<close>

lemma write_blob_file_atomic:
  assumes "write_blob_file path b64 fs = (fs', r)"
  shows "hm_get (files fs') path = (if is_ok r then Some b64 else hm_get (files fs) path)"
  using assms tmp_path_other [of path]
  by (auto simp: write_blob_file_def fs_write_def fs_rename_def Let_def
      split: write_outcome.splits option.splits if_splits)

lemma write_blob_file_other:
  assumes "write_blob_file path b64 fs = (fs', r)" "p \<noteq> path" "p \<noteq> path @ ''.tmp''"
  shows "hm_get (files fs') p = hm_get (files fs) p"
  using assms
  by (auto simp: write_blob_file_def fs_write_def fs_rename_def Let_def
      split: write_outcome.splits option.splits if_splits)

lemma write_blob_file_answers:
  assumes "write_blob_file path b64 fs = (fs', r)"
  shows "read_answer fs' = read_answer fs \<and> write_answer fs' = write_answer fs"
  using assms
  by (auto simp: write_blob_file_def fs_write_def fs_rename_def Let_def
      split: write_outcome.splits option.splits if_splits)

lemma write_then_read:
  assumes "write_blob_file path b64 fs = (fs', Inr ())" "read_answer fs path"
  shows "read_blob_file path fs' = Inr (if trim b64 = [] then None else Some (trim b64))"
  using write_blob_file_atomic [OF assms(1)] write_blob_file_answers [OF assms(1)] assms(2)
  by (simp add: read_blob_file_def fs_read_to_string_def)

section \<open>A concrete codec\<close>

text \<open>An executable codec of the record that satisfies \<open>bare_ok\<close> (fixed-width fields, then the
  length of the master key in one byte).\<close>

definition demo_bare_to_vec :: "sealed_share \<Rightarrow> bytes anyhow" where
  "demo_bare_to_vec r =
     (if length (master_id r) < 256
      then Inr (be_bytes 2 (unat (record_version r)) @ be_bytes 4 (unat (sealed_shard_index r)) @
                be_bytes 8 (unat (sealed_epoch r)) @ [word_of_nat (length (master_id r))] @
                master_id r @ share_bytes r)
      else Inl ''too long'')"

definition demo_bare_from_slice :: "bytes \<Rightarrow> sealed_share anyhow" where
  "demo_bare_from_slice b =
     (if length b < 15 then Inl ''unexpected end''
      else Inr \<lparr> record_version = word_of_nat (be_val (take 2 b)),
                 sealed_shard_index = word_of_nat (be_val (take 4 (drop 2 b))),
                 sealed_epoch = word_of_nat (be_val (take 8 (drop 6 b))),
                 master_id = take (unat (b ! 14)) (drop 15 b),
                 share_bytes = drop (unat (b ! 14)) (drop 15 b) \<rparr>)"

definition demo_seal :: seal_crates where
  "demo_seal = crates.extend demo_crates (seal_crates.fields demo_bare_to_vec demo_bare_from_slice)"

lemma demo_bare_roundtrip:
  assumes "demo_bare_to_vec r = Inr b"
  shows "demo_bare_from_slice b = Inr r"
proof -
  have v: "unat (record_version r) < 256 ^ 2" "unat (sealed_shard_index r) < 256 ^ 4"
    "unat (sealed_epoch r) < 256 ^ 8"
    using unat_word_less [of "record_version r"] unat_word_less [of "sealed_shard_index r"]
      unat_word_less [of "sealed_epoch r"] by simp_all
  from assms have len: "length (master_id r) < 256"
    and b: "b = be_bytes 2 (unat (record_version r)) @ be_bytes 4 (unat (sealed_shard_index r)) @
      be_bytes 8 (unat (sealed_epoch r)) @ [word_of_nat (length (master_id r))] @
      master_id r @ share_bytes r"
    by (auto simp: demo_bare_to_vec_def split: if_splits)
  have parts: "take 2 b = be_bytes 2 (unat (record_version r))"
    "take 4 (drop 2 b) = be_bytes 4 (unat (sealed_shard_index r))"
    "take 8 (drop 6 b) = be_bytes 8 (unat (sealed_epoch r))"
    "b ! 14 = word_of_nat (length (master_id r))" "drop 15 b = master_id r @ share_bytes r"
    "15 \<le> length b"
    by (simp_all add: b nth_append drop_Cons' del: be_bytes.simps)
  have "unat (b ! 14) = length (master_id r)"
    using len by (simp add: parts(4) unat_of_nat)
  with parts v show ?thesis
    by (simp add: demo_bare_from_slice_def be_val_be_bytes)
qed

lemma seal_crates_ok_demo:
  assumes "seal_crates.truncate r = demo_seal"
  shows "hex_ok r" "b64_ok r" "ecies_ok r" "ecies_binds_key r" "k256_ok r" "bare_ok r"
proof -
  have "crates.truncate r = crates.truncate (seal_crates.truncate r)"
    by (simp add: crates.defs seal_crates.defs)
  also have "\<dots> = demo_crates"
    unfolding assms by (simp add: demo_seal_def crates.defs demo_crates_def)
  finally show "hex_ok r" "b64_ok r" "ecies_ok r" "ecies_binds_key r" "k256_ok r"
    by (rule crates_ok_demo)+
  have "bare_to_vec r = bare_to_vec (seal_crates.truncate r)"
    "bare_from_slice r = bare_from_slice (seal_crates.truncate r)" by (simp_all add: seal_crates.defs)
  then show "bare_ok r"
    unfolding assms by (simp add: bare_ok_def demo_seal_def crates.defs seal_crates.defs demo_bare_roundtrip)
qed

lemma demo_seal_ok:
  "hex_ok demo_seal" "b64_ok demo_seal" "ecies_ok demo_seal" "ecies_binds_key demo_seal"
  "k256_ok demo_seal" "bare_ok demo_seal"
  by (rule seal_crates_ok_demo; simp add: seal_crates.defs)+

definition demo_sk :: bytes where
  "demo_sk = replicate 32 7"

definition demo_fs :: file_system where
  "demo_fs = \<lparr> files = hm_empty, write_answer = (\<lambda>_ _. Written), rename_answer = (\<lambda>_ _. True),
     read_answer = (\<lambda>_. True) \<rparr>"

lemma demo_verifying_key: "k256_verifying_key demo_seal demo_sk = Inr (demo_pk demo_sk)"
  by (simp add: demo_seal_def demo_crates_def crates.defs seal_crates.defs demo_sk_def)

lemma demo_seal_b64: "\<exists>text. seal_b64 demo_seal (demo_pk demo_sk) (sealed_share_new 1 2 [9] [5]) = Inr text"
  by (simp add: seal_b64_def seal_to_bytes_def ecies_encrypt_def sealed_share_new_def demo_seal_def
      demo_crates_def demo_bare_to_vec_def crates.defs seal_crates.defs demo_pk_def demo_sk_def)

lemma demo_write: "\<exists>fs'. write_blob_file path blob demo_fs = (fs', Inr ())"
  by (simp add: write_blob_file_def fs_write_def fs_rename_def demo_fs_def Let_def)

section \<open>Properties\<close>

text \<open>C30. Sealing and unsealing agree: the text \<open>seal_b64\<close> makes for a key pair's public key gives the
  sealed record back under its private key, also after it has been written to and read from
  the file.\<close>

theorem seal_roundtrip:
  assumes "ecies_ok L" "bare_ok L" "b64_ok L" "k256_verifying_key L sk = Inr pk"
    and "seal_b64 L pk (sealed_share_new idx ep mid sh) = Inr text"
    and "write_blob_file path text fs = (fs', Inr ())" "read_answer fs path"
  shows "unseal_b64 L text sk = Inr (Some (sealed_share_new idx ep mid sh)) \<and>
    read_blob_file path fs' = Inr (Some text)"
proof -
  from assms(5) obtain buf where buf: "seal_to_bytes L pk (sealed_share_new idx ep mid sh) = Inr buf"
    and blob: "text = b64url_encode L buf" and "buf \<noteq> []"
    by (rule seal_b64_bytes)
  have "unseal_from_bytes L buf sk = Inr (Some (sealed_share_new idx ep mid sh))"
    using assms(1,2,4) _ buf by (rule unseal_seal_bytes) (simp add: sealed_share_new_def)
  moreover have "read_blob_file path fs' = Inr (Some text)"
    using write_then_read [OF assms(6,7)] assms(3) \<open>buf \<noteq> []\<close>
    by (simp add: blob b64_ok_trim b64_ok_nonempty)
  ultimately show ?thesis
    using assms(3) \<open>buf \<noteq> []\<close> by (simp add: blob unseal_b64_encode)
qed

theorem seal_roundtrip_witness:
  "\<exists>blob fs'. seal_b64 demo_seal (demo_pk demo_sk) (sealed_share_new 1 2 [9] [5]) = Inr blob \<and>
     write_blob_file ''share'' blob demo_fs = (fs', Inr ()) \<and>
     unseal_b64 demo_seal blob demo_sk = Inr (Some (sealed_share_new 1 2 [9] [5])) \<and>
     read_blob_file ''share'' fs' = Inr (Some blob)"
proof -
  obtain blob fs' where blob: "seal_b64 demo_seal (demo_pk demo_sk) (sealed_share_new 1 2 [9] [5]) = Inr blob"
    and fs': "write_blob_file ''share'' blob demo_fs = (fs', Inr ())"
    using demo_seal_b64 demo_write by blast
  from seal_roundtrip [OF demo_seal_ok(3,6,2) demo_verifying_key blob fs'] blob fs'
  show ?thesis by (auto simp: demo_fs_def)
qed

text \<open>A blob sealed by another identity is unusable but never an error: under every other private
  key \<open>unseal_b64\<close> answers \<open>Ok(None)\<close>, so a re-measured node re-joins instead of failing.\<close>

theorem unseal_other_identity:
  assumes "ecies_binds_key L" "b64_ok L" "k256_verifying_key L sk = Inr pk" "sk' \<noteq> sk"
    and "seal_b64 L pk rec = Inr text"
  shows "unseal_b64 L text sk' = Inr None"
proof -
  from assms(5) obtain buf where buf: "seal_to_bytes L pk rec = Inr buf"
    and blob: "text = b64url_encode L buf" and "buf \<noteq> []"
    by (rule seal_b64_bytes)
  have "unseal_from_bytes L buf sk' = Inr None"
    using assms(1,3,4) buf by (rule unseal_other_identity_bytes)
  with assms(2) \<open>buf \<noteq> []\<close> show ?thesis by (simp add: blob unseal_b64_encode)
qed

theorem unseal_other_identity_witness:
  "\<exists>blob. seal_b64 demo_seal (demo_pk demo_sk) (sealed_share_new 1 2 [9] [5]) = Inr blob \<and>
     unseal_b64 demo_seal blob (replicate 32 8) = Inr None"
proof -
  obtain blob where blob: "seal_b64 demo_seal (demo_pk demo_sk) (sealed_share_new 1 2 [9] [5]) = Inr blob"
    using demo_seal_b64 by blast
  have "replicate 32 8 \<noteq> demo_sk" by (simp add: demo_sk_def)
  from unseal_other_identity [OF demo_seal_ok(4,2) demo_verifying_key this blob] blob
  show ?thesis by blast
qed

text \<open>The sealed file is replaced atomically: whatever the operating system answers, after
  \<open>write_blob_file\<close> the file holds the new blob exactly when the call succeeded, and its old
  contents otherwise (a failed write damages the temporary file only).\<close>

theorem sealed_file_atomic:
  "case write_blob_file path b64 fs of (fs', r) \<Rightarrow>
     hm_get (files fs') path = (if is_ok r then Some b64 else hm_get (files fs) path) \<and>
     (\<forall>p. hm_get (files fs') p = hm_get (files fs) p \<or> p = path \<or> p = path @ ''.tmp'')"
proof (cases "write_blob_file path b64 fs")
  case (Pair fs' r)
  then show ?thesis
    using write_blob_file_atomic [OF Pair] write_blob_file_other [OF Pair] by auto
qed

end
