(* ===== verification/Process.thy ===== *)
theory Process
  imports MetricsCore
begin

text \<open>
  The state of one process that every component shares (the monotonic clock and the counters; the
  components extend this record with their own tables), and how fallible stateful code is
  composed: a call takes the state and returns a result with the new state. The locale
  \<open>admission\<close> is the interface of every check on the way to a secret (the on-chain list, the
  attestation gate, request authentication): what a success means, and an invariant it keeps.
\<close>

record proc =
  clock :: instant
  mets :: metrics

definition sbind ::
    "('s \<Rightarrow> ('e + 'a) \<times> 's) \<Rightarrow> ('a \<Rightarrow> 's \<Rightarrow> ('e + 'b) \<times> 's) \<Rightarrow> 's \<Rightarrow> ('e + 'b) \<times> 's" where
  "sbind m f s = (case m s of (Inl e, s') \<Rightarrow> (Inl e, s') | (Inr a, s') \<Rightarrow> f a s')"

definition smap_err :: "('e \<Rightarrow> 'f) \<Rightarrow> ('s \<Rightarrow> ('e + 'a) \<times> 's) \<Rightarrow> 's \<Rightarrow> ('f + 'a) \<times> 's" where
  "smap_err g m s = (case m s of (r, s') \<Rightarrow> (map_err g r, s'))"

text \<open>Bump one counter; let time pass.\<close>

definition bump :: "((u64 \<Rightarrow> u64) \<Rightarrow> metrics \<Rightarrow> metrics) \<Rightarrow> 'z proc_scheme \<Rightarrow> 'z proc_scheme" where
  "bump field s = s\<lparr>mets := field inc (mets s)\<rparr>"

definition tick :: "nat \<Rightarrow> 'z proc_scheme \<Rightarrow> 'z proc_scheme" where
  "tick d s = s\<lparr>clock := clock s + d\<rparr>"

section \<open>Lemmas\<close>

lemma sbind_Inr_iff:
  "sbind m f s = (Inr b, s') \<longleftrightarrow> (\<exists>a s1. m s = (Inr a, s1) \<and> f a s1 = (Inr b, s'))"
  by (auto simp: sbind_def split: prod.splits sum.splits)

lemma sbind_cases:
  assumes "sbind m f s = (r, s')"
  obtains (err) e where "m s = (Inl e, s')" "r = Inl e"
    | (ok) a s1 where "m s = (Inr a, s1)" "f a s1 = (r, s')"
  using assms by (auto simp: sbind_def split: prod.splits sum.splits)

lemma sbind_ok: "m s = (Inr a, s1) \<Longrightarrow> sbind m f s = f a s1"
  by (simp add: sbind_def)

lemma sbind_err: "m s = (Inl e, s1) \<Longrightarrow> sbind m f s = (Inl e, s1)"
  by (simp add: sbind_def)

lemma smap_err_Inr_iff: "smap_err g m s = (Inr a, s') \<longleftrightarrow> m s = (Inr a, s')"
  by (auto simp: smap_err_def split: prod.splits)

lemma smap_err_state: "snd (smap_err g m s) = snd (m s)"
  by (simp add: smap_err_def split: prod.splits)

lemma bump_simps [simp]:
  "clock (bump f s) = clock s"
  "mets (bump f s) = f inc (mets s)"
  by (simp_all add: bump_def)

lemma tick_simps [simp]:
  "clock (tick d s) = clock s + d"
  "mets (tick d s) = mets s"
  by (simp_all add: tick_def)

text \<open>
  The interface of a system of concurrent tasks: states, the states it starts in, its steps, and an
  invariant that every step keeps.
\<close>

locale task_system =
  fixes start :: "'s \<Rightarrow> bool" and step :: "'s \<Rightarrow> 's \<Rightarrow> bool" and inv :: "'s \<Rightarrow> bool"
  assumes start_inv: "start s \<Longrightarrow> inv s"
    and step_inv: "step s s' \<Longrightarrow> inv s \<Longrightarrow> inv s'"
begin

lemma steps_inv: "step\<^sup>*\<^sup>* s s' \<Longrightarrow> inv s \<Longrightarrow> inv s'"
  by (induction rule: rtranclp_induct) (auto intro: step_inv)

lemma reach_inv: "start s0 \<Longrightarrow> step\<^sup>*\<^sup>* s0 s \<Longrightarrow> inv s"
  using start_inv steps_inv by blast

end

text \<open>A check of a query: it keeps the invariant, and its success has a meaning.\<close>

locale admission =
  fixes check :: "'q \<Rightarrow> 's \<Rightarrow> ('e + 'a) \<times> 's" and inv :: "'s \<Rightarrow> bool"
    and good :: "'q \<Rightarrow> 's \<Rightarrow> 'a \<Rightarrow> bool"
  assumes inv_check: "inv s \<Longrightarrow> inv (snd (check q s))"
    and sound: "inv s \<Longrightarrow> check q s = (Inr a, s') \<Longrightarrow> good q s' a"
begin

lemma inv_step: "inv s \<Longrightarrow> check q s = (r, s') \<Longrightarrow> inv s'"
  using inv_check [of s q] by simp

text \<open>The state after any number of checks, in the order they are made.\<close>

lemma inv_run: "inv s \<Longrightarrow> inv (foldl (\<lambda>s q. snd (check q s)) s qs)"
  by (induction qs arbitrary: s) (auto intro: inv_check)

lemma sound_after_run:
  "inv s \<Longrightarrow> check q (foldl (\<lambda>s q. snd (check q s)) s qs) = (Inr a, s') \<Longrightarrow> good q s' a"
  by (rule sound [OF inv_run])

lemma inv_sbind:
  assumes "inv s" "\<And>a s1. check q s = (Inr a, s1) \<Longrightarrow> inv s1 \<Longrightarrow> good q s1 a \<Longrightarrow> inv (snd (f a s1))"
  shows "inv (snd (sbind (check q) f s))"
proof (cases "check q s")
  case (Pair r s1)
  then have "inv s1" using assms(1) inv_step by blast
  with Pair assms sound show ?thesis by (cases r) (auto simp: sbind_def)
qed

lemma sbind_sound:
  assumes "inv s" "sbind (check q) f s = (Inr b, s')"
  obtains a s1 where "check q s = (Inr a, s1)" "inv s1" "good q s1 a" "f a s1 = (Inr b, s')"
  using assms inv_step sound unfolding sbind_Inr_iff by blast

end

end
