(* ===== verification/Chain.thy ===== *)
theory Chain
  imports Process Seal
begin

text \<open>
  \<open>src/chain.rs\<close>: the on-chain node list and its cache. The contract call and the URL parser are
  not in the repository: they are fields of \<open>chain_env\<close>. An answer is a function of the instant of
  the call and comes with the time the call took, so that the cache stamps (\<open>Instant::now\<close> after
  the await) are the code's.
\<close>

record chain_env = seal_crates +
  utc_now :: "instant \<Rightarrow> i64"
  provider_try_from :: "string \<Rightarrow> unit anyhow"
  parse_address :: "string \<Rightarrow> address option"
  rpc_node_list :: "instant \<Rightarrow> string \<Rightarrow> address \<Rightarrow> string \<Rightarrow> address list anyhow \<times> nat"
  rpc_app_owner :: "instant \<Rightarrow> string \<Rightarrow> address \<Rightarrow> string \<Rightarrow> address anyhow \<times> nat"

record node_list_entry =
  addrs :: "address list"
  fetched_at :: instant
  miss_refresh_at :: "instant option"

text \<open>A \<open>Provider\<close> is represented by the URL it was built from.\<close>

record chain_proc = proc +
  providers :: "(string, string) hash_map"
  node_list_cache :: "(string, node_list_entry) hash_map"

section \<open>Definitions\<close>

definition NODE_LIST_TTL :: nat where
  "NODE_LIST_TTL = from_secs 30"

definition MISS_REFRESH_MIN :: nat where
  "MISS_REFRESH_MIN = from_secs 5"

definition provider_for ::
    "'y chain_env_scheme \<Rightarrow> string \<Rightarrow> 'z chain_proc_scheme \<Rightarrow> (kms_error + string) \<times> 'z chain_proc_scheme" where
  "provider_for E url s =
     (case hm_get (providers s) url of
        Some p \<Rightarrow> (Inr p, s)
      | None \<Rightarrow>
          (case provider_try_from E url of
             Inl e \<Rightarrow> (Inl (ChainError (''invalid RPC URL: '' @ e)), s)
           | Inr _ \<Rightarrow> (Inr url, s\<lparr>providers := hm_insert url url (providers s)\<rparr>)))"

definition parse_contract :: "'y chain_env_scheme \<Rightarrow> string \<Rightarrow> kms_error + address" where
  "parse_contract E c =
     ok_or (ChainError (''invalid contract address: '' @ c)) (parse_address E c)"

definition get_app_owner ::
    "'y chain_env_scheme \<Rightarrow> string \<Rightarrow> string \<Rightarrow> string \<Rightarrow> 'z chain_proc_scheme
       \<Rightarrow> (kms_error + address) \<times> 'z chain_proc_scheme" where
  "get_app_owner E url contract app =
     sbind (provider_for E url) (\<lambda>provider.
     sbind (\<lambda>s. (parse_contract E contract, s)) (\<lambda>c s.
       let (answer, d) = rpc_app_owner E (clock s) provider c app
       in (map_err (\<lambda>e. ChainError (''getAppInfo failed: '' @ e)) answer, tick d s)))"

definition fetch_node_list ::
    "'y chain_env_scheme \<Rightarrow> string \<Rightarrow> string \<Rightarrow> string \<Rightarrow> 'z chain_proc_scheme
       \<Rightarrow> (kms_error + address list) \<times> 'z chain_proc_scheme" where
  "fetch_node_list E url contract app =
     sbind (provider_for E url) (\<lambda>provider.
     sbind (\<lambda>s. (parse_contract E contract, s)) (\<lambda>c s.
       let (answer, d) = rpc_node_list E (clock s) provider c app
       in (map_err (\<lambda>e. ChainError (''getNodeList failed: '' @ e)) answer, tick d s)))"

definition cache_key :: "string \<Rightarrow> string \<Rightarrow> string \<Rightarrow> string" where
  "cache_key url contract app = url @ ''|'' @ contract @ ''|'' @ app"

text \<open>The cached list of a key while it is fresh.\<close>

definition fresh_hit :: "string \<Rightarrow> 'z chain_proc_scheme \<Rightarrow> address list option" where
  "fresh_hit key s =
     (case hm_get (node_list_cache s) key of
        None \<Rightarrow> None
      | Some e \<Rightarrow> if elapsed (clock s) (fetched_at e) < NODE_LIST_TTL then Some (addrs e) else None)"

text \<open>What the holder of the refresh lock does: look again, else ask the chain.\<close>

definition refresh_locked ::
    "'y chain_env_scheme \<Rightarrow> string \<Rightarrow> string \<Rightarrow> string \<Rightarrow> 'z chain_proc_scheme
       \<Rightarrow> (kms_error + address list) \<times> 'z chain_proc_scheme" where
  "refresh_locked E url contract app s =
     (let key = cache_key url contract app in
      case fresh_hit key s of
        Some a \<Rightarrow> (Inr a, s)
      | None \<Rightarrow>
          (case fetch_node_list E url contract app s of
             (Inr a, s1) \<Rightarrow>
               (let s2 = bump chain_rpc_ok_update s1 in
                (Inr a, s2\<lparr>node_list_cache :=
                   hm_insert key \<lparr> addrs = a, fetched_at = clock s2, miss_refresh_at = None \<rparr>
                     (node_list_cache s2)\<rparr>))
           | (Inl e, s1) \<Rightarrow>
               (let s2 = bump chain_rpc_fail_update s1 in
                case hm_get (node_list_cache s2) key of
                  Some old \<Rightarrow> (Inr (addrs old), bump chain_stale_served_update s2)
                | None \<Rightarrow> (Inl e, s2))))"

definition get_signer_addresses ::
    "'y chain_env_scheme \<Rightarrow> string \<Rightarrow> string \<Rightarrow> string \<Rightarrow> 'z chain_proc_scheme
       \<Rightarrow> (kms_error + address list) \<times> 'z chain_proc_scheme" where
  "get_signer_addresses E url contract app s =
     (case fresh_hit (cache_key url contract app) s of
        Some a \<Rightarrow> (Inr a, s)
      | None \<Rightarrow> refresh_locked E url contract app s)"

text \<open>The list without a refresh: it has the signer, or a refresh is too recent to repeat.\<close>

definition miss_settled :: "string \<Rightarrow> address \<Rightarrow> 'z chain_proc_scheme \<Rightarrow> address list option" where
  "miss_settled key signer s =
     (case hm_get (node_list_cache s) key of
        None \<Rightarrow> None
      | Some e \<Rightarrow>
          (let recent = (\<lambda>t. elapsed (clock s) t < MISS_REFRESH_MIN) in
           if signer \<in> set (addrs e) \<or> recent (fetched_at e) \<or>
              (case miss_refresh_at e of Some t \<Rightarrow> recent t | None \<Rightarrow> False)
           then Some (addrs e) else None))"

text \<open>What the holder of the app's miss lock does; \<open>known\<close> is the list it came with.\<close>

definition miss_locked ::
    "'y chain_env_scheme \<Rightarrow> string \<Rightarrow> string \<Rightarrow> string \<Rightarrow> address \<Rightarrow> address list
       \<Rightarrow> 'z chain_proc_scheme \<Rightarrow> (kms_error + address list) \<times> 'z chain_proc_scheme" where
  "miss_locked E url contract app signer known s =
     (let key = cache_key url contract app in
      case miss_settled key signer s of
        Some a \<Rightarrow> (Inr a, s)
      | None \<Rightarrow>
          (case fetch_node_list E url contract app s of
             (Inr fresh, s1) \<Rightarrow>
               (let s2 = bump chain_rpc_ok_update s1 in
                (Inr fresh, s2\<lparr>node_list_cache :=
                   hm_insert key \<lparr> addrs = fresh, fetched_at = clock s2,
                                   miss_refresh_at = Some (clock s2) \<rparr> (node_list_cache s2)\<rparr>))
           | (Inl e, s1) \<Rightarrow>
               (let s2 = bump chain_rpc_fail_update s1 in
                (Inr known,
                 case hm_get (node_list_cache s2) key of
                   Some entry \<Rightarrow>
                     s2\<lparr>node_list_cache :=
                       hm_insert key (entry\<lparr>miss_refresh_at := Some (clock s2)\<rparr>) (node_list_cache s2)\<rparr>
                 | None \<Rightarrow> s2))))"

definition get_signer_addresses_for ::
    "'y chain_env_scheme \<Rightarrow> string \<Rightarrow> string \<Rightarrow> string \<Rightarrow> address \<Rightarrow> 'z chain_proc_scheme
       \<Rightarrow> (kms_error + address list) \<times> 'z chain_proc_scheme" where
  "get_signer_addresses_for E url contract app signer =
     sbind (get_signer_addresses E url contract app) (\<lambda>known s.
       if signer \<in> set known then (Inr known, s)
       else miss_locked E url contract app signer known s)"

section \<open>Specification\<close>

text \<open>The chain answered \<open>getNodeList(app)\<close>, asked at \<open>t\<close>, with the list \<open>a\<close> at \<open>t'\<close>.\<close>

definition chain_said ::
    "'y chain_env_scheme \<Rightarrow> string \<Rightarrow> string \<Rightarrow> string \<Rightarrow> address list \<Rightarrow> instant \<Rightarrow> instant \<Rightarrow> bool" where
  "chain_said E url contract app a t t' \<longleftrightarrow>
     (\<exists>c d. parse_address E contract = Some c \<and> rpc_node_list E t url c app = (Inr a, d) \<and> t' = t + d)"

text \<open>
  The invariant of the tables: a provider belongs to its URL, and every cached list is an answer of
  the chain for that very app, stamped with the instant of the answer, never in the future.
\<close>

definition entry_ok ::
    "'y chain_env_scheme \<Rightarrow> string \<Rightarrow> string \<Rightarrow> string \<Rightarrow> instant \<Rightarrow> node_list_entry \<Rightarrow> bool" where
  "entry_ok E url contract app now e \<longleftrightarrow>
     (\<exists>t. chain_said E url contract app (addrs e) t (fetched_at e)) \<and> fetched_at e \<le> now \<and>
     (\<forall>m. miss_refresh_at e = Some m \<longrightarrow> m \<le> now)"

definition chain_inv ::
    "'y chain_env_scheme \<Rightarrow> string \<Rightarrow> string \<Rightarrow> 'z chain_proc_scheme \<Rightarrow> bool" where
  "chain_inv E url contract s \<longleftrightarrow>
     (\<forall>p. hm_get (providers s) url = Some p \<longrightarrow> p = url) \<and>
     (\<forall>app e. hm_get (node_list_cache s) (cache_key url contract app) = Some e
        \<longrightarrow> entry_ok E url contract app (clock s) e)"

text \<open>A returned list is the chain's, and no older than the TTL unless a chain call failed.\<close>

definition list_ok ::
    "'y chain_env_scheme \<Rightarrow> string \<Rightarrow> string \<Rightarrow> string \<Rightarrow> 'z chain_proc_scheme \<Rightarrow> 'z chain_proc_scheme
       \<Rightarrow> address list \<Rightarrow> bool" where
  "list_ok E url contract app s s' a \<longleftrightarrow>
     (\<exists>t t'. chain_said E url contract app a t t' \<and> t' \<le> clock s' \<and>
        (elapsed (clock s') t' < NODE_LIST_TTL \<or>
         chain_rpc_fail (mets s') \<noteq> chain_rpc_fail (mets s)))"

text \<open>What the chain functions leave alone: the tables of the components above.\<close>

definition chain_frame :: "'z chain_proc_scheme \<Rightarrow> 'z chain_proc_scheme \<Rightarrow> bool" where
  "chain_frame s s' \<longleftrightarrow> chain_proc.more s' = chain_proc.more s \<and> clock s \<le> clock s'"

section \<open>Lemmas\<close>

lemma cache_key_inject [simp]: "cache_key u c a = cache_key u c b \<longleftrightarrow> a = b"
  by (simp add: cache_key_def)

lemma chain_frame_refl [simp]: "chain_frame s s"
  by (simp add: chain_frame_def)

lemma chain_frame_trans: "chain_frame s t \<Longrightarrow> chain_frame t u \<Longrightarrow> chain_frame s u"
  by (auto simp: chain_frame_def)

lemma bump_chain_simps [simp]:
  "providers (bump f s) = providers s"
  "node_list_cache (bump f s) = node_list_cache s"
  "chain_proc.more (bump f s) = chain_proc.more s"
  by (simp_all add: bump_def)

lemma tick_chain_simps [simp]:
  "providers (tick d s) = providers s"
  "node_list_cache (tick d s) = node_list_cache s"
  "chain_proc.more (tick d s) = chain_proc.more s"
  by (simp_all add: tick_def)

text \<open>A call of the chain changes the clock and the provider table only.\<close>

lemma fetch_node_list_frame:
  assumes "fetch_node_list E url c app s = (r, s')"
  shows "node_list_cache s' = node_list_cache s" "mets s' = mets s" "chain_frame s s'"
  using assms
  by (auto simp: fetch_node_list_def sbind_def provider_for_def chain_frame_def
      split: prod.splits sum.splits option.splits unit.splits)

lemma fetch_node_list_said:
  assumes "fetch_node_list E url c app s = (r, s')" "\<forall>p. hm_get (providers s) url = Some p \<longrightarrow> p = url"
  shows "\<forall>p. hm_get (providers s') url = Some p \<longrightarrow> p = url"
    and "r = Inr a \<Longrightarrow> chain_said E url c app a (clock s) (clock s')"
  using assms
  by (auto simp: fetch_node_list_def sbind_def provider_for_def chain_said_def parse_contract_def
      split: prod.splits sum.splits option.splits unit.splits)

text \<open>Storing an entry for one app that is right, and letting time pass, keeps the invariant.\<close>

lemma chain_inv_store:
  assumes "chain_inv E url c s" "clock s \<le> clock s'"
    and "\<forall>p. hm_get (providers s') url = Some p \<longrightarrow> p = url"
    and "node_list_cache s' = node_list_cache s \<or>
      (\<exists>e. node_list_cache s' = hm_insert (cache_key url c app) e (node_list_cache s) \<and>
           entry_ok E url c app (clock s') e)"
  shows "chain_inv E url c s'"
proof -
  have keep: "entry_ok E url c a (clock s') e"
    if "hm_get (node_list_cache s) (cache_key url c a) = Some e" for a e
    using assms(1,2) that unfolding chain_inv_def entry_ok_def by (meson order_trans)
  from assms(4) show ?thesis
  proof
    assume "node_list_cache s' = node_list_cache s"
    with keep assms(3) show ?thesis unfolding chain_inv_def by simp
  next
    assume "\<exists>e. node_list_cache s' = hm_insert (cache_key url c app) e (node_list_cache s) \<and>
      entry_ok E url c app (clock s') e"
    then show ?thesis using keep assms(3)
      by (auto simp: chain_inv_def split: if_splits)
  qed
qed

lemma chain_inv_providers: "chain_inv E url c s \<Longrightarrow> \<forall>p. hm_get (providers s) url = Some p \<longrightarrow> p = url"
  by (simp add: chain_inv_def)

lemma chain_inv_entry:
  "chain_inv E url c s \<Longrightarrow> hm_get (node_list_cache s) (cache_key url c app) = Some e \<Longrightarrow>
     entry_ok E url c app (clock s) e"
  by (simp add: chain_inv_def)

lemma chain_inv_tick: "chain_inv E url c s \<Longrightarrow> chain_inv E url c (tick d s)"
  by (rule chain_inv_store [where s = s]) (simp_all add: chain_inv_def)

lemma fresh_hit_list_ok:
  assumes "chain_inv E url c s" "fresh_hit (cache_key url c app) s = Some a"
  shows "list_ok E url c app s s a"
  using assms chain_inv_entry [OF assms(1), of app]
  by (auto simp: fresh_hit_def list_ok_def entry_ok_def split: option.splits if_splits)

lemma list_ok_now:
  "chain_said E url c app a t t' \<Longrightarrow> t' = clock s' \<Longrightarrow> list_ok E url c app s s' a"
  unfolding list_ok_def elapsed_def NODE_LIST_TTL_def from_secs_def by force

lemma list_ok_failed:
  assumes "entry_ok E url c app (clock s) e" "clock s \<le> clock s'"
    and "chain_rpc_fail (mets s') \<noteq> chain_rpc_fail (mets s)"
  shows "list_ok E url c app s s' (addrs e)"
  using assms unfolding list_ok_def entry_ok_def by (meson order_trans)

lemma inc_neq [simp]: "inc c \<noteq> c" "inc (inc c) \<noteq> c"
  by (simp_all add: inc_def add.assoc)

text \<open>The three outcomes of a refresh under the lock: an answer, a stale list, an error.\<close>

lemma refresh_locked_cases:
  assumes "refresh_locked E url c app s = (r, s')"
  obtains (hit) a where "fresh_hit (cache_key url c app) s = Some a" "r = Inr a" "s' = s"
    | (fetched) a s1 where "fetch_node_list E url c app s = (Inr a, s1)" "r = Inr a"
        "s' = (bump chain_rpc_ok_update s1)\<lparr>node_list_cache := hm_insert (cache_key url c app)
           \<lparr> addrs = a, fetched_at = clock s1, miss_refresh_at = None \<rparr> (node_list_cache s1)\<rparr>"
    | (stale) e s1 old where "fetch_node_list E url c app s = (Inl e, s1)" "r = Inr (addrs old)"
        "hm_get (node_list_cache s) (cache_key url c app) = Some old"
        "s' = bump chain_stale_served_update (bump chain_rpc_fail_update s1)"
    | (failed) e s1 where "fetch_node_list E url c app s = (Inl e, s1)" "r = Inl e"
        "hm_get (node_list_cache s) (cache_key url c app) = None"
        "s' = bump chain_rpc_fail_update s1"
proof (cases "fresh_hit (cache_key url c app) s")
  case (Some a)
  with assms show ?thesis by (auto simp: refresh_locked_def Let_def intro: hit)
next
  case None
  obtain q s1 where q: "fetch_node_list E url c app s = (q, s1)" by force
  note same = fetch_node_list_frame(1) [OF q]
  show ?thesis
  proof (cases q)
    case (Inr a)
    with None q assms show ?thesis by (auto simp: refresh_locked_def Let_def intro: fetched)
  next
    case (Inl e)
    with None q assms same show ?thesis
      by (cases "hm_get (node_list_cache s) (cache_key url c app)")
        (auto simp: refresh_locked_def Let_def intro: stale failed)
  qed
qed

lemma refresh_locked_ok:
  assumes inv: "chain_inv E url c s" and call: "refresh_locked E url c app s = (r, s')"
  shows "chain_inv E url c s' \<and> chain_frame s s' \<and> (\<forall>a. r = Inr a \<longrightarrow> list_ok E url c app s s' a)"
  using call
proof (cases rule: refresh_locked_cases)
  case (hit a)
  with inv fresh_hit_list_ok show ?thesis by auto
next
  case (fetched a s1)
  note fr = fetch_node_list_frame [OF fetched(1)]
    and said = fetch_node_list_said [OF fetched(1) chain_inv_providers [OF inv]]
  from said(2) have said2: "chain_said E url c app a (clock s) (clock s1)" by simp
  then have "entry_ok E url c app (clock s')
      \<lparr> addrs = a, fetched_at = clock s1, miss_refresh_at = None \<rparr>"
    by (auto simp: entry_ok_def fetched(3))
  then have "chain_inv E url c s'"
    using fr said(1) by (intro chain_inv_store [OF inv, of _ app]) (auto simp: fetched(3) chain_frame_def)
  moreover have "list_ok E url c app s s' a"
    using said2 by (rule list_ok_now) (simp_all add: fetched(3))
  ultimately show ?thesis using fr by (simp add: fetched chain_frame_def)
next
  case (stale e s1 old)
  note fr = fetch_node_list_frame [OF stale(1)]
    and said = fetch_node_list_said [OF stale(1) chain_inv_providers [OF inv]]
  have "chain_inv E url c s'"
    using fr said(1) by (intro chain_inv_store [OF inv, of _ app]) (auto simp: stale(4) chain_frame_def)
  moreover have "list_ok E url c app s s' (addrs old)"
    using chain_inv_entry [OF inv stale(3)] by (rule list_ok_failed) (use fr in \<open>simp_all add: stale(4) chain_frame_def\<close>)
  ultimately show ?thesis using fr by (simp add: stale chain_frame_def)
next
  case (failed e s1)
  note fr = fetch_node_list_frame [OF failed(1)]
    and said = fetch_node_list_said [OF failed(1) chain_inv_providers [OF inv]]
  have "chain_inv E url c s'"
    using fr said(1) by (intro chain_inv_store [OF inv, of _ app]) (auto simp: failed(4) chain_frame_def)
  then show ?thesis using fr by (simp add: failed chain_frame_def)
qed

lemma get_signer_addresses_ok:
  assumes "chain_inv E url c s" "get_signer_addresses E url c app s = (r, s')"
  shows "chain_inv E url c s' \<and> chain_frame s s' \<and> (\<forall>a. r = Inr a \<longrightarrow> list_ok E url c app s s' a)"
  using assms fresh_hit_list_ok [OF assms(1)] refresh_locked_ok [OF assms(1)]
  by (auto simp: get_signer_addresses_def split: option.splits)

lemma get_signer_addresses_entry:
  assumes "get_signer_addresses E url c app s = (Inr a, s')"
  obtains e where "hm_get (node_list_cache s') (cache_key url c app) = Some e" "addrs e = a"
proof (cases "fresh_hit (cache_key url c app) s")
  case (Some b)
  with assms that show ?thesis
    by (auto simp: get_signer_addresses_def fresh_hit_def split: option.splits if_splits)
next
  case None
  with assms have "refresh_locked E url c app s = (Inr a, s')" by (simp add: get_signer_addresses_def)
  then show ?thesis
  proof (cases rule: refresh_locked_cases)
    case (stale e s1 old)
    with that fetch_node_list_frame(1) [OF stale(1)] show ?thesis by auto
  qed (use None that in \<open>auto simp: fresh_hit_def\<close>)
qed

lemma miss_locked_cases:
  assumes "miss_locked E url c app signer known s = (r, s')"
  obtains (settled) a where "miss_settled (cache_key url c app) signer s = Some a" "r = Inr a" "s' = s"
    | (fetched) a s1 where "miss_settled (cache_key url c app) signer s = None"
        "fetch_node_list E url c app s = (Inr a, s1)" "r = Inr a"
        "s' = (bump chain_rpc_ok_update s1)\<lparr>node_list_cache := hm_insert (cache_key url c app)
           \<lparr> addrs = a, fetched_at = clock s1, miss_refresh_at = Some (clock s1) \<rparr> (node_list_cache s1)\<rparr>"
    | (failed) e s1 where "miss_settled (cache_key url c app) signer s = None"
        "fetch_node_list E url c app s = (Inl e, s1)" "r = Inr known"
        "s' = (case hm_get (node_list_cache s) (cache_key url c app) of
                 Some entry \<Rightarrow> (bump chain_rpc_fail_update s1)\<lparr>node_list_cache :=
                   hm_insert (cache_key url c app) (entry\<lparr>miss_refresh_at := Some (clock s1)\<rparr>)
                     (node_list_cache s)\<rparr>
               | None \<Rightarrow> bump chain_rpc_fail_update s1)"
proof (cases "miss_settled (cache_key url c app) signer s")
  case (Some a)
  with assms show ?thesis by (auto simp: miss_locked_def Let_def intro: settled)
next
  case None
  obtain q s1 where q: "fetch_node_list E url c app s = (q, s1)" by force
  note same = fetch_node_list_frame(1) [OF q]
  show ?thesis
  proof (cases q)
    case (Inr a)
    with None q assms show ?thesis by (auto simp: miss_locked_def Let_def intro: fetched)
  next
    case (Inl e)
    show ?thesis by (rule failed [of e s1]) (use None q assms same Inl in
        \<open>auto simp: miss_locked_def Let_def split: option.splits\<close>)
  qed
qed

lemma miss_locked_ok:
  assumes inv: "chain_inv E url c s" and call: "miss_locked E url c app signer known s = (r, s')"
  shows "chain_inv E url c s' \<and> chain_frame s s'"
  using call
proof (cases rule: miss_locked_cases)
  case (settled a)
  with inv show ?thesis by simp
next
  case (fetched a s1)
  note fr = fetch_node_list_frame [OF fetched(2)]
    and said = fetch_node_list_said [OF fetched(2) chain_inv_providers [OF inv]]
  from said(2) have "chain_said E url c app a (clock s) (clock s1)" by simp
  then have "entry_ok E url c app (clock s')
      \<lparr> addrs = a, fetched_at = clock s1, miss_refresh_at = Some (clock s1) \<rparr>"
    by (auto simp: entry_ok_def fetched(4))
  then have "chain_inv E url c s'"
    using fr said(1) by (intro chain_inv_store [OF inv, of _ app]) (auto simp: fetched(4) chain_frame_def)
  with fr show ?thesis by (simp add: fetched chain_frame_def)
next
  case (failed e s1)
  note fr = fetch_node_list_frame [OF failed(2)]
    and said = fetch_node_list_said [OF failed(2) chain_inv_providers [OF inv]]
  show ?thesis
  proof (cases "hm_get (node_list_cache s) (cache_key url c app)")
    case None
    with failed(4) fr said(1) have "chain_inv E url c s'"
      by (intro chain_inv_store [OF inv, of _ app]) (auto simp: chain_frame_def)
    with None fr failed(4) show ?thesis by (simp add: chain_frame_def)
  next
    case (Some entry)
    from chain_inv_entry [OF inv Some] fr(3)
    have "entry_ok E url c app (clock s1) (entry\<lparr>miss_refresh_at := Some (clock s1)\<rparr>)"
      by (auto simp: entry_ok_def chain_frame_def)
    with Some failed(4) fr said(1) have "chain_inv E url c s'"
      by (intro chain_inv_store [OF inv, of _ app]) (auto simp: chain_frame_def)
    with Some fr failed(4) show ?thesis by (simp add: chain_frame_def)
  qed
qed

lemma get_signer_addresses_fail_count:
  assumes "get_signer_addresses E url c app s = (r, s')"
  shows "chain_rpc_fail (mets s') = chain_rpc_fail (mets s) \<or>
    chain_rpc_fail (mets s') = inc (chain_rpc_fail (mets s))"
proof (cases "fresh_hit (cache_key url c app) s")
  case (Some b)
  with assms show ?thesis by (auto simp: get_signer_addresses_def)
next
  case None
  with assms have "refresh_locked E url c app s = (r, s')" by (simp add: get_signer_addresses_def)
  then show ?thesis
    by (cases rule: refresh_locked_cases) (auto dest: fetch_node_list_frame(2))
qed

lemma miss_locked_list_ok:
  assumes inv: "chain_inv E url c s"
    and call: "get_signer_addresses E url c app s = (Inr known, s1)"
    and miss: "miss_locked E url c app signer known s1 = (r, s')"
  shows "\<exists>a. r = Inr a \<and> list_ok E url c app s s' a"
proof -
  from get_signer_addresses_ok [OF inv call] have inv1: "chain_inv E url c s1"
    and known: "list_ok E url c app s s1 known" by auto
  from get_signer_addresses_entry [OF call] obtain e where
    e: "hm_get (node_list_cache s1) (cache_key url c app) = Some e" "addrs e = known" .
  from miss show ?thesis
  proof (cases rule: miss_locked_cases)
    case (settled a)
    with e known show ?thesis by (auto simp: miss_settled_def Let_def split: if_splits)
  next
    case (fetched a s2)
    from fetch_node_list_said(2) [OF fetched(2) chain_inv_providers [OF inv1]]
    have "list_ok E url c app s s' a" by (rule list_ok_now) (simp_all add: fetched(4))
    with fetched(3) show ?thesis by blast
  next
    case (failed x s2)
    note fr = fetch_node_list_frame [OF failed(2)]
    have "chain_rpc_fail (mets s') \<noteq> chain_rpc_fail (mets s)" "clock s1 \<le> clock s'"
      using get_signer_addresses_fail_count [OF call] fr e(1) failed(4)
      by (auto simp: chain_frame_def)
    with known have "list_ok E url c app s s' known"
      unfolding list_ok_def by (meson order_trans)
    with failed(3) show ?thesis by blast
  qed
qed

lemma get_signer_addresses_for_ok:
  assumes inv: "chain_inv E url c s"
    and call: "get_signer_addresses_for E url c app signer s = (r, s')"
  shows "chain_inv E url c s' \<and> chain_frame s s' \<and> (\<forall>a. r = Inr a \<longrightarrow> list_ok E url c app s s' a)"
  using call unfolding get_signer_addresses_for_def
proof (cases rule: sbind_cases)
  case (err e)
  with get_signer_addresses_ok [OF inv] show ?thesis by blast
next
  case (ok known s1)
  note ok1 = get_signer_addresses_ok [OF inv ok(1)]
  show ?thesis
  proof (cases "signer \<in> set known")
    case True
    with ok ok1 show ?thesis by auto
  next
    case False
    with ok(2) have miss: "miss_locked E url c app signer known s1 = (r, s')" by simp
    with miss_locked_ok [OF conjunct1 [OF ok1] miss] miss_locked_list_ok [OF inv ok(1) miss] ok1
    show ?thesis by (auto intro: chain_frame_trans)
  qed
qed

text \<open>The list lookup as a check of (app, signer): the client side of \<open>admission\<close>.\<close>

definition list_query ::
    "'y chain_env_scheme \<Rightarrow> string \<Rightarrow> string \<Rightarrow> nat \<times> string \<times> address \<Rightarrow> 'z chain_proc_scheme
       \<Rightarrow> (kms_error + address list) \<times> 'z chain_proc_scheme" where
  "list_query E url c q s = (case q of (d, app, signer) \<Rightarrow>
     get_signer_addresses_for E url c app signer (tick d s))"

interpretation node_list: admission "list_query E url c" "chain_inv E url c"
  "\<lambda>q s' a. \<exists>t t'. chain_said E url c (fst (snd q)) a t t' \<and> t' \<le> clock s'"
proof unfold_locales
  fix s :: "'c chain_proc_scheme" and q :: "nat \<times> string \<times> address"
  assume inv: "chain_inv E url c s"
  obtain d app signer where q: "q = (d, app, signer)" by (cases q)
  obtain r s' where call: "get_signer_addresses_for E url c app signer (tick d s) = (r, s')" by force
  from get_signer_addresses_for_ok [OF chain_inv_tick [OF inv] call]
  show "chain_inv E url c (snd (list_query E url c q s))"
    by (simp add: list_query_def q call)
next
  fix s s' :: "'c chain_proc_scheme" and q :: "nat \<times> string \<times> address" and a
  assume inv: "chain_inv E url c s" and call: "list_query E url c q s = (Inr a, s')"
  obtain d app signer where q: "q = (d, app, signer)" by (cases q)
  from call q get_signer_addresses_for_ok [OF chain_inv_tick [OF inv]]
  show "\<exists>t t'. chain_said E url c (fst (snd q)) a t t' \<and> t' \<le> clock s'"
    unfolding list_query_def list_ok_def by fastforce
qed

subsection \<open>How often a missing signer reaches the chain\<close>

text \<open>The last refresh of an app's list, and whether a call forces one.\<close>

definition last_refresh :: "string \<Rightarrow> 'z chain_proc_scheme \<Rightarrow> instant option" where
  "last_refresh key s =
     map_option (\<lambda>e. max (fetched_at e) (case miss_refresh_at e of Some m \<Rightarrow> m | None \<Rightarrow> 0))
       (hm_get (node_list_cache s) key)"

definition forces_refresh ::
    "'y chain_env_scheme \<Rightarrow> string \<Rightarrow> string \<Rightarrow> string \<Rightarrow> address \<Rightarrow> 'z chain_proc_scheme \<Rightarrow> bool" where
  "forces_refresh E url c app signer s \<longleftrightarrow>
     (case get_signer_addresses E url c app s of
        (Inr known, s1) \<Rightarrow>
          signer \<notin> set known \<and> miss_settled (cache_key url c app) signer s1 = None
      | _ \<Rightarrow> False)"

text \<open>\<open>refreshed_since t key s\<close>: there is an entry whose last refresh is at \<open>t\<close> or later.\<close>

definition refreshed_since :: "instant \<Rightarrow> string \<Rightarrow> 'z chain_proc_scheme \<Rightarrow> bool" where
  "refreshed_since t key s \<longleftrightarrow> (case last_refresh key s of Some r \<Rightarrow> t \<le> r | None \<Rightarrow> False)"

lemma refreshed_since_tick [simp]: "refreshed_since t key (tick d s) = refreshed_since t key s"
  by (simp add: refreshed_since_def last_refresh_def)

lemma refreshed_since_get:
  assumes "refreshed_since t (cache_key url c k) s" "t \<le> clock s"
    and "get_signer_addresses E url c app s = (r, s')"
  shows "refreshed_since t (cache_key url c k) s'"
proof (cases "fresh_hit (cache_key url c app) s")
  case (Some b)
  with assms show ?thesis by (auto simp: get_signer_addresses_def)
next
  case None
  with assms have "refresh_locked E url c app s = (r, s')" by (simp add: get_signer_addresses_def)
  then show ?thesis
  proof (cases rule: refresh_locked_cases)
    case (fetched a s1)
    with assms(1,2) fetch_node_list_frame [OF fetched(1)] show ?thesis
      by (auto simp: refreshed_since_def last_refresh_def chain_frame_def)
  qed (use assms(1) in \<open>auto simp: refreshed_since_def last_refresh_def dest: fetch_node_list_frame(1)\<close>)
qed

lemma refreshed_since_miss:
  assumes "refreshed_since t (cache_key url c k) s" "t \<le> clock s"
    and "miss_locked E url c app signer known s = (r, s')"
  shows "refreshed_since t (cache_key url c k) s'"
  using assms(3)
proof (cases rule: miss_locked_cases)
  case (settled a)
  with assms(1) show ?thesis by simp
next
  case (fetched a s1)
  with assms(1,2) fetch_node_list_frame [OF fetched(2)] show ?thesis
    by (auto simp: refreshed_since_def last_refresh_def chain_frame_def)
next
  case (failed e s1)
  with assms(1,2) fetch_node_list_frame [OF failed(2)] show ?thesis
    by (auto simp: refreshed_since_def last_refresh_def chain_frame_def split: option.splits)
qed

lemma refreshed_since_query:
  assumes inv: "chain_inv E url c s" and since: "refreshed_since t (cache_key url c k) s" "t \<le> clock s"
    and call: "list_query E url c q s = (r, s')"
  shows "refreshed_since t (cache_key url c k) s' \<and> t \<le> clock s'"
proof -
  obtain d app signer where q: "q = (d, app, signer)" by (cases q)
  note inv' = chain_inv_tick [OF inv, of d]
  from call have gs: "get_signer_addresses_for E url c app signer (tick d s) = (r, s')"
    by (simp add: list_query_def q)
  from get_signer_addresses_for_ok [OF inv' gs] since(2) have "t \<le> clock s'"
    by (simp add: chain_frame_def)
  moreover from gs have "refreshed_since t (cache_key url c k) s'"
    unfolding get_signer_addresses_for_def
  proof (cases rule: sbind_cases)
    case (err e)
    with since show ?thesis by (auto intro: refreshed_since_get [of t url c k "tick d s"])
  next
    case (ok known s1)
    with since have s1: "refreshed_since t (cache_key url c k) s1"
      by (auto intro: refreshed_since_get [of t url c k "tick d s"])
    from get_signer_addresses_ok [OF inv' ok(1)] since(2) have "t \<le> clock s1"
      by (simp add: chain_frame_def)
    with ok(2) s1 show ?thesis by (auto split: if_splits intro: refreshed_since_miss)
  qed
  ultimately show ?thesis by simp
qed

lemma refreshed_since_run:
  assumes "chain_inv E url c s" "refreshed_since t (cache_key url c k) s" "t \<le> clock s"
    and "s' = foldl (\<lambda>s q. snd (list_query E url c q s)) s qs"
  shows "chain_inv E url c s' \<and> refreshed_since t (cache_key url c k) s' \<and> t \<le> clock s'"
  using assms(1-3) unfolding assms(4)
proof (induction qs arbitrary: s)
  case Nil
  then show ?case by simp
next
  case (Cons q qs)
  obtain r s1 where q: "list_query E url c q s = (r, s1)" by force
  from refreshed_since_query [OF Cons.prems q] node_list.inv_step [OF Cons.prems(1) q]
  show ?case using Cons.IH [of s1] by (simp add: q)
qed

lemma forced_stamp:
  assumes inv: "chain_inv E url c s" and "forces_refresh E url c app x s"
    and call: "get_signer_addresses_for E url c app x s = (r, s')"
  shows "refreshed_since (clock s') (cache_key url c app) s'"
proof -
  from assms(2) obtain known s1 where g: "get_signer_addresses E url c app s = (Inr known, s1)"
    and x: "x \<notin> set known" and none: "miss_settled (cache_key url c app) x s1 = None"
    by (auto simp: forces_refresh_def split: prod.splits sum.splits)
  from get_signer_addresses_entry [OF g] obtain e where
    e: "hm_get (node_list_cache s1) (cache_key url c app) = Some e" .
  from call g x have "miss_locked E url c app x known s1 = (r, s')"
    by (simp add: get_signer_addresses_for_def sbind_def)
  then show ?thesis
    by (cases rule: miss_locked_cases)
      (auto simp: none e refreshed_since_def last_refresh_def)
qed

lemma elapsed_ge: "\<not> elapsed now t < MISS_REFRESH_MIN \<Longrightarrow> t + MISS_REFRESH_MIN \<le> now"
  by (simp add: elapsed_def MISS_REFRESH_MIN_def from_secs_def)

lemma unsettled_not_recent:
  assumes "miss_settled key y s = None" "refreshed_since t key s"
  shows "t + MISS_REFRESH_MIN \<le> clock s"
proof -
  from assms(2) obtain e where e: "hm_get (node_list_cache s) key = Some e"
    and t: "t \<le> max (fetched_at e) (case miss_refresh_at e of Some m \<Rightarrow> m | None \<Rightarrow> 0)"
    by (auto simp: refreshed_since_def last_refresh_def split: option.splits)
  with assms(1) have "fetched_at e + MISS_REFRESH_MIN \<le> clock s"
    "\<And>m. miss_refresh_at e = Some m \<Longrightarrow> m + MISS_REFRESH_MIN \<le> clock s"
    by (auto simp: miss_settled_def Let_def intro!: elapsed_ge split: if_splits)
  with t show ?thesis by (cases "miss_refresh_at e") (auto simp: max_def split: if_splits)
qed

lemma forced_not_recent:
  assumes "forces_refresh E url c app y s" "get_signer_addresses E url c app s = (r, s')"
    and "refreshed_since t (cache_key url c app) s'"
  shows "t + MISS_REFRESH_MIN \<le> clock s'"
proof (rule unsettled_not_recent [OF _ assms(3)])
  from assms(1,2) show "miss_settled (cache_key url c app) y s' = None"
    by (auto simp: forces_refresh_def split: sum.splits)
qed

lemma fetch_node_list_succeeds:
  assumes inv: "chain_inv E url c s"
    and "hm_get (providers s) url \<noteq> None \<or> provider_try_from E url = Inr ()"
    and "parse_address E c = Some cc" "rpc_node_list E (clock s) url cc app = (Inr l, d)"
  shows "\<exists>s1. fetch_node_list E url c app s = (Inr l, s1)"
proof -
  obtain s1 where s1: "provider_for E url s = (Inr url, s1)" "clock s1 = clock s"
  proof (cases "hm_get (providers s) url")
    case None
    with assms(2) have "provider_try_from E url = Inr ()" by simp
    with None that show ?thesis by (simp add: provider_for_def)
  next
    case (Some p)
    with chain_inv_providers [OF inv] have "p = url" by blast
    with Some that show ?thesis by (simp add: provider_for_def)
  qed
  then show ?thesis
    using assms(3,4) by (simp add: fetch_node_list_def sbind_def parse_contract_def)
qed

section \<open>A concrete chain\<close>

text \<open>A chain that always lists the two given signers and answers in one second.\<close>

definition demo_addr1 :: address where
  "demo_addr1 = replicate 20 7"

definition demo_addr2 :: address where
  "demo_addr2 = replicate 20 9"

definition demo_chain :: chain_env where
  "demo_chain = seal_crates.extend demo_seal (chain_env.fields
     (\<lambda>t. word_of_nat (t div 1000000000)) (\<lambda>url. Inr ()) (\<lambda>s. Some [1])
     (\<lambda>t url c app. (Inr [demo_addr1, demo_addr2], 1000000000))
     (\<lambda>t url c app. (Inr demo_addr1, 1000000000)))"

lemma demo_chain_simps [simp]:
  "provider_try_from demo_chain url = Inr ()"
  "parse_address demo_chain a = Some [1]"
  "rpc_node_list demo_chain t url c app = (Inr [demo_addr1, demo_addr2], 1000000000)"
  by (simp_all add: demo_chain_def seal_crates.defs chain_env.defs)

text \<open>A process ten seconds after it looked the list up for the first time.\<close>

definition demo_chain_warm :: chain_proc where
  "demo_chain_warm = \<lparr> clock = 10000000000, mets = metrics_new 0, providers = [(''u'', ''u'')],
     node_list_cache = [(cache_key ''u'' ''c'' ''app'',
       \<lparr> addrs = [demo_addr1], fetched_at = 1000000000, miss_refresh_at = None \<rparr>)] \<rparr>"

definition demo_stale_chain :: chain_env where
  "demo_stale_chain = demo_chain\<lparr>rpc_node_list :=
     (\<lambda>t url c app. (Inr (if t = 0 then [demo_addr1] else [demo_addr1, demo_addr2]), 1000000000))\<rparr>"

lemma demo_stale_chain_simps [simp]:
  "provider_try_from demo_stale_chain url = Inr ()"
  "parse_address demo_stale_chain a = Some [1]"
  "rpc_node_list demo_stale_chain t url c app =
     (Inr (if t = 0 then [demo_addr1] else [demo_addr1, demo_addr2]), 1000000000)"
  by (simp_all add: demo_stale_chain_def)

lemma demo_chain_warm_inv: "chain_inv demo_stale_chain ''u'' ''c'' demo_chain_warm"
  by (auto simp: chain_inv_def demo_chain_warm_def hm_get_def entry_ok_def chain_said_def
      cache_key_def split: if_splits intro!: exI [of _ 0])

lemmas demo_lookup_defs = get_signer_addresses_for_def get_signer_addresses_def
  refresh_locked_def miss_locked_def miss_settled_def fresh_hit_def fetch_node_list_def
  provider_for_def parse_contract_def sbind_def Let_def elapsed_def NODE_LIST_TTL_def
  MISS_REFRESH_MIN_def from_secs_def demo_chain_warm_def hm_get_def hm_insert_def hm_empty_def bump_def
  tick_def

section \<open>Properties\<close>

text \<open>Whatever the cache and the chain do, a list that \<open>get_signer_addresses_for\<close> returns is an answer
  the chain gave for that very app, and it is at most 30 s old unless a chain call of this
  lookup failed (the stale fallback); the tables keep their invariant.\<close>

theorem signer_list_from_chain:
  assumes "chain_inv E url c s"
    and "get_signer_addresses_for E url c app signer s = (Inr a, s')"
  shows "chain_inv E url c s' \<and>
    (\<exists>t t'. chain_said E url c app a t t' \<and> t' \<le> clock s' \<and>
       (elapsed (clock s') t' < NODE_LIST_TTL \<or>
        chain_rpc_fail (mets s') \<noteq> chain_rpc_fail (mets s)))"
  using get_signer_addresses_for_ok [OF assms] by (simp add: list_ok_def)

theorem signer_list_from_chain_witness:
  "\<exists>s' t t'. get_signer_addresses_for demo_stale_chain ''u'' ''c'' ''app'' demo_addr2 demo_chain_warm
      = (Inr [demo_addr1, demo_addr2], s') \<and>
     chain_said demo_stale_chain ''u'' ''c'' ''app'' [demo_addr1, demo_addr2] t t' \<and> t' \<le> clock s'"
proof -
  have "\<exists>s'. get_signer_addresses_for demo_stale_chain ''u'' ''c'' ''app'' demo_addr2 demo_chain_warm
      = (Inr [demo_addr1, demo_addr2], s')"
    by (simp add: demo_lookup_defs demo_addr1_def demo_addr2_def)
  then obtain s' where s': "get_signer_addresses_for demo_stale_chain ''u'' ''c'' ''app'' demo_addr2
      demo_chain_warm = (Inr [demo_addr1, demo_addr2], s')" ..
  from signer_list_from_chain [OF demo_chain_warm_inv s'] s' show ?thesis by blast
qed

text \<open>Forced refreshes of one app's list are at least five seconds apart: when a lookup of a missing
  signer asks the chain, whatever lookups (of any app and signer, at any speed) follow, the next
  lookup that forces a refresh of the same app starts it no sooner than 5 s after the first
  one ended, whether that one succeeded or not.\<close>

theorem forced_refresh_floor:
  assumes "chain_inv E url c s" "forces_refresh E url c app x s"
    and "get_signer_addresses_for E url c app x s = (r, s1)"
    and "s2 = foldl (\<lambda>s q. snd (list_query E url c q s)) s1 qs"
    and "forces_refresh E url c app y (tick d s2)"
    and "get_signer_addresses E url c app (tick d s2) = (r', s3)"
  shows "clock s1 + MISS_REFRESH_MIN \<le> clock s3"
proof -
  from get_signer_addresses_for_ok [OF assms(1,3)] have "chain_inv E url c s1" by simp
  from refreshed_since_run [OF this forced_stamp [OF assms(1-3)] order_refl assms(4)]
  have "refreshed_since (clock s1) (cache_key url c app) (tick d s2)" "clock s1 \<le> clock (tick d s2)"
    by simp_all
  then have "refreshed_since (clock s1) (cache_key url c app) s3"
    using assms(6) by (rule refreshed_since_get)
  with assms(5,6) show ?thesis by (rule forced_not_recent)
qed

theorem forced_refresh_floor_witness:
  "\<exists>s1. snd (get_signer_addresses_for demo_stale_chain ''u'' ''c'' ''app'' [] demo_chain_warm) = s1 \<and>
     forces_refresh demo_stale_chain ''u'' ''c'' ''app'' [] (tick 6000000000 s1) \<and>
     clock s1 + MISS_REFRESH_MIN \<le>
       clock (snd (get_signer_addresses demo_stale_chain ''u'' ''c'' ''app'' (tick 6000000000 s1)))"
proof -
  obtain r s1 where s1: "get_signer_addresses_for demo_stale_chain ''u'' ''c'' ''app'' []
      demo_chain_warm = (r, s1)" by force
  obtain r' s3 where s3: "get_signer_addresses demo_stale_chain ''u'' ''c'' ''app'' (tick 6000000000 s1)
      = (r', s3)" by force
  have f1: "forces_refresh demo_stale_chain ''u'' ''c'' ''app'' [] demo_chain_warm"
    by (simp add: forces_refresh_def demo_lookup_defs demo_addr1_def)
  have f2: "forces_refresh demo_stale_chain ''u'' ''c'' ''app'' [] (tick 6000000000 s1)"
    using s1 by (auto simp: forces_refresh_def demo_lookup_defs demo_addr1_def demo_addr2_def)
  from forced_refresh_floor [OF demo_chain_warm_inv f1 s1, of s1 "[]", OF _ f2 s3] f2
  show ?thesis by (simp add: s1 s3)
qed

text \<open>A signer registered on chain moments ago is not refused because of the cache: if the chain is
  reachable and lists it, and the app's list was not refreshed in the last 5 s, the lookup
  returns a list that contains it.\<close>

theorem new_signer_found:
  assumes inv: "chain_inv E url c s"
    and prov: "hm_get (providers s) url \<noteq> None \<or> provider_try_from E url = Inr ()"
    and addr: "parse_address E c = Some cc"
    and listed: "rpc_node_list E (clock s) url cc app = (Inr l, d)" "signer \<in> set l"
    and floor: "\<forall>r. last_refresh (cache_key url c app) s = Some r \<longrightarrow> r + MISS_REFRESH_MIN \<le> clock s"
  shows "\<exists>a s'. get_signer_addresses_for E url c app signer s = (Inr a, s') \<and> signer \<in> set a"
proof -
  obtain s1 where fetch: "fetch_node_list E url c app s = (Inr l, s1)"
    using fetch_node_list_succeeds [OF inv prov addr listed(1)] by blast
  show ?thesis
  proof (cases "fresh_hit (cache_key url c app) s")
    case None
    with fetch listed(2) show ?thesis
      by (auto simp: get_signer_addresses_for_def get_signer_addresses_def refresh_locked_def
          sbind_def Let_def)
  next
    case (Some known)
    then obtain e where e: "hm_get (node_list_cache s) (cache_key url c app) = Some e" "addrs e = known"
      by (auto simp: fresh_hit_def split: option.splits if_splits)
    with floor have "fetched_at e + MISS_REFRESH_MIN \<le> clock s"
      "\<forall>m. miss_refresh_at e = Some m \<longrightarrow> m + MISS_REFRESH_MIN \<le> clock s"
      by (auto simp: last_refresh_def)
    with e have "signer \<notin> set known \<Longrightarrow> miss_settled (cache_key url c app) signer s = None"
      by (auto simp: miss_settled_def elapsed_def Let_def split: option.splits)
    with Some fetch listed(2) show ?thesis
      by (auto simp: get_signer_addresses_for_def get_signer_addresses_def miss_locked_def
          sbind_def Let_def)
  qed
qed

theorem new_signer_found_witness:
  "\<exists>a s'. get_signer_addresses_for demo_stale_chain ''u'' ''c'' ''app'' demo_addr2 demo_chain_warm
     = (Inr a, s') \<and> demo_addr2 \<in> set a"
proof (rule new_signer_found [OF demo_chain_warm_inv])
  show "rpc_node_list demo_stale_chain (clock demo_chain_warm) ''u'' [1] ''app''
      = (Inr [demo_addr1, demo_addr2], 1000000000)"
    by (simp add: demo_chain_warm_def)
qed (simp_all add: last_refresh_def demo_lookup_defs)

end
