(* ===== verification/Lookups.thy ===== *)
theory Lookups
  imports Chain
begin

text \<open>
  The node-list cache of \<open>src/chain.rs\<close> under concurrency. The functions of theory \<open>Chain\<close> are one lookup
  that nothing interrupts; the server runs many at once, and every \<open>await\<close> of
  \<open>get_signer_addresses_for\<close> is a point where others run: at the refresh lock of the process, at the
  lock of the app's forced refreshes, and while a call of the chain is under way. A lookup is here a
  task with a program point; one step takes it to its next \<open>await\<close>. Tasks interleave freely, time passes
  between steps, new requests arrive, and the runtime may drop a task at any point (a client that
  hung up), which releases the locks it holds and stores nothing. The cache itself is locked only
  inside a step.

  Shown for every interleaving: the locks make the refreshes single-flight; calls of the chain keep
  the distances the comments promise to calls that ended before them (not to calls for expired lists that failed and
  to dropped ones, as two examples show); what a lookup returns is an answer of the chain, current when
  the lookup began or later unless a call for that app failed meanwhile; no lookup is stuck; and the
  sequential functions are the runs that nothing interrupts.
\<close>

section \<open>Definitions\<close>

subsection \<open>Tasks\<close>

text \<open>
  Where a lookup is: before the fast path, waiting for the refresh lock, holding it, asking the chain
  under it (with the answer under way and the instant it is due), and the same for the lock of the
  app's forced refreshes, with the list that lacks the signer.
\<close>

datatype lookup_phase =
    Arrived
  | AwaitRefresh
  | HoldRefresh
  | CallRefresh "kms_error + address list" instant
  | AwaitMiss "address list"
  | HoldMiss "address list"
  | CallMiss "address list" "kms_error + address list" instant
  | Answered "kms_error + address list"
  | Dropped

text \<open>
  A lookup of an app's list, for a signer (\<open>get_signer_addresses_for\<close>) or for none
  (\<open>get_signer_addresses\<close>).
\<close>

record lookup =
  lapp :: string
  lsigner :: "address option"
  lstart :: instant
  lphase :: lookup_phase

text \<open>The calls of the chain, for the statements: which refresh, of which app, when, and what it returned.\<close>

datatype refresh_kind = Expired | Forced

datatype chain_call =
    Asked refresh_kind string instant
  | Replied refresh_kind string instant "kms_error + address list"

text \<open>
  The locks are given by their holders. An entry that \<open>miss_locks\<close> does not have stands for a lock that
  is free or not made yet.
\<close>

record chain_tasks = chain_proc +
  refresh_lock :: "nat option"
  miss_locks :: "(string, nat) hash_map"
  lookups :: "lookup list"
  calls :: "chain_call list"

subsection \<open>What happens to an answer\<close>

definition refresh_answer ::
    "string \<Rightarrow> kms_error + address list \<Rightarrow> 'z chain_proc_scheme \<Rightarrow> (kms_error + address list) \<times> 'z chain_proc_scheme" where
  "refresh_answer key r s =
     (case r of
        Inr a \<Rightarrow>
          (let s1 = bump chain_rpc_ok_update s in
           (Inr a, s1\<lparr>node_list_cache :=
              hm_insert key \<lparr> addrs = a, fetched_at = clock s1, miss_refresh_at = None \<rparr> (node_list_cache s1)\<rparr>))
      | Inl e \<Rightarrow>
          (let s1 = bump chain_rpc_fail_update s in
           case hm_get (node_list_cache s1) key of
             Some old \<Rightarrow> (Inr (addrs old), bump chain_stale_served_update s1)
           | None \<Rightarrow> (Inl e, s1)))"

definition miss_answer ::
    "string \<Rightarrow> address list \<Rightarrow> kms_error + address list \<Rightarrow> 'z chain_proc_scheme
       \<Rightarrow> (kms_error + address list) \<times> 'z chain_proc_scheme" where
  "miss_answer key known r s =
     (case r of
        Inr fresh \<Rightarrow>
          (let s1 = bump chain_rpc_ok_update s in
           (Inr fresh, s1\<lparr>node_list_cache :=
              hm_insert key \<lparr> addrs = fresh, fetched_at = clock s1, miss_refresh_at = Some (clock s1) \<rparr>
                (node_list_cache s1)\<rparr>))
      | Inl e \<Rightarrow>
          (let s1 = bump chain_rpc_fail_update s in
           (Inr known,
            case hm_get (node_list_cache s1) key of
              Some entry \<Rightarrow>
                s1\<lparr>node_list_cache :=
                  hm_insert key (entry\<lparr>miss_refresh_at := Some (clock s1)\<rparr>) (node_list_cache s1)\<rparr>
            | None \<Rightarrow> s1)))"

subsection \<open>Steps\<close>

definition set_phase :: "nat \<Rightarrow> lookup_phase \<Rightarrow> chain_tasks \<Rightarrow> chain_tasks" where
  "set_phase i p s = s\<lparr>lookups := (lookups s)[i := (lookups s ! i)\<lparr>lphase := p\<rparr>]\<rparr>"

text \<open>After \<open>get_signer_addresses\<close>: an error is returned, and so is a list that has the signer.\<close>

definition after_list :: "lookup \<Rightarrow> kms_error + address list \<Rightarrow> lookup_phase" where
  "after_list l r =
     (case (r, lsigner l) of
        (Inr a, Some signer) \<Rightarrow> if signer \<in> set a then Answered r else AwaitMiss a
      | _ \<Rightarrow> Answered r)"

text \<open>One task from its await to the next; \<open>None\<close> when it is still waiting, or done.\<close>

definition lookup_step ::
    "'y chain_env_scheme \<Rightarrow> string \<Rightarrow> string \<Rightarrow> nat \<Rightarrow> chain_tasks \<Rightarrow> chain_tasks option" where
  "lookup_step E url contract i s =
     (let l = lookups s ! i; app = lapp l; key = cache_key url contract app in
      case lphase l of
        Arrived \<Rightarrow>
          (case fresh_hit key s of
             Some a \<Rightarrow> Some (set_phase i (after_list l (Inr a)) s)
           | None \<Rightarrow> Some (set_phase i AwaitRefresh s))
      | AwaitRefresh \<Rightarrow>
          (if refresh_lock s = None then Some (set_phase i HoldRefresh (s\<lparr>refresh_lock := Some i\<rparr>)) else None)
      | HoldRefresh \<Rightarrow>
          (case fresh_hit key s of
             Some a \<Rightarrow> Some (set_phase i (after_list l (Inr a)) (s\<lparr>refresh_lock := None\<rparr>))
           | None \<Rightarrow>
               (let (r, s1) = fetch_node_list E url contract app s in
                Some (set_phase i (CallRefresh r (clock s1))
                  (s1\<lparr>clock := clock s, calls := Asked Expired app (clock s) # calls s\<rparr>))))
      | CallRefresh r due \<Rightarrow>
          (if due \<le> clock s then
             (let (r', s1) = refresh_answer key r s in
              Some (set_phase i (after_list l r')
                (s1\<lparr>refresh_lock := None, calls := Replied Expired app (clock s) r # calls s\<rparr>)))
           else None)
      | AwaitMiss known \<Rightarrow>
          (if hm_get (miss_locks s) key = None
           then Some (set_phase i (HoldMiss known) (s\<lparr>miss_locks := hm_insert key i (miss_locks s)\<rparr>))
           else None)
      | HoldMiss known \<Rightarrow>
          (case lsigner l of
             None \<Rightarrow> None
           | Some signer \<Rightarrow>
               (case miss_settled key signer s of
                  Some a \<Rightarrow> Some (set_phase i (Answered (Inr a)) (s\<lparr>miss_locks := hm_remove key (miss_locks s)\<rparr>))
                | None \<Rightarrow>
                    (let (r, s1) = fetch_node_list E url contract app s in
                     Some (set_phase i (CallMiss known r (clock s1))
                       (s1\<lparr>clock := clock s, calls := Asked Forced app (clock s) # calls s\<rparr>)))))
      | CallMiss known r due \<Rightarrow>
          (if due \<le> clock s then
             (let (r', s1) = miss_answer key known r s in
              Some (set_phase i (Answered r')
                (s1\<lparr>miss_locks := hm_remove key (miss_locks s),
                    calls := Replied Forced app (clock s) r # calls s\<rparr>)))
           else None)
      | Answered _ \<Rightarrow> None
      | Dropped \<Rightarrow> None)"

fun refreshing :: "lookup_phase \<Rightarrow> bool" where
  "refreshing HoldRefresh = True"
| "refreshing (CallRefresh _ _) = True"
| "refreshing _ = False"

fun missing :: "lookup_phase \<Rightarrow> bool" where
  "missing (HoldMiss _) = True"
| "missing (CallMiss _ _ _) = True"
| "missing _ = False"

fun finished :: "lookup_phase \<Rightarrow> bool" where
  "finished (Answered _) = True"
| "finished Dropped = True"
| "finished _ = False"

text \<open>A dropped future drops the guards it owns.\<close>

definition drop_lookup :: "string \<Rightarrow> string \<Rightarrow> nat \<Rightarrow> chain_tasks \<Rightarrow> chain_tasks" where
  "drop_lookup url contract i s =
     (let l = lookups s ! i; key = cache_key url contract (lapp l) in
      set_phase i Dropped
        (s\<lparr>refresh_lock := (if refreshing (lphase l) then None else refresh_lock s),
           miss_locks := (if missing (lphase l) then hm_remove key (miss_locks s) else miss_locks s)\<rparr>))"

definition arrive :: "string \<Rightarrow> address option \<Rightarrow> chain_tasks \<Rightarrow> chain_tasks" where
  "arrive app signer s =
     s\<lparr>lookups := lookups s @ [\<lparr> lapp = app, lsigner = signer, lstart = clock s, lphase = Arrived \<rparr>]\<rparr>"

text \<open>The scheduler lets a task go on, or lets time pass.\<close>

inductive sched_step :: "'y chain_env_scheme \<Rightarrow> string \<Rightarrow> string \<Rightarrow> chain_tasks \<Rightarrow> chain_tasks \<Rightarrow> bool"
  for E :: "'y chain_env_scheme" and url contract :: string where
  run: "i < length (lookups s) \<Longrightarrow> lookup_step E url contract i s = Some s' \<Longrightarrow> sched_step E url contract s s'"
| pass: "sched_step E url contract s (tick d s)"

inductive task_step :: "'y chain_env_scheme \<Rightarrow> string \<Rightarrow> string \<Rightarrow> chain_tasks \<Rightarrow> chain_tasks \<Rightarrow> bool"
  for E :: "'y chain_env_scheme" and url contract :: string where
  sched: "sched_step E url contract s s' \<Longrightarrow> task_step E url contract s s'"
| arrives: "task_step E url contract s (arrive app signer s)"
| drops: "i < length (lookups s) \<Longrightarrow> \<not> finished (lphase (lookups s ! i)) \<Longrightarrow>
    task_step E url contract s (drop_lookup url contract i s)"

text \<open>A process that has looked nothing up yet.\<close>

definition tasks_init :: "chain_tasks \<Rightarrow> bool" where
  "tasks_init s \<longleftrightarrow> providers s = hm_empty \<and> node_list_cache s = hm_empty \<and> refresh_lock s = None \<and>
     miss_locks s = hm_empty \<and> lookups s = [] \<and> calls s = []"

definition reachable :: "'y chain_env_scheme \<Rightarrow> string \<Rightarrow> string \<Rightarrow> chain_tasks \<Rightarrow> bool" where
  "reachable E url contract s \<longleftrightarrow> (\<exists>s0. tasks_init s0 \<and> (task_step E url contract)\<^sup>*\<^sup>* s0 s)"


section \<open>Specification\<close>

text \<open>A call for the app asked the chain, and the chain gave the list \<open>a\<close> by \<open>u\<close>.\<close>

definition asked_for ::
    "'y chain_env_scheme \<Rightarrow> string \<Rightarrow> string \<Rightarrow> chain_tasks \<Rightarrow> refresh_kind \<Rightarrow> string \<Rightarrow> address list \<Rightarrow> instant \<Rightarrow> bool" where
  "asked_for E url contract s k app a u \<longleftrightarrow>
     (\<exists>t t'. Asked k app t \<in> set (calls s) \<and> chain_said E url contract app a t t' \<and> t' \<le> u)"

text \<open>The process heard the list \<open>a\<close> at \<open>u\<close>: at that instant a call for the app returned it.\<close>

definition heard ::
    "'y chain_env_scheme \<Rightarrow> string \<Rightarrow> string \<Rightarrow> chain_tasks \<Rightarrow> string \<Rightarrow> address list \<Rightarrow> instant \<Rightarrow> bool" where
  "heard E url contract s app a u \<longleftrightarrow>
     (\<exists>k. Replied k app u (Inr a) \<in> set (calls s) \<and> asked_for E url contract s k app a u)"

definition failed_since :: "string \<Rightarrow> instant \<Rightarrow> chain_tasks \<Rightarrow> bool" where
  "failed_since app t s \<longleftrightarrow> (\<exists>k u e. Replied k app u (Inl e) \<in> set (calls s) \<and> t \<le> u)"

text \<open>A stamp that was less than the TTL old when the lookup began, or a call that failed since.\<close>

definition current :: "lookup \<Rightarrow> instant \<Rightarrow> chain_tasks \<Rightarrow> bool" where
  "current l u s \<longleftrightarrow> lstart l < u + NODE_LIST_TTL \<or> failed_since (lapp l) (lstart l) s"

definition usable :: "'y chain_env_scheme \<Rightarrow> string \<Rightarrow> string \<Rightarrow> chain_tasks \<Rightarrow> lookup \<Rightarrow> address list \<Rightarrow> bool" where
  "usable E url contract s l a \<longleftrightarrow>
     (\<exists>u. heard E url contract s (lapp l) a u \<and> u \<le> clock s \<and> current l u s)"

definition entry_current :: "string \<Rightarrow> string \<Rightarrow> chain_tasks \<Rightarrow> lookup \<Rightarrow> bool" where
  "entry_current url contract s l \<longleftrightarrow>
     (\<exists>e. hm_get (node_list_cache s) (cache_key url contract (lapp l)) = Some e \<and> current l (fetched_at e) s)"

definition answer_good ::
    "'y chain_env_scheme \<Rightarrow> string \<Rightarrow> string \<Rightarrow> chain_tasks \<Rightarrow> refresh_kind \<Rightarrow> lookup \<Rightarrow> kms_error + address list
       \<Rightarrow> instant \<Rightarrow> bool" where
  "answer_good E url contract s k l r due \<longleftrightarrow> (\<forall>a. r = Inr a \<longrightarrow> asked_for E url contract s k (lapp l) a due)"

definition has_list :: "'y chain_env_scheme \<Rightarrow> string \<Rightarrow> string \<Rightarrow> chain_tasks \<Rightarrow> lookup \<Rightarrow> address list \<Rightarrow> bool" where
  "has_list E url contract s l known \<longleftrightarrow>
     usable E url contract s l known \<and> entry_current url contract s l \<and> lsigner l \<noteq> None"

fun phase_good :: "'y chain_env_scheme \<Rightarrow> string \<Rightarrow> string \<Rightarrow> chain_tasks \<Rightarrow> lookup \<Rightarrow> lookup_phase \<Rightarrow> bool" where
  "phase_good E url contract s l (CallRefresh r due) = answer_good E url contract s Expired l r due"
| "phase_good E url contract s l (AwaitMiss known) = has_list E url contract s l known"
| "phase_good E url contract s l (HoldMiss known) = has_list E url contract s l known"
| "phase_good E url contract s l (CallMiss known r due) =
     (has_list E url contract s l known \<and> answer_good E url contract s Forced l r due)"
| "phase_good E url contract s l (Answered r) = (\<forall>a. r = Inr a \<longrightarrow> usable E url contract s l a)"
| "phase_good E url contract s l _ = True"

definition cache_good :: "'y chain_env_scheme \<Rightarrow> string \<Rightarrow> string \<Rightarrow> chain_tasks \<Rightarrow> bool" where
  "cache_good E url contract s \<longleftrightarrow>
     (\<forall>p. hm_get (providers s) url = Some p \<longrightarrow> p = url) \<and>
     (\<forall>app e. hm_get (node_list_cache s) (cache_key url contract app) = Some e
        \<longrightarrow> heard E url contract s app (addrs e) (fetched_at e) \<and> fetched_at e \<le> clock s)"

definition lookup_good :: "'y chain_env_scheme \<Rightarrow> string \<Rightarrow> string \<Rightarrow> chain_tasks \<Rightarrow> lookup \<Rightarrow> bool" where
  "lookup_good E url contract s l \<longleftrightarrow> lstart l \<le> clock s \<and> phase_good E url contract s l (lphase l)"

text \<open>The invariant of the data: the cache, and every lookup.\<close>

definition tasks_inv :: "'y chain_env_scheme \<Rightarrow> string \<Rightarrow> string \<Rightarrow> chain_tasks \<Rightarrow> bool" where
  "tasks_inv E url contract s \<longleftrightarrow>
     cache_good E url contract s \<and> (\<forall>l \<in> set (lookups s). lookup_good E url contract s l)"

text \<open>The invariant of the locks: a lock is held exactly by the task at a point where it holds it.\<close>

definition locks_inv :: "string \<Rightarrow> string \<Rightarrow> chain_tasks \<Rightarrow> bool" where
  "locks_inv url contract s \<longleftrightarrow>
     (\<forall>i. refresh_lock s = Some i \<longleftrightarrow> i < length (lookups s) \<and> refreshing (lphase (lookups s ! i))) \<and>
     (\<forall>app i. hm_get (miss_locks s) (cache_key url contract app) = Some i \<longleftrightarrow>
        i < length (lookups s) \<and> lapp (lookups s ! i) = app \<and> missing (lphase (lookups s ! i)))"

text \<open>How far a call of one kind must be from the end of an earlier one.\<close>

definition floor_of :: "refresh_kind \<Rightarrow> nat" where
  "floor_of k = (case k of Expired \<Rightarrow> NODE_LIST_TTL | Forced \<Rightarrow> MISS_REFRESH_MIN)"

text \<open>The ends of calls that hold back a call of kind \<open>k\<close>: successes, and for a forced one forced failures.\<close>

definition holds_back :: "refresh_kind \<Rightarrow> refresh_kind \<Rightarrow> bool \<Rightarrow> bool" where
  "holds_back k k' ok \<longleftrightarrow> ok \<or> k = Forced \<and> k' = Forced"

fun spaced :: "chain_call list \<Rightarrow> bool" where
  "spaced [] = True"
| "spaced (Asked k app t # cs) =
     ((\<forall>k' t' r. Replied k' app t' r \<in> set cs \<and> holds_back k k' (is_ok r) \<longrightarrow> t' + floor_of k \<le> t) \<and> spaced cs)"
| "spaced (Replied k app t r # cs) = spaced cs"

definition reply_noted :: "string \<Rightarrow> string \<Rightarrow> chain_tasks \<Rightarrow> chain_call \<Rightarrow> bool" where
  "reply_noted url contract s c =
     (case c of
        Asked _ _ _ \<Rightarrow> True
      | Replied k app t r \<Rightarrow>
          t \<le> clock s \<and>
          (is_ok r \<longrightarrow> (\<exists>e. hm_get (node_list_cache s) (cache_key url contract app) = Some e \<and> t \<le> fetched_at e)) \<and>
          (k = Forced \<longrightarrow> refreshed_since t (cache_key url contract app) s))"

definition calls_inv :: "string \<Rightarrow> string \<Rightarrow> chain_tasks \<Rightarrow> bool" where
  "calls_inv url contract s \<longleftrightarrow> spaced (calls s) \<and> (\<forall>c \<in> set (calls s). reply_noted url contract s c)"

section \<open>Lemmas\<close>

subsection \<open>The sequential functions in these terms\<close>

lemma refresh_locked_answer:
  "refresh_locked E url c app s =
     (case fresh_hit (cache_key url c app) s of
        Some a \<Rightarrow> (Inr a, s)
      | None \<Rightarrow> let (r, s1) = fetch_node_list E url c app s in refresh_answer (cache_key url c app) r s1)"
  by (auto simp: refresh_locked_def refresh_answer_def Let_def split: option.splits prod.splits sum.splits)

lemma miss_locked_answer:
  "miss_locked E url c app signer known s =
     (case miss_settled (cache_key url c app) signer s of
        Some a \<Rightarrow> (Inr a, s)
      | None \<Rightarrow> let (r, s1) = fetch_node_list E url c app s in miss_answer (cache_key url c app) known r s1)"
  by (auto simp: miss_locked_def miss_answer_def Let_def split: option.splits prod.splits sum.splits)

subsection \<open>Steps\<close>

lemma set_phase_simps [simp]:
  "clock (set_phase i p s) = clock s" "providers (set_phase i p s) = providers s"
  "node_list_cache (set_phase i p s) = node_list_cache s" "refresh_lock (set_phase i p s) = refresh_lock s"
  "miss_locks (set_phase i p s) = miss_locks s" "calls (set_phase i p s) = calls s"
  "lookups (set_phase i p s) = (lookups s)[i := (lookups s ! i)\<lparr>lphase := p\<rparr>]"
  by (simp_all add: set_phase_def)

lemma tick_tasks_simps [simp]:
  "refresh_lock (tick d s) = refresh_lock s" "miss_locks (tick d s) = miss_locks s"
  "lookups (tick d s) = lookups s" "calls (tick d s) = calls s"
  by (simp_all add: tick_def)

text \<open>What a step of a task did, by the point it started from.\<close>

lemma lookup_step_cases [consumes 3, case_names hit wait lock rehit ask reply mlock settled mask mreply]:
  assumes "lookup_step E url c i s = Some s'"
    and "l = lookups s ! i" "key = cache_key url c (lapp l)"
  obtains
    a where "lphase l = Arrived" "fresh_hit key s = Some a" "s' = set_phase i (after_list l (Inr a)) s"
  | "lphase l = Arrived" "fresh_hit key s = None" "s' = set_phase i AwaitRefresh s"
  | "lphase l = AwaitRefresh" "refresh_lock s = None"
      "s' = set_phase i HoldRefresh (s\<lparr>refresh_lock := Some i\<rparr>)"
  | a where "lphase l = HoldRefresh" "fresh_hit key s = Some a"
      "s' = set_phase i (after_list l (Inr a)) (s\<lparr>refresh_lock := None\<rparr>)"
  | r s1 where "lphase l = HoldRefresh" "fresh_hit key s = None" "fetch_node_list E url c (lapp l) s = (r, s1)"
      "s' = set_phase i (CallRefresh r (clock s1))
         (s1\<lparr>clock := clock s, calls := Asked Expired (lapp l) (clock s) # calls s\<rparr>)"
  | r due r' s1 where "lphase l = CallRefresh r due" "due \<le> clock s" "refresh_answer key r s = (r', s1)"
      "s' = set_phase i (after_list l r')
         (s1\<lparr>refresh_lock := None, calls := Replied Expired (lapp l) (clock s) r # calls s\<rparr>)"
  | known where "lphase l = AwaitMiss known" "hm_get (miss_locks s) key = None"
      "s' = set_phase i (HoldMiss known) (s\<lparr>miss_locks := hm_insert key i (miss_locks s)\<rparr>)"
  | known signer a where "lphase l = HoldMiss known" "lsigner l = Some signer" "miss_settled key signer s = Some a"
      "s' = set_phase i (Answered (Inr a)) (s\<lparr>miss_locks := hm_remove key (miss_locks s)\<rparr>)"
  | known signer r s1 where "lphase l = HoldMiss known" "lsigner l = Some signer" "miss_settled key signer s = None"
      "fetch_node_list E url c (lapp l) s = (r, s1)"
      "s' = set_phase i (CallMiss known r (clock s1))
         (s1\<lparr>clock := clock s, calls := Asked Forced (lapp l) (clock s) # calls s\<rparr>)"
  | known r due r' s1 where "lphase l = CallMiss known r due" "due \<le> clock s" "miss_answer key known r s = (r', s1)"
      "s' = set_phase i (Answered r')
         (s1\<lparr>miss_locks := hm_remove key (miss_locks s),
             calls := Replied Forced (lapp l) (clock s) r # calls s\<rparr>)"
proof (cases "lphase l")
  case Arrived
  with assms that(1,2) show thesis by (cases "fresh_hit key s") (auto simp: lookup_step_def Let_def)
next
  case AwaitRefresh
  with assms that(3) show thesis by (auto simp: lookup_step_def Let_def split: if_splits)
next
  case HoldRefresh
  obtain r s1 where "fetch_node_list E url c (lapp l) s = (r, s1)" by force
  with HoldRefresh assms that(4,5) show thesis
    by (cases "fresh_hit key s") (auto simp: lookup_step_def Let_def)
next
  case (CallRefresh r due)
  obtain r' s1 where "refresh_answer key r s = (r', s1)" by force
  with CallRefresh assms that(6) show thesis by (auto simp: lookup_step_def Let_def split: if_splits)
next
  case (AwaitMiss known)
  with assms that(7) show thesis by (auto simp: lookup_step_def Let_def split: if_splits)
next
  case (HoldMiss known)
  with assms obtain signer where signer: "lsigner l = Some signer"
    by (auto simp: lookup_step_def Let_def split: option.splits)
  obtain r s1 where "fetch_node_list E url c (lapp l) s = (r, s1)" by force
  with HoldMiss signer assms that(8,9) show thesis
    by (cases "miss_settled key signer s") (auto simp: lookup_step_def Let_def)
next
  case (CallMiss known r due)
  obtain r' s1 where "miss_answer key known r s = (r', s1)" by force
  with CallMiss assms that(10) show thesis by (auto simp: lookup_step_def Let_def split: if_splits)
qed (use assms in \<open>auto simp: lookup_step_def Let_def\<close>)

text \<open>What becomes of an answer, on both outcomes.\<close>

lemma refresh_answer_frame:
  assumes "refresh_answer key r s = (r', s1)"
  shows "clock s1 = clock s" "providers s1 = providers s" "chain_proc.more s1 = chain_proc.more s"
  using assms by (auto simp: refresh_answer_def Let_def split: sum.splits option.splits)

lemma miss_answer_frame:
  assumes "miss_answer key known r s = (r', s1)"
  shows "clock s1 = clock s" "providers s1 = providers s" "chain_proc.more s1 = chain_proc.more s"
  using assms by (auto simp: miss_answer_def Let_def split: sum.splits option.splits)

lemma same_tasks:
  assumes "chain_proc.more s1 = chain_proc.more s"
  shows "lookups s1 = lookups s" "refresh_lock s1 = refresh_lock s" "miss_locks s1 = miss_locks s"
    "calls s1 = calls s"
  using assms by (cases s; cases s1; simp)+

lemma refresh_answer_cases [consumes 1, case_names fetched stale none]:
  assumes "refresh_answer key r s = (r', s1)"
  obtains
    a where "r = Inr a" "r' = Inr a"
      "node_list_cache s1 = hm_insert key \<lparr> addrs = a, fetched_at = clock s, miss_refresh_at = None \<rparr> (node_list_cache s)"
  | e old where "r = Inl e" "hm_get (node_list_cache s) key = Some old" "r' = Inr (addrs old)"
      "node_list_cache s1 = node_list_cache s"
  | e where "r = Inl e" "hm_get (node_list_cache s) key = None" "r' = Inl e" "node_list_cache s1 = node_list_cache s"
  using assms by (auto simp: refresh_answer_def Let_def split: sum.splits option.splits)

lemma miss_answer_cases [consumes 1, case_names fetched failed none]:
  assumes "miss_answer key known r s = (r', s1)"
  obtains
    a where "r = Inr a" "r' = Inr a"
      "node_list_cache s1 =
         hm_insert key \<lparr> addrs = a, fetched_at = clock s, miss_refresh_at = Some (clock s) \<rparr> (node_list_cache s)"
  | e old where "r = Inl e" "hm_get (node_list_cache s) key = Some old" "r' = Inr known"
      "node_list_cache s1 = hm_insert key (old\<lparr>miss_refresh_at := Some (clock s)\<rparr>) (node_list_cache s)"
  | e where "r = Inl e" "hm_get (node_list_cache s) key = None" "r' = Inr known" "node_list_cache s1 = node_list_cache s"
  using assms by (auto simp: miss_answer_def Let_def split: sum.splits option.splits)

subsection \<open>What a step leaves standing for the other tasks\<close>

definition grows :: "string \<Rightarrow> string \<Rightarrow> chain_tasks \<Rightarrow> chain_tasks \<Rightarrow> bool" where
  "grows url c s s' \<longleftrightarrow>
     clock s \<le> clock s' \<and> set (calls s) \<subseteq> set (calls s') \<and>
     (\<forall>app e. hm_get (node_list_cache s) (cache_key url c app) = Some e \<longrightarrow>
        (\<exists>e'. hm_get (node_list_cache s') (cache_key url c app) = Some e' \<and> fetched_at e \<le> fetched_at e'))"

lemma growsI:
  assumes "clock s \<le> clock s'" "set (calls s) \<subseteq> set (calls s')"
    and "node_list_cache s' = node_list_cache s \<or>
      (\<exists>app e'. node_list_cache s' = hm_insert (cache_key url c app) e' (node_list_cache s) \<and>
         (\<forall>e. hm_get (node_list_cache s) (cache_key url c app) = Some e \<longrightarrow> fetched_at e \<le> fetched_at e'))"
  shows "grows url c s s'"
  using assms unfolding grows_def by (auto split: if_splits)

lemma failed_since_grows: "grows url c s s' \<Longrightarrow> failed_since app t s \<Longrightarrow> failed_since app t s'"
  by (auto simp: grows_def failed_since_def)

lemma current_grows: "grows url c s s' \<Longrightarrow> current l u s \<Longrightarrow> u \<le> u' \<Longrightarrow> current l u' s'"
  by (auto simp: current_def intro: failed_since_grows)

lemma asked_for_grows: "grows url c s s' \<Longrightarrow> asked_for E url c s k app a u \<Longrightarrow> asked_for E url c s' k app a u"
  by (auto simp: grows_def asked_for_def)

lemma asked_for_mono: "asked_for E url c s k app a u \<Longrightarrow> u \<le> u' \<Longrightarrow> asked_for E url c s k app a u'"
  by (auto simp: asked_for_def intro: order_trans)

lemma heard_calls: "set (calls s) \<subseteq> set (calls s') \<Longrightarrow> heard E url c s app a u \<Longrightarrow> heard E url c s' app a u"
  by (auto simp: heard_def asked_for_def)

lemma heard_grows: "grows url c s s' \<Longrightarrow> heard E url c s app a u \<Longrightarrow> heard E url c s' app a u"
  unfolding grows_def by (blast intro: heard_calls)

lemma answer_good_grows: "grows url c s s' \<Longrightarrow> answer_good E url c s k l r due \<Longrightarrow> answer_good E url c s' k l r due"
  by (auto simp: answer_good_def intro: asked_for_grows)

lemma usable_grows: "grows url c s s' \<Longrightarrow> usable E url c s l a \<Longrightarrow> usable E url c s' l a"
  unfolding usable_def by (meson heard_grows current_grows grows_def order_refl order_trans)

lemma entry_current_grows: "grows url c s s' \<Longrightarrow> entry_current url c s l \<Longrightarrow> entry_current url c s' l"
  unfolding entry_current_def by (meson current_grows grows_def)

lemma has_list_grows: "grows url c s s' \<Longrightarrow> has_list E url c s l a \<Longrightarrow> has_list E url c s' l a"
  by (auto simp: has_list_def intro: usable_grows entry_current_grows)

lemma phase_good_grows: "grows url c s s' \<Longrightarrow> phase_good E url c s l p \<Longrightarrow> phase_good E url c s' l p"
  by (cases p) (auto intro: has_list_grows usable_grows answer_good_grows)

lemma lookup_good_grows: "grows url c s s' \<Longrightarrow> lookup_good E url c s l \<Longrightarrow> lookup_good E url c s' l"
  by (auto simp: lookup_good_def intro: phase_good_grows) (auto simp: grows_def)

lemma lphase_irrelevant [simp]:
  "current (l\<lparr>lphase := q\<rparr>) u s = current l u s"
  "usable E url c s (l\<lparr>lphase := q\<rparr>) a = usable E url c s l a"
  "entry_current url c s (l\<lparr>lphase := q\<rparr>) = entry_current url c s l"
  "answer_good E url c s k (l\<lparr>lphase := q\<rparr>) r due = answer_good E url c s k l r due"
  "has_list E url c s (l\<lparr>lphase := q\<rparr>) a = has_list E url c s l a"
  by (simp_all add: current_def usable_def entry_current_def answer_good_def has_list_def)

lemma phase_good_lphase [simp]: "phase_good E url c s (l\<lparr>lphase := q\<rparr>) p = phase_good E url c s l p"
  by (cases p) simp_all

subsection \<open>The data invariant\<close>

lemma cache_good_entry:
  assumes "cache_good E url c s" "hm_get (node_list_cache s) (cache_key url c app) = Some e"
  shows "heard E url c s app (addrs e) (fetched_at e)" "fetched_at e \<le> clock s"
  using assms by (auto simp: cache_good_def)

text \<open>A list of which the stamp is recent enough is usable, and then so is its entry.\<close>

lemma entry_usable:
  assumes "cache_good E url c s" "hm_get (node_list_cache s) (cache_key url c (lapp l)) = Some e"
    and "current l (fetched_at e) s"
  shows "usable E url c s l (addrs e)" "entry_current url c s l"
  using assms(2,3) cache_good_entry [OF assms(1,2)] by (auto simp: usable_def entry_current_def)

lemma fresh_hit_usable:
  assumes "cache_good E url c s" "fresh_hit (cache_key url c (lapp l)) s = Some a" "lstart l \<le> clock s"
  shows "usable E url c s l a" "entry_current url c s l"
proof -
  from assms(2) obtain e where e: "hm_get (node_list_cache s) (cache_key url c (lapp l)) = Some e"
    "elapsed (clock s) (fetched_at e) < NODE_LIST_TTL" "a = addrs e"
    by (auto simp: fresh_hit_def split: option.splits if_splits)
  with assms(3) have "current l (fetched_at e) s" by (auto simp: current_def elapsed_def)
  from entry_usable [OF assms(1) e(1) this] e(3) show "usable E url c s l a" "entry_current url c s l" by auto
qed

lemma after_list_good:
  assumes "\<And>a. r = Inr a \<Longrightarrow> usable E url c s l a \<and> entry_current url c s l"
  shows "phase_good E url c s l (after_list l r)"
  using assms by (auto simp: after_list_def has_list_def split: sum.splits option.splits)

lemma cache_good_step:
  assumes good: "cache_good E url c s" and later: "clock s \<le> clock s'" and calls: "set (calls s) \<subseteq> set (calls s')"
    and prov: "\<forall>p. hm_get (providers s') url = Some p \<longrightarrow> p = url"
    and cache: "node_list_cache s' = node_list_cache s \<or>
      (\<exists>app e. node_list_cache s' = hm_insert (cache_key url c app) e (node_list_cache s) \<and>
         heard E url c s' app (addrs e) (fetched_at e) \<and> fetched_at e \<le> clock s')"
  shows "cache_good E url c s'"
proof -
  have old: "heard E url c s' app (addrs e) (fetched_at e) \<and> fetched_at e \<le> clock s'"
    if "hm_get (node_list_cache s) (cache_key url c app) = Some e" for app e
    using cache_good_entry [OF good that] heard_calls [OF calls] later by (blast intro: order_trans)
  with cache prov show ?thesis unfolding cache_good_def by (auto split: if_splits)
qed

lemma cache_good_providers: "cache_good E url c s \<Longrightarrow> \<forall>p. hm_get (providers s) url = Some p \<longrightarrow> p = url"
  by (simp add: cache_good_def)

text \<open>A call that starts leaves everything as it was but the provider table, and its answer will be good.\<close>

lemma ask_good:
  assumes good: "cache_good E url c s" and call: "fetch_node_list E url c (lapp l) s = (r, s1)"
    and s': "clock s' = clock s" "providers s' = providers s1" "node_list_cache s' = node_list_cache s1"
      "calls s' = Asked k (lapp l) (clock s) # calls s"
  shows "grows url c s s'" "cache_good E url c s'" "answer_good E url c s' k l r (clock s1)"
proof -
  note frame = fetch_node_list_frame [OF call]
  note said = fetch_node_list_said [OF call cache_good_providers [OF good]]
  from frame s' show "grows url c s s'" by (auto intro: growsI)
  from good show "cache_good E url c s'"
    using frame(1) said(1) s' by (auto intro: cache_good_step)
  show "answer_good E url c s' k l r (clock s1)"
    using said(2) s'(4) by (auto simp: answer_good_def asked_for_def)
qed

lemma keep_good:
  assumes "cache_good E url c s" "clock s' = clock s" "providers s' = providers s"
    and "node_list_cache s' = node_list_cache s" "set (calls s) \<subseteq> set (calls s')"
  shows "grows url c s s'" "cache_good E url c s'"
proof -
  from assms show "grows url c s s'" by (intro growsI) simp_all
  from cache_good_providers [OF assms(1)] assms(2-5) show "cache_good E url c s'"
    by (intro cache_good_step [OF assms(1)]) simp_all
qed

lemma store_good:
  assumes "cache_good E url c s" "clock s' = clock s" "providers s' = providers s"
    and "node_list_cache s' = hm_insert (cache_key url c app) e (node_list_cache s)"
    and "set (calls s) \<subseteq> set (calls s')" "heard E url c s' app (addrs e) (fetched_at e)" "fetched_at e \<le> clock s"
    and "\<And>old. hm_get (node_list_cache s) (cache_key url c app) = Some old \<Longrightarrow> fetched_at old \<le> fetched_at e"
  shows "grows url c s s'" "cache_good E url c s'"
proof -
  from assms(2,4,5,8) show "grows url c s s'" by (intro growsI) (simp, simp, blast)
  from cache_good_providers [OF assms(1)] assms(2-7) show "cache_good E url c s'"
    by (intro cache_good_step [OF assms(1)]) (simp, simp, simp, metis)
qed

lemma reply_heard:
  assumes "answer_good E url c s k l (Inr a) due" "due \<le> clock s" "calls s' = Replied k (lapp l) (clock s) (Inr a) # calls s"
  shows "heard E url c s' (lapp l) a (clock s)"
  using assms by (auto simp: answer_good_def heard_def asked_for_def intro: order_trans)

lemma reply_good:
  assumes good: "cache_good E url c s" "lstart l \<le> clock s" "answer_good E url c s k l r due" "due \<le> clock s"
    and ans: "refresh_answer (cache_key url c (lapp l)) r s = (r', s1)"
    and s': "clock s' = clock s1" "providers s' = providers s1" "node_list_cache s' = node_list_cache s1"
      "calls s' = Replied k (lapp l) (clock s) r # calls s"
  shows "grows url c s s' \<and> cache_good E url c s' \<and> phase_good E url c s' l (after_list l r')"
proof -
  note frame = refresh_answer_frame [OF ans]
  from frame s' have keep: "clock s' = clock s" "providers s' = providers s" "set (calls s) \<subseteq> set (calls s')"
    by auto
  from ans show ?thesis
  proof (cases rule: refresh_answer_cases)
    case (fetched a)
    define e where "e = \<lparr> addrs = a, fetched_at = clock s, miss_refresh_at = None \<rparr>"
    have kn: "heard E url c s' (lapp l) (addrs e) (fetched_at e)"
      using reply_heard [OF good(3) [unfolded fetched(1)] good(4)] s'(4) fetched(1) by (simp add: e_def)
    from fetched(3) s'(3) have cache: "node_list_cache s' = hm_insert (cache_key url c (lapp l)) e (node_list_cache s)"
      by (simp add: e_def)
    have "fetched_at e \<le> clock s" by (simp add: e_def)
    note gs = store_good [OF good(1) keep(1,2) cache keep(3) kn this] cache_good_entry(2) [OF good(1)]
    then have cg: "grows url c s s'" "cache_good E url c s'" by (simp_all add: e_def)
    have get: "hm_get (node_list_cache s') (cache_key url c (lapp l)) = Some e" by (simp add: cache)
    have "current l (fetched_at e) s'"
      using good(2) by (simp add: current_def NODE_LIST_TTL_def from_secs_def e_def)
    from entry_usable [OF cg(2) get this] fetched(2) have "phase_good E url c s' l (after_list l r')"
      by (auto simp: e_def intro: after_list_good)
    with cg show ?thesis by blast
  next
    case (stale e old)
    from stale(4) s'(3) have cache: "node_list_cache s' = node_list_cache s" by simp
    note cg = keep_good [OF good(1) keep(1,2) cache keep(3)]
    have "failed_since (lapp l) (lstart l) s'"
      using s'(4) stale(1) good(2) by (auto simp: failed_since_def)
    then have "current l (fetched_at old) s'" by (simp add: current_def)
    with stale(2) cache have "usable E url c s' l (addrs old)" "entry_current url c s' l"
      using entry_usable [OF cg(2), of l old] by auto
    with stale(3) have "phase_good E url c s' l (after_list l r')" by (auto intro: after_list_good)
    with cg show ?thesis by blast
  next
    case (none e)
    from none(4) s'(3) have cache: "node_list_cache s' = node_list_cache s" by simp
    from none(3) have "phase_good E url c s' l (after_list l r')" by (auto intro: after_list_good)
    with keep_good [OF good(1) keep(1,2) cache keep(3)] show ?thesis by blast
  qed
qed

lemma mreply_good:
  assumes good: "cache_good E url c s" "lstart l \<le> clock s" "answer_good E url c s k l r due" "due \<le> clock s"
    and list: "has_list E url c s l known"
    and ans: "miss_answer (cache_key url c (lapp l)) known r s = (r', s1)"
    and s': "clock s' = clock s1" "providers s' = providers s1" "node_list_cache s' = node_list_cache s1"
      "calls s' = Replied k (lapp l) (clock s) r # calls s"
  shows "grows url c s s' \<and> cache_good E url c s' \<and> phase_good E url c s' l (Answered r')"
proof -
  note frame = miss_answer_frame [OF ans]
  from frame s' have keep: "clock s' = clock s" "providers s' = providers s" "set (calls s) \<subseteq> set (calls s')" by auto
  from ans show ?thesis
  proof (cases rule: miss_answer_cases)
    case (fetched a)
    define e where "e = \<lparr> addrs = a, fetched_at = clock s, miss_refresh_at = Some (clock s) \<rparr>"
    have kn: "heard E url c s' (lapp l) (addrs e) (fetched_at e)"
      using reply_heard [OF good(3) [unfolded fetched(1)] good(4)] s'(4) fetched(1) by (simp add: e_def)
    from fetched(3) s'(3) have cache: "node_list_cache s' = hm_insert (cache_key url c (lapp l)) e (node_list_cache s)"
      by (simp add: e_def)
    have "fetched_at e \<le> clock s" by (simp add: e_def)
    note gs = store_good [OF good(1) keep(1,2) cache keep(3) kn this] cache_good_entry(2) [OF good(1)]
    then have cg: "grows url c s s'" "cache_good E url c s'" by (simp_all add: e_def)
    have get: "hm_get (node_list_cache s') (cache_key url c (lapp l)) = Some e" by (simp add: cache)
    have "current l (fetched_at e) s'"
      using good(2) by (simp add: current_def NODE_LIST_TTL_def from_secs_def e_def)
    from entry_usable(1) [OF cg(2) get this] fetched(2) cg show ?thesis by (simp add: e_def)
  next
    case (failed e old)
    define e' where "e' = old\<lparr>miss_refresh_at := Some (clock s)\<rparr>"
    from failed(4) s'(3) have cache: "node_list_cache s' = hm_insert (cache_key url c (lapp l)) e' (node_list_cache s)"
      by (simp add: e'_def)
    note old = cache_good_entry [OF good(1) failed(2)]
    then have kn: "heard E url c s' (lapp l) (addrs e') (fetched_at e')" "fetched_at e' \<le> clock s"
      using heard_calls [OF keep(3)] by (simp_all add: e'_def)
    from store_good [OF good(1) keep(1,2) cache keep(3) kn] failed(2)
    have cg: "grows url c s s'" "cache_good E url c s'" by (simp_all add: e'_def)
    from list have "usable E url c s l known" by (simp add: has_list_def)
    with cg failed(3) show ?thesis by (auto intro: usable_grows)
  next
    case (none e)
    with list show ?thesis by (auto simp: has_list_def entry_current_def)
  qed
qed

text \<open>One step of a task keeps what the others rely on and takes the task to a good point.\<close>

definition good_step :: "'y chain_env_scheme \<Rightarrow> string \<Rightarrow> string \<Rightarrow> nat \<Rightarrow> chain_tasks \<Rightarrow> chain_tasks \<Rightarrow> bool" where
  "good_step E url c i s s' \<longleftrightarrow> grows url c s s' \<and> cache_good E url c s' \<and>
     (\<exists>p. lookups s' = (lookups s)[i := (lookups s ! i)\<lparr>lphase := p\<rparr>] \<and> phase_good E url c s' (lookups s ! i) p)"

lemma quiet_step:
  assumes "cache_good E url c s" "phase_good E url c s (lookups s ! i) p"
    and "clock s' = clock s" "providers s' = providers s" "node_list_cache s' = node_list_cache s" "calls s' = calls s"
    and "lookups s' = (lookups s)[i := (lookups s ! i)\<lparr>lphase := p\<rparr>]"
  shows "good_step E url c i s s'"
proof -
  from keep_good [OF assms(1,3-5)] assms(6) have k: "grows url c s s'" "cache_good E url c s'" by simp_all
  with phase_good_grows [OF k(1) assms(2)] assms(7) show ?thesis unfolding good_step_def by blast
qed

lemma ask_step:
  assumes "cache_good E url c s" "fetch_node_list E url c (lapp (lookups s ! i)) s = (r, s1)"
    and "s' = set_phase i p (s1\<lparr>clock := clock s, calls := Asked k (lapp (lookups s ! i)) (clock s) # calls s\<rparr>)"
    and "\<And>s'. grows url c s s' \<Longrightarrow> answer_good E url c s' k (lookups s ! i) r (clock s1) \<Longrightarrow>
      phase_good E url c s' (lookups s ! i) p"
  shows "good_step E url c i s s'"
proof -
  from fetch_node_list_frame(3) [OF assms(2)] have "lookups s1 = lookups s"
    by (intro same_tasks) (simp add: chain_frame_def)
  with assms(3) have s': "clock s' = clock s" "providers s' = providers s1" "node_list_cache s' = node_list_cache s1"
    "calls s' = Asked k (lapp (lookups s ! i)) (clock s) # calls s" "lookups s' = (lookups s)[i := (lookups s ! i)\<lparr>lphase := p\<rparr>]" by simp_all
  note k = ask_good [OF assms(1,2) s'(1-4)]
  from assms(4) [OF k(1,3)] k(1,2) s'(5) show ?thesis unfolding good_step_def by blast
qed

lemma run_good:
  assumes inv: "tasks_inv E url c s" and i: "i < length (lookups s)" and step: "lookup_step E url c i s = Some s'"
  shows "good_step E url c i s s'"
proof -
  define l where "l = lookups s ! i"
  define key where "key = cache_key url c (lapp l)"
  from inv i have cg: "cache_good E url c s" and lg: "lstart l \<le> clock s" "phase_good E url c s l (lphase l)"
    by (auto simp: tasks_inv_def lookup_good_def l_def)
  have listed: "phase_good E url c s l (after_list l (Inr a))" if "fresh_hit key s = Some a" for a
    using fresh_hit_usable [OF cg that [unfolded key_def] lg(1)] by (auto intro: after_list_good)
  note quiet = quiet_step [OF cg, of i _ s', folded l_def]
  from step l_def key_def show ?thesis
  proof (cases rule: lookup_step_cases)
    case (ask r s1)
    show ?thesis by (rule ask_step [OF cg ask(3,4) [unfolded l_def]]) simp
  next
    case (reply r due r' s1)
    from lg reply(1) have "answer_good E url c s Expired l r due" by simp
    from reply_good [OF cg lg(1) this reply(2) reply(3) [unfolded key_def], of s'] reply(4)
      same_tasks [OF refresh_answer_frame(3) [OF reply(3)]]
    show ?thesis by (auto simp: good_step_def l_def)
  next
    case (settled known signer a)
    from lg settled(1) obtain e where e: "hm_get (node_list_cache s) key = Some e" "current l (fetched_at e) s"
      by (auto simp: has_list_def entry_current_def key_def)
    with settled(3) have "a = addrs e" by (auto simp: miss_settled_def Let_def split: if_splits)
    with entry_usable(1) [OF cg e(1) [unfolded key_def] e(2)]
    have "phase_good E url c s l (Answered (Inr a))" by simp
    from quiet [OF this] settled(4) show ?thesis by (simp add: l_def)
  next
    case (mask known signer r s1)
    from lg mask(1) have "has_list E url c s l known" by simp
    then show ?thesis
      by (intro ask_step [OF cg mask(4,5) [unfolded l_def]]) (use has_list_grows in \<open>auto simp: l_def\<close>)
  next
    case (mreply known r due r' s1)
    from lg mreply(1) have "answer_good E url c s Forced l r due" "has_list E url c s l known" by simp_all
    note g = mreply_good [OF cg lg(1) this(1) mreply(2) this(2) mreply(3) [unfolded key_def], of s']
    from mreply(4) same_tasks [OF miss_answer_frame(3) [OF mreply(3)]]
    have s': "clock s' = clock s1" "providers s' = providers s1" "node_list_cache s' = node_list_cache s1"
      "calls s' = Replied Forced (lapp l) (clock s) r # calls s" "lookups s' = (lookups s)[i := l\<lparr>lphase := Answered r'\<rparr>]"
      by (auto simp: l_def)
    from g [OF s'(1-4)] s'(5) show ?thesis unfolding good_step_def l_def by blast
  next
    case (hit a)
    from quiet [OF listed [OF hit(2)]] hit(3) show ?thesis by (simp add: l_def)
  next
    case (rehit a)
    from quiet [OF listed [OF rehit(2)]] rehit(3) show ?thesis by (simp add: l_def)
  next
    case (mlock known)
    from lg mlock(1) have "phase_good E url c s l (HoldMiss known)" by simp
    from quiet [OF this] mlock(3) show ?thesis by (simp add: l_def)
  qed (use quiet [of AwaitRefresh] quiet [of HoldRefresh] in \<open>simp_all add: l_def\<close>)
qed

lemma good_step_inv:
  assumes inv: "tasks_inv E url c s" and "i < length (lookups s)" and "good_step E url c i s s'"
  shows "tasks_inv E url c s'"
proof -
  from assms(3) obtain p where gr: "grows url c s s'" and cg: "cache_good E url c s'"
    and ls: "lookups s' = (lookups s)[i := (lookups s ! i)\<lparr>lphase := p\<rparr>]"
    and pg: "phase_good E url c s' (lookups s ! i) p" by (auto simp: good_step_def)
  have old: "lookup_good E url c s' l" if "l \<in> set (lookups s)" for l
    using lookup_good_grows [OF gr, of E l] inv that by (simp add: tasks_inv_def)
  from old [of "lookups s ! i"] assms(2) pg have "lookup_good E url c s' ((lookups s ! i)\<lparr>lphase := p\<rparr>)"
    by (simp add: lookup_good_def)
  with old cg ls set_update_subset_insert [of "lookups s" i] show ?thesis
    unfolding tasks_inv_def by (metis insert_iff subsetD)
qed

lemma tasks_inv_same:
  assumes inv: "tasks_inv E url c s" and "clock s \<le> clock s'" "providers s' = providers s"
    and "node_list_cache s' = node_list_cache s" "calls s' = calls s"
    and "\<And>l. l \<in> set (lookups s') \<Longrightarrow> l \<in> set (lookups s) \<or> lookup_good E url c s' l"
  shows "tasks_inv E url c s'"
proof -
  from inv have cg: "cache_good E url c s" by (simp add: tasks_inv_def)
  have "grows url c s s'" using assms(2,4,5) by (intro growsI) simp_all
  from lookup_good_grows [OF this, of E] assms(6) inv have "\<forall>l \<in> set (lookups s'). lookup_good E url c s' l"
    unfolding tasks_inv_def by blast
  moreover have "cache_good E url c s'"
    by (rule cache_good_step [OF cg]) (use assms(2-5) cache_good_providers [OF cg] in simp_all)
  ultimately show ?thesis by (simp add: tasks_inv_def)
qed

lemma tasks_inv_step:
  assumes "task_step E url c s s'" "tasks_inv E url c s"
  shows "tasks_inv E url c s'"
  using assms
proof (cases rule: task_step.cases)
  case sched
  from sched assms(2) show ?thesis
  proof (cases rule: sched_step.cases)
    case (run i)
    with assms(2) show ?thesis using good_step_inv run_good by blast
  next
    case (pass d)
    with assms(2) show ?thesis by (intro tasks_inv_same [OF assms(2)]) simp_all
  qed
next
  case (arrives app signer)
  with assms(2) show ?thesis
    by (intro tasks_inv_same [OF assms(2)]) (auto simp: arrive_def lookup_good_def)
next
  case (drops i)
  from assms(2) have cg: "cache_good E url c s" by (simp add: tasks_inv_def)
  from drops quiet_step [OF cg, of i Dropped s'] have "good_step E url c i s s'"
    by (simp add: drop_lookup_def Let_def)
  with drops(2) assms(2) show ?thesis using good_step_inv by blast
qed

lemma tasks_inv_init: "tasks_init s \<Longrightarrow> tasks_inv E url c s"
  by (auto simp: tasks_init_def tasks_inv_def cache_good_def)

subsection \<open>The locks\<close>

text \<open>A task changes a lock only by taking it when it is free or giving up its own.\<close>

lemma locks_inv_phase:
  assumes inv: "locks_inv url c s" and i: "i < length (lookups s)" and l: "l = lookups s ! i"
    and ls: "lookups s' = (lookups s)[i := l\<lparr>lphase := p\<rparr>]"
    and r: "refresh_lock s' = (if refreshing p then Some i else if refreshing (lphase l) then None else refresh_lock s)"
    and m: "\<And>app. hm_get (miss_locks s') (cache_key url c app) =
      (if app \<noteq> lapp l then hm_get (miss_locks s) (cache_key url c app)
       else if missing p then Some i else if missing (lphase l) then None
       else hm_get (miss_locks s) (cache_key url c app))"
    and rfree: "refreshing p \<Longrightarrow> refreshing (lphase l) \<or> refresh_lock s = None"
    and mfree: "missing p \<Longrightarrow> missing (lphase l) \<or> hm_get (miss_locks s) (cache_key url c (lapp l)) = None"
  shows "locks_inv url c s'"
proof -
  from inv have ri: "\<And>j. refresh_lock s = Some j \<longleftrightarrow> j < length (lookups s) \<and> refreshing (lphase (lookups s ! j))"
    and mi: "\<And>app j. hm_get (miss_locks s) (cache_key url c app) = Some j \<longleftrightarrow>
      j < length (lookups s) \<and> lapp (lookups s ! j) = app \<and> missing (lphase (lookups s ! j))"
    by (simp_all add: locks_inv_def)
  have "refresh_lock s' = Some j \<longleftrightarrow> j < length (lookups s') \<and> refreshing (lphase (lookups s' ! j))" for j
    using ri [of i] ri [of j] i l rfree by (cases "i = j") (auto simp: r ls nth_list_update)
  moreover have "hm_get (miss_locks s') (cache_key url c app) = Some j \<longleftrightarrow>
      j < length (lookups s') \<and> lapp (lookups s' ! j) = app \<and> missing (lphase (lookups s' ! j))" for app j
    using mi [of app i] mi [of app j] i l mfree by (cases "i = j") (auto simp: m ls nth_list_update)
  ultimately show ?thesis unfolding locks_inv_def by blast
qed

lemma after_list_no_lock [simp]: "\<not> refreshing (after_list l r)" "\<not> missing (after_list l r)"
  by (auto simp: after_list_def split: sum.splits option.splits)

lemma locks_inv_run:
  assumes inv: "locks_inv url c s" and i: "i < length (lookups s)" and step: "lookup_step E url c i s = Some s'"
  shows "locks_inv url c s'"
proof -
  define l where "l = lookups s ! i"
  define key where "key = cache_key url c (lapp l)"
  have held: "refresh_lock s = Some i" if "refreshing (lphase l)"
    using inv i that by (simp add: locks_inv_def l_def)
  have mheld: "hm_get (miss_locks s) key = Some i" if "missing (lphase l)"
    using inv i that by (simp add: locks_inv_def l_def key_def)
  note next_phase = locks_inv_phase [OF inv i l_def]
  from step l_def key_def show ?thesis
  proof (cases rule: lookup_step_cases)
    case (ask r s1)
    with same_tasks [of s1 s] fetch_node_list_frame(3) [OF ask(3)] held show ?thesis
      by (intro next_phase [of s' "CallRefresh r (clock s1)"]) (simp_all add: l_def chain_frame_def)
  next
    case (reply r due r' s1)
    with same_tasks [OF refresh_answer_frame(3) [OF reply(3)]] show ?thesis
      by (intro next_phase [of s' "after_list l r'"]) (simp_all add: l_def)
  next
    case (mask known signer r s1)
    with same_tasks [of s1 s] fetch_node_list_frame(3) [OF mask(4)] mheld show ?thesis
      by (intro next_phase [of s' "CallMiss known r (clock s1)"]) (auto simp: l_def key_def chain_frame_def)
  next
    case (mreply known r due r' s1)
    with same_tasks [OF miss_answer_frame(3) [OF mreply(3)]] show ?thesis
      by (intro next_phase [of s' "Answered r'"]) (auto simp: l_def key_def)
  next
    case (hit a)
    then show ?thesis by (intro next_phase [of s' "after_list l (Inr a)"]) (simp_all add: l_def)
  next
    case (rehit a)
    then show ?thesis by (intro next_phase [of s' "after_list l (Inr a)"]) (simp_all add: l_def)
  next
    case wait
    then show ?thesis by (intro next_phase [of s' AwaitRefresh]) (simp_all add: l_def)
  next
    case lock
    then show ?thesis by (intro next_phase [of s' HoldRefresh]) (simp_all add: l_def)
  next
    case (mlock known)
    then show ?thesis by (intro next_phase [of s' "HoldMiss known"]) (auto simp: l_def key_def)
  next
    case (settled known signer a)
    then show ?thesis by (intro next_phase [of s' "Answered (Inr a)"]) (auto simp: l_def key_def)
  qed
qed

lemma locks_inv_step:
  assumes "task_step E url c s s'" "locks_inv url c s"
  shows "locks_inv url c s'"
  using assms
proof (cases rule: task_step.cases)
  case sched
  then show ?thesis
  proof (cases rule: sched_step.cases)
    case (run i)
    with assms(2) show ?thesis using locks_inv_run by blast
  next
    case (pass d)
    with assms(2) show ?thesis by (simp add: locks_inv_def)
  qed
next
  case (arrives app signer)
  with assms(2) show ?thesis
    by (auto simp: locks_inv_def arrive_def nth_append less_Suc_eq split: if_splits)
next
  case (drops i)
  with assms(2) show ?thesis
    by (intro locks_inv_phase [OF assms(2) drops(2) refl, of s' Dropped]) (auto simp: drop_lookup_def Let_def)
qed

subsection \<open>The distances between calls\<close>

lemma reply_noted_step:
  assumes "reply_noted url c s x" "clock s \<le> clock s'"
    and "node_list_cache s' = node_list_cache s \<or>
      (\<exists>app e. node_list_cache s' = hm_insert (cache_key url c app) e (node_list_cache s) \<and>
         (\<forall>old. hm_get (node_list_cache s) (cache_key url c app) = Some old \<longrightarrow> fetched_at old \<le> fetched_at e) \<and>
         (fetched_at e = clock s \<or> miss_refresh_at e = Some (clock s)))"
  shows "reply_noted url c s' x"
proof (cases x)
  case (Replied k app t r)
  from assms(3) show ?thesis
  proof
    assume "node_list_cache s' = node_list_cache s"
    with assms(1,2) Replied show ?thesis
      by (auto simp: reply_noted_def refreshed_since_def last_refresh_def)
  next
    assume "\<exists>app e. node_list_cache s' = hm_insert (cache_key url c app) e (node_list_cache s) \<and>
         (\<forall>old. hm_get (node_list_cache s) (cache_key url c app) = Some old \<longrightarrow> fetched_at old \<le> fetched_at e) \<and>
         (fetched_at e = clock s \<or> miss_refresh_at e = Some (clock s))"
    then obtain app' e where "node_list_cache s' = hm_insert (cache_key url c app') e (node_list_cache s)"
      "\<And>old. hm_get (node_list_cache s) (cache_key url c app') = Some old \<Longrightarrow> fetched_at old \<le> fetched_at e"
      "fetched_at e = clock s \<or> miss_refresh_at e = Some (clock s)" by blast
    with assms(1,2) Replied show ?thesis
      by (cases "app' = app")
        (auto simp: reply_noted_def refreshed_since_def last_refresh_def intro: order_trans le_max_iff_disj [THEN iffD2])
  qed
qed (simp add: reply_noted_def)

lemma expired_spaced:
  assumes "calls_inv url c s" "fresh_hit (cache_key url c app) s = None"
  shows "spaced (Asked Expired app (clock s) # calls s)"
proof -
  have "t + NODE_LIST_TTL \<le> clock s" if "Replied k app t r \<in> set (calls s)" "is_ok r" for k t r
  proof -
    from assms(1) that obtain e where "hm_get (node_list_cache s) (cache_key url c app) = Some e" "t \<le> fetched_at e"
      by (force simp: calls_inv_def reply_noted_def)
    with assms(2) show ?thesis
      by (auto simp: fresh_hit_def elapsed_def NODE_LIST_TTL_def from_secs_def split: if_splits)
  qed
  with assms(1) show ?thesis by (auto simp: calls_inv_def holds_back_def floor_of_def)
qed

lemma forced_spaced:
  assumes "calls_inv url c s" "miss_settled (cache_key url c app) x s = None"
  shows "spaced (Asked Forced app (clock s) # calls s)"
proof -
  have "t + MISS_REFRESH_MIN \<le> clock s" if "Replied k app t r \<in> set (calls s)" "holds_back Forced k (is_ok r)" for k t r
  proof -
    from assms(1) that have "refreshed_since t (cache_key url c app) s"
      by (force simp: calls_inv_def reply_noted_def holds_back_def refreshed_since_def last_refresh_def)
    with assms(2) show ?thesis by (rule unsettled_not_recent)
  qed
  with assms(1) show ?thesis by (auto simp: calls_inv_def floor_of_def)
qed

lemma calls_inv_same:
  assumes "calls_inv url c s" "calls s' = calls s" "node_list_cache s' = node_list_cache s" "clock s \<le> clock s'"
  shows "calls_inv url c s'"
  using assms reply_noted_step [of url c s _ s'] by (simp add: calls_inv_def)

lemma calls_inv_asked:
  assumes "calls_inv url c s" "spaced (Asked k app (clock s) # calls s)"
    and "calls s' = Asked k app (clock s) # calls s" "node_list_cache s' = node_list_cache s" "clock s' = clock s"
  shows "calls_inv url c s'"
  using assms reply_noted_step [of url c s _ s'] unfolding calls_inv_def
  by (auto simp: reply_noted_def simp del: spaced.simps)

lemma calls_inv_stored:
  assumes "calls_inv url c s" "calls s' = Replied k app (clock s) r # calls s" "clock s' = clock s"
    and "node_list_cache s' = hm_insert (cache_key url c app) e (node_list_cache s)"
    and "\<And>old. hm_get (node_list_cache s) (cache_key url c app) = Some old \<Longrightarrow> fetched_at old \<le> fetched_at e"
    and "fetched_at e = clock s \<or> miss_refresh_at e = Some (clock s)"
    and "reply_noted url c s' (Replied k app (clock s) r)"
  shows "calls_inv url c s'"
  using assms(1,2,7) reply_noted_step [of url c s _ s'] assms(3-6) unfolding calls_inv_def by auto

lemma calls_inv_reply:
  assumes inv: "calls_inv url c s" and cg: "cache_good E url c s"
    and ans: "refresh_answer (cache_key url c app) r s = (r', s1)"
    and s': "clock s' = clock s1" "node_list_cache s' = node_list_cache s1"
      "calls s' = Replied Expired app (clock s) r # calls s"
  shows "calls_inv url c s'"
proof -
  from refresh_answer_frame(1) [OF ans] s'(1) have now: "clock s' = clock s" by simp
  have failed: ?thesis if "r = Inl e" "node_list_cache s1 = node_list_cache s" for e
    using inv that s' now reply_noted_step [of url c s _ s'] by (auto simp: calls_inv_def reply_noted_def)
  from ans show ?thesis
  proof (cases rule: refresh_answer_cases)
    case (fetched a)
    note cache = s'(2) [unfolded fetched(3)]
    show ?thesis
      by (rule calls_inv_stored [OF inv s'(3) now cache])
        (use cache_good_entry(2) [OF cg] in \<open>simp_all add: reply_noted_def cache now\<close>)
  qed (rule failed; assumption)+
qed

lemma calls_inv_mreply:
  assumes inv: "calls_inv url c s" and cg: "cache_good E url c s" and l: "has_list E url c s l known"
    and ans: "miss_answer (cache_key url c (lapp l)) known r s = (r', s1)"
    and s': "clock s' = clock s1" "node_list_cache s' = node_list_cache s1"
      "calls s' = Replied Forced (lapp l) (clock s) r # calls s"
  shows "calls_inv url c s'"
proof -
  from miss_answer_frame(1) [OF ans] s'(1) have now: "clock s' = clock s" by simp
  note noted = reply_noted_def refreshed_since_def last_refresh_def
  from ans show ?thesis
  proof (cases rule: miss_answer_cases)
    case (fetched a)
    note cache = s'(2) [unfolded fetched(3)]
    show ?thesis
      by (rule calls_inv_stored [OF inv s'(3) now cache])
        (use cache_good_entry(2) [OF cg] in \<open>simp_all add: noted cache now\<close>)
  next
    case (failed e old)
    note cache = s'(2) [unfolded failed(4)]
    show ?thesis
      by (rule calls_inv_stored [OF inv s'(3) now cache]) (use failed(1,2) in \<open>simp_all add: noted cache now\<close>)
  next
    case (none e)
    with l show ?thesis by (auto simp: has_list_def entry_current_def)
  qed
qed

lemma calls_inv_run:
  assumes inv: "calls_inv url c s" and good: "tasks_inv E url c s" and i: "i < length (lookups s)"
    and step: "lookup_step E url c i s = Some s'"
  shows "calls_inv url c s'"
proof -
  define l where "l = lookups s ! i"
  define key where "key = cache_key url c (lapp l)"
  from good i have cg: "cache_good E url c s" and lg: "phase_good E url c s l (lphase l)"
    by (auto simp: tasks_inv_def lookup_good_def l_def)
  from step l_def key_def show ?thesis
  proof (cases rule: lookup_step_cases)
    case (ask r s1)
    with fetch_node_list_frame(1) [OF ask(3)] show ?thesis
      by (intro calls_inv_asked [OF inv, of Expired "lapp l"] expired_spaced [OF inv]) (simp_all add: key_def)
  next
    case (mask known signer r s1)
    with fetch_node_list_frame(1) [OF mask(4)] show ?thesis
      by (intro calls_inv_asked [OF inv, of Forced "lapp l"] forced_spaced [OF inv]) (simp_all add: key_def)
  next
    case (reply r due r' s1)
    from calls_inv_reply [OF inv cg reply(3) [unfolded key_def], of s'] reply(4) show ?thesis by simp
  next
    case (mreply known r due r' s1)
    from lg mreply(1) have "has_list E url c s l known" by simp
    from calls_inv_mreply [OF inv cg this mreply(3) [unfolded key_def], of s'] mreply(4) show ?thesis by simp
  qed (use calls_inv_same [OF inv, of s'] in simp_all)
qed

lemma calls_inv_step:
  assumes "task_step E url c s s'" "tasks_inv E url c s" "calls_inv url c s"
  shows "calls_inv url c s'"
  using assms
proof (cases rule: task_step.cases)
  case sched
  then show ?thesis
  proof (cases rule: sched_step.cases)
    case (run i)
    with assms(2,3) show ?thesis using calls_inv_run by blast
  qed (use calls_inv_same [OF assms(3), of s'] in simp_all)
qed (use calls_inv_same [OF assms(3), of s'] in \<open>simp_all add: arrive_def drop_lookup_def Let_def\<close>)

text \<open>The three invariants hold in every state the tasks can reach.\<close>

interpretation lookup_tasks: task_system tasks_init "task_step E url c"
  "\<lambda>s. tasks_inv E url c s \<and> locks_inv url c s \<and> calls_inv url c s"
proof unfold_locales
  fix s :: chain_tasks
  assume "tasks_init s"
  then show "tasks_inv E url c s \<and> locks_inv url c s \<and> calls_inv url c s"
    using tasks_inv_init by (auto simp: tasks_init_def locks_inv_def calls_inv_def)
next
  fix s s' :: chain_tasks
  assume "task_step E url c s s'" "tasks_inv E url c s \<and> locks_inv url c s \<and> calls_inv url c s"
  then show "tasks_inv E url c s' \<and> locks_inv url c s' \<and> calls_inv url c s'"
    using tasks_inv_step locks_inv_step calls_inv_step by blast
qed

lemma reachable_inv:
  assumes "reachable E url c s"
  shows "tasks_inv E url c s" "locks_inv url c s" "calls_inv url c s"
  using assms lookup_tasks.reach_inv [of _ E url c s] by (auto simp: reachable_def)

lemma spaced_split:
  assumes "spaced (us @ Asked k app t # vs)" "Replied k' app t' r \<in> set vs" "holds_back k k' (is_ok r)"
  shows "t' + floor_of k \<le> t"
proof -
  have "spaced (ys @ zs) \<Longrightarrow> spaced zs" for ys zs
    by (induction ys rule: spaced.induct) simp_all
  from this [OF assms(1)] assms(2,3) show ?thesis by auto
qed

subsection \<open>Progress\<close>

text \<open>How many points a lookup still has before it.\<close>

fun rank :: "lookup_phase \<Rightarrow> nat" where
  "rank Arrived = 7"
| "rank AwaitRefresh = 6"
| "rank HoldRefresh = 5"
| "rank (CallRefresh _ _) = 4"
| "rank (AwaitMiss _) = 3"
| "rank (HoldMiss _) = 2"
| "rank (CallMiss _ _ _) = 1"
| "rank (Answered _) = 0"
| "rank Dropped = 0"

definition work :: "chain_tasks \<Rightarrow> nat" where
  "work s = sum_list (map (\<lambda>l. rank (lphase l)) (lookups s))"

lemma rank_after_list: "rank (after_list l r) \<le> 3"
  by (auto simp: after_list_def split: sum.splits option.splits)

lemma after_list_not_dropped [simp]: "after_list l r \<noteq> Dropped"
  by (auto simp: after_list_def split: sum.splits option.splits)

lemma step_phase:
  assumes step: "lookup_step E url c i s = Some s'" and l: "l = lookups s ! i"
  shows "\<exists>p. lookups s' = (lookups s)[i := l\<lparr>lphase := p\<rparr>] \<and> rank p < rank (lphase l) \<and> p \<noteq> Dropped"
proof -
  have after: "rank (after_list l r) < n" if "3 < n" for r n
    using rank_after_list [of l r] that by simp
  from step l refl show ?thesis
  proof (cases rule: lookup_step_cases)
    case (ask r s1)
    with same_tasks [of s1 s] fetch_node_list_frame(3) [OF ask(3)] l show ?thesis
      by (intro exI [of _ "CallRefresh r (clock s1)"]) (simp add: chain_frame_def)
  next
    case (reply r due r' s1)
    with same_tasks [OF refresh_answer_frame(3) [OF reply(3)]] l after [of 4 r'] show ?thesis
      by (intro exI [of _ "after_list l r'"]) simp
  next
    case (mask known signer r s1)
    with same_tasks [of s1 s] fetch_node_list_frame(3) [OF mask(4)] l show ?thesis
      by (intro exI [of _ "CallMiss known r (clock s1)"]) (simp add: chain_frame_def)
  next
    case (mreply known r due r' s1)
    with same_tasks [OF miss_answer_frame(3) [OF mreply(3)]] l show ?thesis
      by (intro exI [of _ "Answered r'"]) simp
  next
    case (hit a)
    with l after [of 7 "Inr a"] show ?thesis by (intro exI [of _ "after_list l (Inr a)"]) simp
  next
    case (rehit a)
    with l after [of 5 "Inr a"] show ?thesis by (intro exI [of _ "after_list l (Inr a)"]) simp
  next
    case wait
    with l show ?thesis by (intro exI [of _ AwaitRefresh]) simp
  next
    case lock
    with l show ?thesis by (intro exI [of _ HoldRefresh]) simp
  next
    case (mlock known)
    with l show ?thesis by (intro exI [of _ "HoldMiss known"]) simp
  next
    case (settled known signer a)
    with l show ?thesis by (intro exI [of _ "Answered (Inr a)"]) simp
  qed
qed

lemma sum_list_update_less:
  fixes f :: "'a \<Rightarrow> nat"
  assumes "i < length xs" "f x < f (xs ! i)"
  shows "sum_list (map f (xs[i := x])) < sum_list (map f xs)"
proof -
  have "map f xs ! i \<le> sum_list (map f xs)"
    using assms(1) elem_le_sum_list [of i "map f xs"] by simp
  with assms show ?thesis by (simp add: map_update sum_list_update)
qed

lemma work_decreases:
  assumes "i < length (lookups s)" "lookup_step E url c i (tick d s) = Some s'"
  shows "work s' < work s"
  using step_phase [OF assms(2) refl] assms(1) sum_list_update_less [of i "lookups s" "\<lambda>l. rank (lphase l)"]
  by (auto simp: work_def)

text \<open>A task waits for a lock only while another holds it, and a holder never waits for a lock.\<close>

lemma holder_runs:
  assumes "tasks_inv E url c s" "i < length (lookups s)"
    and "\<not> finished (lphase (lookups s ! i))" "lphase (lookups s ! i) \<noteq> AwaitRefresh"
    and "\<And>known. lphase (lookups s ! i) \<noteq> AwaitMiss known"
  shows "\<exists>d s'. lookup_step E url c i (tick d s) = Some s'"
proof -
  define d where "d = (case lphase (lookups s ! i) of CallRefresh _ due \<Rightarrow> due | CallMiss _ _ due \<Rightarrow> due | _ \<Rightarrow> 0)"
  from assms(1,2) have "phase_good E url c s (lookups s ! i) (lphase (lookups s ! i))"
    by (simp add: tasks_inv_def lookup_good_def)
  with assms(3-5) have "lookup_step E url c i (tick d s) \<noteq> None"
    by (cases "lphase (lookups s ! i)")
      (auto simp: lookup_step_def Let_def d_def has_list_def split: option.splits prod.splits)
  then show ?thesis by blast
qed

lemma some_task_runs:
  assumes "tasks_inv E url c s" "locks_inv url c s" "j < length (lookups s)" "\<not> finished (lphase (lookups s ! j))"
  shows "\<exists>i < length (lookups s). \<exists>d s'. lookup_step E url c i (tick d s) = Some s'"
proof -
  let ?p = "\<lambda>i. lphase (lookups s ! i)"
  consider "?p j = AwaitRefresh" | known where "?p j = AwaitMiss known"
    | "?p j \<noteq> AwaitRefresh" "\<And>known. ?p j \<noteq> AwaitMiss known" by blast
  then show ?thesis
  proof cases
    case 1
    show ?thesis
    proof (cases "refresh_lock s")
      case None
      with 1 have "lookup_step E url c j (tick 0 s) \<noteq> None" by (simp add: lookup_step_def Let_def)
      with assms(3) show ?thesis by blast
    next
      case (Some k)
      with assms(2) have "k < length (lookups s)" "refreshing (?p k)" by (auto simp: locks_inv_def)
      with holder_runs [OF assms(1), of k] show ?thesis by (cases "?p k") auto
    qed
  next
    case 2
    show ?thesis
    proof (cases "hm_get (miss_locks s) (cache_key url c (lapp (lookups s ! j)))")
      case None
      with 2 have "lookup_step E url c j (tick 0 s) \<noteq> None" by (simp add: lookup_step_def Let_def)
      with assms(3) show ?thesis by blast
    next
      case (Some k)
      with assms(2) have "k < length (lookups s)" "missing (?p k)" by (auto simp: locks_inv_def)
      with holder_runs [OF assms(1), of k] show ?thesis by (cases "?p k") auto
    qed
  next
    case 3
    from holder_runs [OF assms(1,3,4) this] assms(3) show ?thesis by blast
  qed
qed

lemma reachable_step: "reachable E url c s \<Longrightarrow> task_step E url c s s' \<Longrightarrow> reachable E url c s'"
  unfolding reachable_def by (meson rtranclp.rtrancl_into_rtrancl)

lemma reachable_sched: "reachable E url c s \<Longrightarrow> sched_step E url c s s' \<Longrightarrow> reachable E url c s'"
  by (auto intro: reachable_step task_step.sched)

lemma run_later:
  assumes "i < length (lookups s)" "lookup_step E url c i (tick d s) = Some s'"
  shows "sched_step E url c s (tick d s)" "sched_step E url c (tick d s) s'"
  using assms by (auto intro: sched_step.intros)

text \<open>From every reachable state the scheduler can let all lookups return.\<close>

lemma all_finish:
  assumes "reachable E url c s"
  shows "\<exists>s'. (sched_step E url c)\<^sup>*\<^sup>* s s' \<and> length (lookups s') = length (lookups s) \<and>
    (\<forall>i < length (lookups s). finished (lphase (lookups s' ! i)) \<and>
       (lphase (lookups s ! i) \<noteq> Dropped \<longrightarrow> lphase (lookups s' ! i) \<noteq> Dropped))"
  using assms
proof (induction "work s" arbitrary: s rule: less_induct)
  case less
  show ?case
  proof (cases "\<exists>j < length (lookups s). \<not> finished (lphase (lookups s ! j))")
    case False
    then show ?thesis by (intro exI [of _ s]) auto
  next
    case True
    then obtain j where j: "j < length (lookups s)" "\<not> finished (lphase (lookups s ! j))" by blast
    from some_task_runs [OF reachable_inv(1) [OF less.prems] reachable_inv(2) [OF less.prems] j]
    obtain i d s1 where i: "i < length (lookups s)" and s1: "lookup_step E url c i (tick d s) = Some s1" by blast
    note later = run_later [OF i s1]
    from step_phase [OF s1 refl] obtain p where
      p: "lookups s1 = (lookups s)[i := (lookups s ! i)\<lparr>lphase := p\<rparr>]" "p \<noteq> Dropped" by auto
    from less.hyps [OF work_decreases [OF i s1]] reachable_sched [OF reachable_sched [OF less.prems later(1)] later(2)]
    obtain s' where s': "(sched_step E url c)\<^sup>*\<^sup>* s1 s'" "length (lookups s') = length (lookups s1)"
      "\<forall>k < length (lookups s1). finished (lphase (lookups s' ! k)) \<and>
         (lphase (lookups s1 ! k) \<noteq> Dropped \<longrightarrow> lphase (lookups s' ! k) \<noteq> Dropped)" by blast
    from later s'(1) have "(sched_step E url c)\<^sup>*\<^sup>* s s'" by (meson converse_rtranclp_into_rtranclp)
    moreover from p s'(2,3) have "length (lookups s') = length (lookups s)"
      "\<forall>k < length (lookups s). finished (lphase (lookups s' ! k)) \<and>
         (lphase (lookups s ! k) \<noteq> Dropped \<longrightarrow> lphase (lookups s' ! k) \<noteq> Dropped)"
      by (auto simp: nth_list_update i)
    ultimately show ?thesis by blast
  qed
qed

subsection \<open>The lookup that nothing interrupts\<close>

definition with_tasks ::
    "nat option \<Rightarrow> (string, nat) hash_map \<Rightarrow> lookup list \<Rightarrow> chain_call list \<Rightarrow> chain_tasks \<Rightarrow> chain_tasks" where
  "with_tasks a b ls cs s = s\<lparr>refresh_lock := a, miss_locks := b, lookups := ls, calls := cs\<rparr>"

lemma with_tasks_simps [simp]:
  "clock (with_tasks a b ls cs s) = clock s" "providers (with_tasks a b ls cs s) = providers s"
  "node_list_cache (with_tasks a b ls cs s) = node_list_cache s" "refresh_lock (with_tasks a b ls cs s) = a"
  "miss_locks (with_tasks a b ls cs s) = b" "lookups (with_tasks a b ls cs s) = ls"
  "calls (with_tasks a b ls cs s) = cs"
  "set_phase i p (with_tasks a b ls cs s) = with_tasks a b (ls[i := (ls ! i)\<lparr>lphase := p\<rparr>]) cs s"
  "(with_tasks a b ls cs s)\<lparr>refresh_lock := a'\<rparr> = with_tasks a' b ls cs s"
  "(with_tasks a b ls cs s)\<lparr>miss_locks := b'\<rparr> = with_tasks a b' ls cs s"
  "(with_tasks a b ls cs s)\<lparr>calls := cs'\<rparr> = with_tasks a b ls cs' s"
  "(with_tasks a b ls cs s)\<lparr>clock := t\<rparr> = with_tasks a b ls cs (s\<lparr>clock := t\<rparr>)"
  "tick d (with_tasks a b ls cs s) = with_tasks a b ls cs (tick d s)"
  "with_tasks a b ls cs (with_tasks a' b' ls' cs' s) = with_tasks a b ls cs s"
  by (simp_all add: with_tasks_def set_phase_def tick_def)

lemma with_tasks_self: "with_tasks (refresh_lock s) (miss_locks s) (lookups s) (calls s) s = s"
  by (simp add: with_tasks_def)

text \<open>The functions of the chain do not look at the tasks.\<close>

lemma fresh_hit_with [simp]: "fresh_hit key (with_tasks a b ls cs s) = fresh_hit key s"
  by (simp add: fresh_hit_def split: option.split)

lemma miss_settled_with [simp]: "miss_settled key x (with_tasks a b ls cs s) = miss_settled key x s"
  by (simp add: miss_settled_def split: option.split)

lemma fetch_with:
  "fetch_node_list E url c app s = (r, s1) \<Longrightarrow>
     fetch_node_list E url c app (with_tasks a b ls cs s) = (r, with_tasks a b ls cs s1)"
  by (auto simp: fetch_node_list_def sbind_def provider_for_def with_tasks_def tick_def
      split: prod.splits sum.splits option.splits)

lemma refresh_answer_with:
  "refresh_answer key r s = (r', s1) \<Longrightarrow>
     refresh_answer key r (with_tasks a b ls cs s) = (r', with_tasks a b ls cs s1)"
  by (auto simp: refresh_answer_def with_tasks_def bump_def Let_def split: sum.splits option.splits)

lemma miss_answer_with:
  "miss_answer key known r s = (r', s1) \<Longrightarrow>
     miss_answer key known r (with_tasks a b ls cs s) = (r', with_tasks a b ls cs s1)"
  by (auto simp: miss_answer_def with_tasks_def bump_def Let_def split: sum.splits option.splits)

text \<open>Time passes until the answer of a call is due.\<close>

lemma until_due:
  assumes "fetch_node_list E url c app s = (r, s1)"
  shows "tick (clock s1 - clock s) (s1\<lparr>clock := clock s\<rparr>) = s1"
  using fetch_node_list_frame(3) [OF assms] by (simp add: tick_def chain_frame_def)

lemma run_with:
  assumes "i < length ls" "lookup_step E url c i (with_tasks a b ls cs s) = Some s'"
  shows "sched_step E url c (with_tasks a b ls cs s) s'"
  using assms by (auto intro: sched_step.run)

lemma seq_refresh:
  assumes i: "i < length ls" "ls ! i = l" "lphase l = Arrived"
    and get: "get_signer_addresses E url c (lapp l) s = (r, s')"
  shows "\<exists>cs'. (sched_step E url c)\<^sup>*\<^sup>* (with_tasks None b ls cs s)
    (with_tasks None b (ls[i := l\<lparr>lphase := after_list l r\<rparr>]) cs' s')"
proof (cases "fresh_hit (cache_key url c (lapp l)) s")
  case (Some a)
  with get i have "lookup_step E url c i (with_tasks None b ls cs s) =
      Some (with_tasks None b (ls[i := l\<lparr>lphase := after_list l r\<rparr>]) cs s')"
    by (simp add: get_signer_addresses_def lookup_step_def Let_def)
  from run_with [OF i(1) this] show ?thesis by blast
next
  case None
  obtain r0 s1 where fetch: "fetch_node_list E url c (lapp l) s = (r0, s1)" by force
  with get None have ans: "refresh_answer (cache_key url c (lapp l)) r0 s1 = (r, s')"
    by (simp add: get_signer_addresses_def refresh_locked_answer)
  define at where "at = (\<lambda>p. ls[i := l\<lparr>lphase := p\<rparr>])"
  have at: "i < length (at p)" "at p ! i = l\<lparr>lphase := p\<rparr>" "(at p)[i := l\<lparr>lphase := q\<rparr>] = at q" for p q
    using i(1) by (simp_all add: at_def)
  let ?cs = "Asked Expired (lapp l) (clock s) # cs"
  have 1: "sched_step E url c (with_tasks None b ls cs s) (with_tasks None b (at AwaitRefresh) cs s)"
    by (intro run_with [of i]) (simp_all add: lookup_step_def Let_def at_def i None)
  have 2: "sched_step E url c (with_tasks None b (at AwaitRefresh) cs s) (with_tasks (Some i) b (at HoldRefresh) cs s)"
    by (intro run_with [of i]) (simp_all add: lookup_step_def Let_def at)
  have 3: "sched_step E url c (with_tasks (Some i) b (at HoldRefresh) cs s)
      (with_tasks (Some i) b (at (CallRefresh r0 (clock s1))) ?cs (s1\<lparr>clock := clock s\<rparr>))"
    by (intro run_with [of i]) (simp_all add: lookup_step_def Let_def at None fetch_with [OF fetch])
  have 4: "sched_step E url c (with_tasks (Some i) b (at (CallRefresh r0 (clock s1))) ?cs (s1\<lparr>clock := clock s\<rparr>))
      (with_tasks (Some i) b (at (CallRefresh r0 (clock s1))) ?cs s1)"
    using sched_step.pass [of E url c "with_tasks (Some i) b (at (CallRefresh r0 (clock s1))) ?cs (s1\<lparr>clock := clock s\<rparr>)"
        "clock s1 - clock s"] by (simp add: until_due [OF fetch])
  have 5: "sched_step E url c (with_tasks (Some i) b (at (CallRefresh r0 (clock s1))) ?cs s1)
      (with_tasks None b (at (after_list l r)) (Replied Expired (lapp l) (clock s1) r0 # ?cs) s')"
    by (intro run_with [of i]) (simp_all add: lookup_step_def Let_def at refresh_answer_with [OF ans] after_list_def)
  from 1 2 3 4 5 show ?thesis unfolding at_def by (meson converse_rtranclp_into_rtranclp rtranclp.rtrancl_refl)
qed

lemma seq_miss:
  assumes i: "i < length ls" "ls ! i = l" "lphase l = AwaitMiss known" "lsigner l = Some x"
    and free: "hm_get b (cache_key url c (lapp l)) = None"
    and miss: "miss_locked E url c (lapp l) x known s = (r, s')"
  shows "\<exists>b' cs'. (sched_step E url c)\<^sup>*\<^sup>* (with_tasks a b ls cs s)
    (with_tasks a b' (ls[i := l\<lparr>lphase := Answered r\<rparr>]) cs' s')"
proof -
  define key where "key = cache_key url c (lapp l)"
  define at where "at = (\<lambda>p. ls[i := l\<lparr>lphase := p\<rparr>])"
  have at: "i < length (at p)" "at p ! i = l\<lparr>lphase := p\<rparr>" "(at p)[i := l\<lparr>lphase := q\<rparr>] = at q" for p q
    using i(1) by (simp_all add: at_def)
  let ?b = "hm_insert key i b"
  have 1: "sched_step E url c (with_tasks a b ls cs s) (with_tasks a ?b (at (HoldMiss known)) cs s)"
    by (intro run_with [of i]) (simp_all add: lookup_step_def Let_def at_def key_def i free)
  show ?thesis
  proof (cases "miss_settled key x s")
    case (Some l')
    with miss have r: "r = Inr l'" "s' = s" by (simp_all add: key_def miss_locked_answer)
    have "sched_step E url c (with_tasks a ?b (at (HoldMiss known)) cs s)
        (with_tasks a (hm_remove key ?b) (at (Answered r)) cs s')"
      by (intro run_with [of i]) (simp_all add: lookup_step_def Let_def at key_def i(4) Some [unfolded key_def] r)
    with 1 show ?thesis unfolding at_def by (meson converse_rtranclp_into_rtranclp rtranclp.rtrancl_refl)
  next
    case None
    obtain r0 s1 where fetch: "fetch_node_list E url c (lapp l) s = (r0, s1)" by force
    with miss None have ans: "miss_answer key known r0 s1 = (r, s')"
      by (simp add: miss_locked_answer key_def)
    let ?cs = "Asked Forced (lapp l) (clock s) # cs" and ?call = "CallMiss known r0 (clock s1)"
    have 2: "sched_step E url c (with_tasks a ?b (at (HoldMiss known)) cs s)
        (with_tasks a ?b (at ?call) ?cs (s1\<lparr>clock := clock s\<rparr>))"
      by (intro run_with [of i])
        (simp_all add: lookup_step_def Let_def at key_def i(4) None [unfolded key_def] fetch_with [OF fetch])
    have 3: "sched_step E url c (with_tasks a ?b (at ?call) ?cs (s1\<lparr>clock := clock s\<rparr>)) (with_tasks a ?b (at ?call) ?cs s1)"
      using sched_step.pass [of E url c "with_tasks a ?b (at ?call) ?cs (s1\<lparr>clock := clock s\<rparr>)" "clock s1 - clock s"]
      by (simp add: until_due [OF fetch])
    have 4: "sched_step E url c (with_tasks a ?b (at ?call) ?cs s1)
        (with_tasks a (hm_remove key ?b) (at (Answered r)) (Replied Forced (lapp l) (clock s1) r0 # ?cs) s')"
      by (intro run_with [of i]) (simp_all add: lookup_step_def Let_def at key_def miss_answer_with [OF ans [unfolded key_def]])
    from 1 2 3 4 show ?thesis unfolding at_def by (meson converse_rtranclp_into_rtranclp rtranclp.rtrancl_refl)
  qed
qed

lemma seq_lookup:
  assumes i: "i < length (lookups s)" "l = lookups s ! i" "lphase l = Arrived" "lsigner l = Some x"
    and free: "refresh_lock s = None" "hm_get (miss_locks s) (cache_key url c (lapp l)) = None"
    and get: "get_signer_addresses_for E url c (lapp l) x s = (r, s')"
  shows "\<exists>b cs. (sched_step E url c)\<^sup>*\<^sup>* s
    (with_tasks None b ((lookups s)[i := l\<lparr>lphase := Answered r\<rparr>]) cs s')"
proof -
  obtain r1 s1 where get1: "get_signer_addresses E url c (lapp l) s = (r1, s1)" by force
  from seq_refresh [OF i(1) i(2) [symmetric] i(3) get1, of "miss_locks s" "calls s"] with_tasks_self [of s] free(1)
  obtain cs where first: "(sched_step E url c)\<^sup>*\<^sup>* s
      (with_tasks None (miss_locks s) ((lookups s)[i := l\<lparr>lphase := after_list l r1\<rparr>]) cs s1)" by auto
  show ?thesis
  proof (cases "\<exists>known. r1 = Inr known \<and> x \<notin> set known")
    case False
    with get get1 i(4) have "after_list l r1 = Answered r" "s' = s1"
      by (auto simp: get_signer_addresses_for_def sbind_def after_list_def split: sum.splits)
    with first show ?thesis by auto
  next
    case True
    then obtain known where r1: "r1 = Inr known" "x \<notin> set known" by blast
    with i(4) have p: "after_list l r1 = AwaitMiss known" by (simp add: after_list_def)
    from get get1 r1 have miss: "miss_locked E url c (lapp l) x known s1 = (r, s')"
      by (simp add: get_signer_addresses_for_def sbind_def)
    let ?l = "l\<lparr>lphase := AwaitMiss known\<rparr>"
    from seq_miss [of i "(lookups s)[i := ?l]" ?l known x "miss_locks s" url c E s1 r s' None cs] i free miss
    obtain b cs' where "(sched_step E url c)\<^sup>*\<^sup>* (with_tasks None (miss_locks s) ((lookups s)[i := ?l]) cs s1)
        (with_tasks None b ((lookups s)[i := l\<lparr>lphase := Answered r\<rparr>]) cs' s')" by auto
    with first p show ?thesis by (metis rtranclp_trans)
  qed
qed

section \<open>Schedules\<close>

text \<open>A schedule names the steps; playing it computes the state it leads to.\<close>

datatype move = Come string "address option" | Run nat | Pass nat | Hang_up nat

fun play :: "'y chain_env_scheme \<Rightarrow> string \<Rightarrow> string \<Rightarrow> move list \<Rightarrow> chain_tasks \<Rightarrow> chain_tasks option" where
  "play E url c [] s = Some s"
| "play E url c (Come app x # ms) s = play E url c ms (arrive app x s)"
| "play E url c (Run i # ms) s =
     (if i < length (lookups s)
      then case lookup_step E url c i s of None \<Rightarrow> None | Some s' \<Rightarrow> play E url c ms s' else None)"
| "play E url c (Pass d # ms) s = play E url c ms (tick d s)"
| "play E url c (Hang_up i # ms) s =
     (if i < length (lookups s) \<and> \<not> finished (lphase (lookups s ! i))
      then play E url c ms (drop_lookup url c i s) else None)"

lemma play_reachable: "play E url c ms s = Some s' \<Longrightarrow> reachable E url c s \<Longrightarrow> reachable E url c s'"
proof (induction E url c ms s rule: play.induct)
  case (3 E url c i ms s)
  then show ?case
    by (auto split: if_splits option.splits intro: reachable_sched sched_step.run)
next
  case (4 E url c d ms s)
  then show ?case by (auto intro: reachable_sched sched_step.pass)
qed (auto split: if_splits intro: reachable_step task_step.intros)

definition demo_cold :: chain_tasks where
  "demo_cold = \<lparr> clock = 0, mets = metrics_new 0, providers = [], node_list_cache = [], refresh_lock = None,
     miss_locks = [], lookups = [], calls = [] \<rparr>"

lemma demo_cold_reachable: "reachable E url c demo_cold"
  unfolding reachable_def
  by (rule exI [of _ demo_cold]) (simp add: tasks_init_def demo_cold_def hm_empty_def)

lemmas demo_play_defs = demo_lookup_defs lookup_step_def refresh_answer_def miss_answer_def after_list_def
  set_phase_def arrive_def drop_lookup_def demo_cold_def hm_remove_def is_ok_def

text \<open>Two requests for one app at once: the first asks the chain, the second waits and reads.\<close>

definition demo_burst :: "move list" where
  "demo_burst = [Come ''app'' None, Come ''app'' (Some demo_addr2), Run 0, Run 1, Run 0, Run 0]"

lemma demo_burst_plays:
  "\<exists>s r due. play demo_chain ''u'' ''c'' demo_burst demo_cold = Some s \<and>
     map lphase (lookups s) = [CallRefresh r due, AwaitRefresh]"
  by (simp add: demo_burst_def demo_play_defs)

lemma demo_two_answers:
  "\<exists>s. play demo_chain ''u'' ''c'' (demo_burst @ [Pass 1000000000, Run 0, Run 1, Run 1]) demo_cold = Some s \<and>
     map lphase (lookups s) = [Answered (Inr [demo_addr1, demo_addr2]), Answered (Inr [demo_addr1, demo_addr2])]"
  by (simp add: demo_burst_def demo_play_defs)

text \<open>
  Two limits of the scheme. A chain that does not answer: the request that waited behind the failed
  call makes its own at once, so that a burst costs one call after the other. And a client that hangs
  up while its forced refresh is under way: the refresh leaves no stamp, the next one follows at once.
\<close>

definition demo_down :: chain_env where
  "demo_down = demo_chain\<lparr>rpc_node_list := (\<lambda>t url c app. (Inl ''timeout'', 1000000000))\<rparr>"

lemma demo_down_simps [simp]:
  "provider_try_from demo_down url = Inr ()" "parse_address demo_down a = Some [1]"
  "rpc_node_list demo_down t url c app = (Inl ''timeout'', 1000000000)"
  by (simp_all add: demo_down_def)

lemma failed_burst_repeats:
  "\<exists>s e. play demo_down ''u'' ''c'' (demo_burst @ [Pass 1000000000, Run 0, Run 1, Run 1]) demo_cold = Some s \<and>
     calls s = [Asked Expired ''app'' 1000000000, Replied Expired ''app'' 1000000000 (Inl e), Asked Expired ''app'' 0]"
  by (simp add: demo_burst_def demo_play_defs)

lemma forced_refreshes_spaced:
  "\<exists>s. play demo_chain ''u'' ''c'' ([Come ''app'' (Some []), Run 0, Run 0, Run 0, Pass 1000000000, Run 0] @
       [Pass 6000000000, Run 0, Run 0, Pass 1000000000, Run 0] @
       [Pass 5000000000, Come ''app'' (Some []), Run 1, Run 1, Run 1]) demo_cold = Some s \<and>
     calls s = [Asked Forced ''app'' 13000000000, Replied Forced ''app'' 8000000000 (Inr [demo_addr1, demo_addr2]),
       Asked Forced ''app'' 7000000000, Replied Expired ''app'' 1000000000 (Inr [demo_addr1, demo_addr2]),
       Asked Expired ''app'' 0]"
  by (simp add: demo_addr1_def demo_addr2_def demo_play_defs)

lemma dropped_refresh_repeats:
  "\<exists>s. play demo_chain ''u'' ''c'' ([Come ''app'' (Some []), Run 0, Run 0, Run 0, Pass 1000000000, Run 0] @
       [Pass 6000000000, Run 0, Run 0, Hang_up 0] @ [Come ''app'' (Some []), Run 1, Run 1, Run 1]) demo_cold = Some s \<and>
     calls s = [Asked Forced ''app'' 7000000000, Asked Forced ''app'' 7000000000,
       Replied Expired ''app'' 1000000000 (Inr [demo_addr1, demo_addr2]), Asked Expired ''app'' 0]"
  by (simp add: demo_addr1_def demo_addr2_def demo_play_defs)

section \<open>Properties\<close>

text \<open>C21. Whatever runs at the same time, a list that a lookup returns is an answer of the chain for that
  very app: a call for the app asked for it, and returned it to the process at an instant of the log of
  calls. That instant was less than 30 s before the lookup began, or later, unless a call for
  that app failed after the lookup began (the stale fallback).\<close>

theorem concurrent_lists_from_chain:
  assumes "reachable E url c s" "i < length (lookups s)" "l = lookups s ! i" "lphase l = Answered (Inr a)"
  shows "\<exists>k t t' u. Asked k (lapp l) t \<in> set (calls s) \<and> chain_said E url c (lapp l) a t t' \<and> t' \<le> u \<and>
    Replied k (lapp l) u (Inr a) \<in> set (calls s) \<and> u \<le> clock s \<and>
    (lstart l < u + NODE_LIST_TTL \<or>
     (\<exists>k' v e. Replied k' (lapp l) v (Inl e) \<in> set (calls s) \<and> lstart l \<le> v))"
proof -
  from reachable_inv(1) [OF assms(1)] assms(2,3) have "lookup_good E url c s l" by (simp add: tasks_inv_def)
  with assms(4) have "usable E url c s l a" by (simp add: lookup_good_def)
  then show ?thesis unfolding usable_def heard_def asked_for_def current_def failed_since_def by blast
qed

theorem concurrent_lists_from_chain_witness:
  "\<exists>s l k t t' u. reachable demo_chain ''u'' ''c'' s \<and> lookups s ! 1 = l \<and>
     lphase l = Answered (Inr [demo_addr1, demo_addr2]) \<and>
     chain_said demo_chain ''u'' ''c'' (lapp l) [demo_addr1, demo_addr2] t t' \<and> t' \<le> u \<and>
     Replied k (lapp l) u (Inr [demo_addr1, demo_addr2]) \<in> set (calls s)"
proof -
  obtain s where s: "play demo_chain ''u'' ''c'' (demo_burst @ [Pass 1000000000, Run 0, Run 1, Run 1]) demo_cold = Some s"
    and p: "map lphase (lookups s) = [Answered (Inr [demo_addr1, demo_addr2]), Answered (Inr [demo_addr1, demo_addr2])]"
    using demo_two_answers by (elim exE conjE) (rule that)
  from p have l: "1 < length (lookups s)" "lphase (lookups s ! 1) = Answered (Inr [demo_addr1, demo_addr2])"
    by (auto dest: arg_cong [of _ _ length])
  note r = play_reachable [OF s demo_cold_reachable]
  from concurrent_lists_from_chain [OF r l(1) refl l(2)] r l(2) show ?thesis by blast
qed

text \<open>C22. What the chain is asked stays bounded under every interleaving. At every moment at most one lookup of
  the whole process is asking because a list expired, and at most one of each app because a signer was
  missing, whichever tasks are dropped. A call that succeeded holds the next ones for its app back:
  none because the list expired within 30 s of its end, none because a signer is missing within 5 s. A forced
  refresh that failed holds the next forced one back for 5 s. Nothing else holds a call back: neither a failed
  call for an expired list (\<open>failed_burst_repeats\<close>) nor a call that was dropped before its end
  (\<open>dropped_refresh_repeats\<close>).\<close>

theorem refreshes_single_flight_and_spaced:
  assumes "reachable E url c s"
  shows "card {i. i < length (lookups s) \<and> (\<exists>r due. lphase (lookups s ! i) = CallRefresh r due)} \<le> 1 \<and>
    card {i. i < length (lookups s) \<and> lapp (lookups s ! i) = app \<and>
      (\<exists>known r due. lphase (lookups s ! i) = CallMiss known r due)} \<le> 1 \<and>
    (\<forall>later k t earlier k' t' r. calls s = later @ Asked k app t # earlier \<and>
      Replied k' app t' r \<in> set earlier \<and> (is_ok r \<or> k = Forced \<and> k' = Forced) \<longrightarrow>
      t' + (if k = Expired then NODE_LIST_TTL else MISS_REFRESH_MIN) \<le> t)"
proof (intro conjI allI impI)
  have few: "card A \<le> 1" if "\<And>i. i \<in> A \<Longrightarrow> h = Some i" for A and h :: "nat option"
  proof (cases "A = {}")
    case False
    then obtain i where "i \<in> A" by blast
    from that [OF this] that have "A \<subseteq> {i}" by auto
    then show ?thesis using card_mono [of "{i}" A] by simp
  qed simp
  note locks = reachable_inv(2) [OF assms, unfolded locks_inv_def]
  show "card {i. i < length (lookups s) \<and> (\<exists>r due. lphase (lookups s ! i) = CallRefresh r due)} \<le> 1"
    by (rule few [of _ "refresh_lock s"]) (use locks in auto)
  show "card {i. i < length (lookups s) \<and> lapp (lookups s ! i) = app \<and>
      (\<exists>known r due. lphase (lookups s ! i) = CallMiss known r due)} \<le> 1"
    by (rule few [of _ "hm_get (miss_locks s) (cache_key url c app)"]) (use locks in auto)
  fix later earlier :: "chain_call list" and k k' :: refresh_kind and t t' :: instant
    and r :: "kms_error + address list"
  assume h: "calls s = later @ Asked k app t # earlier \<and>
    Replied k' app t' r \<in> set earlier \<and> (is_ok r \<or> k = Forced \<and> k' = Forced)"
  from reachable_inv(3) [OF assms] h have "spaced (later @ Asked k app t # earlier)" by (simp add: calls_inv_def)
  from spaced_split [OF this, of k' t' r] h show "t' + (if k = Expired then NODE_LIST_TTL else MISS_REFRESH_MIN) \<le> t"
    by (cases k) (simp_all add: holds_back_def floor_of_def)
qed

theorem refreshes_single_flight_and_spaced_witness:
  "\<exists>s. reachable demo_chain ''u'' ''c'' s \<and>
     calls s = [Asked Forced ''app'' 13000000000, Replied Forced ''app'' 8000000000 (Inr [demo_addr1, demo_addr2]),
       Asked Forced ''app'' 7000000000, Replied Expired ''app'' 1000000000 (Inr [demo_addr1, demo_addr2]),
       Asked Expired ''app'' 0] \<and>
     8000000000 + MISS_REFRESH_MIN \<le> 13000000000 \<and>
     card {i. i < length (lookups s) \<and> (\<exists>r due. lphase (lookups s ! i) = CallRefresh r due)} \<le> 1"
proof -
  obtain s ms where s: "play demo_chain ''u'' ''c'' ms demo_cold = Some s"
    and calls: "calls s = [Asked Forced ''app'' 13000000000, Replied Forced ''app'' 8000000000 (Inr [demo_addr1, demo_addr2]),
       Asked Forced ''app'' 7000000000, Replied Expired ''app'' 1000000000 (Inr [demo_addr1, demo_addr2]),
       Asked Expired ''app'' 0]"
    using forced_refreshes_spaced by (elim exE conjE) (rule that)
  note r = play_reachable [OF s demo_cold_reachable]
  note p = refreshes_single_flight_and_spaced [OF r, of "''app''"]
  from p [THEN conjunct2, THEN conjunct2, rule_format, of "[]" Forced 13000000000 _ Forced 8000000000
      "Inr [demo_addr1, demo_addr2]"] calls
  have "8000000000 + MISS_REFRESH_MIN \<le> 13000000000" by simp
  with r calls p [THEN conjunct1] show ?thesis by (intro exI [of _ s] conjI)
qed

text \<open>C23. No lookup is ever stuck: in every reachable state with an unfinished lookup some task can go on, at once
  or when the call it waits for is answered, and every step of any task brings the work left down,
  which is at most seven steps for each lookup; so that whatever order the scheduler chooses, all
  lookups that are not dropped end.\<close>

theorem lookups_never_stuck:
  assumes "reachable E url c s" "j < length (lookups s)" "\<not> finished (lphase (lookups s ! j))"
  shows "(\<exists>i < length (lookups s). \<exists>d s'. lookup_step E url c i (tick d s) = Some s') \<and>
    (\<forall>i < length (lookups s). \<forall>d s'. lookup_step E url c i (tick d s) = Some s' \<longrightarrow> work s' < work s) \<and>
    work s \<le> 7 * length (lookups s) \<and>
    (\<exists>s' r. (sched_step E url c)\<^sup>*\<^sup>* s s' \<and> lphase (lookups s' ! j) = Answered r)"
proof -
  have "rank p \<le> 7" for p by (cases p) simp_all
  then have "work s \<le> 7 * length (lookups s)"
    unfolding work_def using sum_list_mono [of "lookups s" "\<lambda>l. rank (lphase l)" "\<lambda>_. 7"]
    by (simp add: sum_list_triv mult.commute)
  moreover from all_finish [OF assms(1)] obtain s' where s': "(sched_step E url c)\<^sup>*\<^sup>* s s'"
    "finished (lphase (lookups s' ! j))" "lphase (lookups s ! j) \<noteq> Dropped \<longrightarrow> lphase (lookups s' ! j) \<noteq> Dropped"
    using assms(2) by blast
  with assms(3) have "\<exists>r. lphase (lookups s' ! j) = Answered r"
    by (cases "lphase (lookups s' ! j)") auto
  ultimately show ?thesis
    using some_task_runs [OF reachable_inv(1) [OF assms(1)] reachable_inv(2) [OF assms(1)] assms(2,3)]
      work_decreases s'(1) by blast
qed

theorem lookups_never_stuck_witness:
  "\<exists>s s' r. reachable demo_chain ''u'' ''c'' s \<and> lphase (lookups s ! 1) = AwaitRefresh \<and>
     (sched_step demo_chain ''u'' ''c'')\<^sup>*\<^sup>* s s' \<and> lphase (lookups s' ! 1) = Answered r"
proof -
  obtain s r due where s: "play demo_chain ''u'' ''c'' demo_burst demo_cold = Some s"
    "map lphase (lookups s) = [CallRefresh r due, AwaitRefresh]" using demo_burst_plays by (elim exE conjE) (rule that)
  then have "1 < length (lookups s)" "lphase (lookups s ! 1) = AwaitRefresh" by (auto simp: map_eq_Cons_conv)
  with lookups_never_stuck [OF play_reachable [OF s(1) demo_cold_reachable], of 1]
    play_reachable [OF s(1) demo_cold_reachable] show ?thesis by auto
qed

text \<open>The sequential lookup is the run that nothing interrupts: if \<open>get_signer_addresses_for\<close>, called on the
  state where a lookup arrived and its locks are free, returns a result, the scheduler can let that
  task run through, and then it has returned that result and the clock, the counters, the
  providers and the cache are exactly those of the sequential function.\<close>

theorem sequential_lookup_is_a_run:
  assumes "i < length (lookups s)" "l = lookups s ! i" "lphase l = Arrived" "lsigner l = Some x"
    and "refresh_lock s = None" "hm_get (miss_locks s) (cache_key url c (lapp l)) = None"
    and "get_signer_addresses_for E url c (lapp l) x s = (r, s')"
  shows "\<exists>b cs. (sched_step E url c)\<^sup>*\<^sup>* s
    (s'\<lparr>refresh_lock := None, miss_locks := b, lookups := (lookups s)[i := l\<lparr>lphase := Answered r\<rparr>], calls := cs\<rparr>)"
  using seq_lookup [OF assms] by (simp add: with_tasks_def)

theorem sequential_lookup_is_a_run_witness:
  "\<exists>s'. (sched_step demo_chain ''u'' ''c'')\<^sup>*\<^sup>* (arrive ''app'' (Some demo_addr2) demo_cold) s' \<and>
     lphase (lookups s' ! 0) = Answered (Inr [demo_addr1, demo_addr2])"
proof -
  let ?s = "arrive ''app'' (Some demo_addr2) demo_cold"
  define l where "l = lookups ?s ! 0"
  have l: "lphase l = Arrived" "lsigner l = Some demo_addr2" "0 < length (lookups ?s)"
    by (simp_all add: l_def arrive_def demo_cold_def)
  have free: "refresh_lock ?s = None" "hm_get (miss_locks ?s) (cache_key ''u'' ''c'' (lapp l)) = None"
    by (simp_all add: arrive_def demo_cold_def hm_get_def)
  have "\<exists>s'. get_signer_addresses_for demo_chain ''u'' ''c'' (lapp l) demo_addr2 ?s = (Inr [demo_addr1, demo_addr2], s')"
    by (simp add: demo_play_defs)
  then obtain s' where "get_signer_addresses_for demo_chain ''u'' ''c'' (lapp l) demo_addr2 ?s
      = (Inr [demo_addr1, demo_addr2], s')" ..
  from sequential_lookup_is_a_run [OF l(3) l_def l(1,2) free this] l(3) show ?thesis by force
qed

end
