(* ===== verification/Verifier.thy ===== *)
theory Verifier
  imports Chain NodeSetup
begin

text \<open>
  \<open>src/verifier.rs\<close>: the attestation gate. Scan's HTTP endpoint, the certificate it presents, the
  X.509 parser and the HTTP client builder are fields of \<open>gate_env\<close>; an answer is a function of the
  instant of the request and comes with the time it took. The cache and the lock table of the one
  process-wide \<open>Verifier\<close> are fields of the process.
\<close>

datatype scan_reply =
    SendFailed string
  | HttpReply nat "string + (bool \<times> string option)"

record gate_env = chain_env +
  scan_cert :: "instant \<Rightarrow> bytes"
  scan_post :: "instant \<Rightarrow> string \<Rightarrow> string option \<Rightarrow> string \<Rightarrow> string \<Rightarrow> scan_reply \<times> nat"
  x509_spki :: "bytes \<Rightarrow> bytes anyhow"
  client_build :: "unit anyhow"

record cache_entry =
  verified :: bool
  refusal :: string
  damp :: nat
  stamped_at :: instant
  confirmed_at :: instant

text \<open>The HTTP client: plain, or with the pinned keys.\<close>

datatype http_client = PlainClient | PinnedClient "bytes list"

record verifier =
  vcfg :: verifier_config
  vclient :: http_client

type_synonym gate_key = "string \<times> address"

record gate_proc = chain_proc +
  VERIFIER :: "verifier option option"
  verdicts :: "(gate_key, cache_entry) hash_map"
  fetch_locks :: "(gate_key, unit) hash_map"

datatype answer = Verdict bool string | Unknown

section \<open>Definitions\<close>

definition POSITIVE_REFRESH :: nat where
  "POSITIVE_REFRESH = from_secs 3600"

definition NEGATIVE_TTL :: nat where
  "NEGATIVE_TTL = from_secs 30"

definition REQUEST_TIMEOUT :: nat where
  "REQUEST_TIMEOUT = from_secs 10"

definition SCAN_LAG_WAIT :: nat where
  "SCAN_LAG_WAIT = from_secs 12"

definition SCAN_LAG_POLL :: nat where
  "SCAN_LAG_POLL = from_secs 3"

definition SCAN_LAG_DAMP :: nat where
  "SCAN_LAG_DAMP = from_secs 3"

definition NOT_REGISTERED :: string where
  "NOT_REGISTERED = ''not registered on-chain per verifier''"

definition MAX_VERDICT_STALENESS :: nat where
  "MAX_VERDICT_STALENESS = from_secs (24 * 3600)"

subsection \<open>The pinned key\<close>

definition verify_server_cert :: "'y gate_env_scheme \<Rightarrow> bytes list \<Rightarrow> bytes \<Rightarrow> unit anyhow" where
  "verify_server_cert E pinned end_entity =
     rbind (map_err (\<lambda>e. ''verifier cert unparseable: '' @ e) (x509_spki E end_entity)) (\<lambda>spki.
       let presented = sha256 E spki in
       if list_ex (\<lambda>k. k = presented) pinned then Inr ()
       else Inl ''verifier served a key that does not match any pinned attested key'')"

subsection \<open>Construction\<close>

text \<open>One configured pin: hexadecimal, 32 bytes.\<close>

definition decode_pin :: "'y gate_env_scheme \<Rightarrow> string \<Rightarrow> bytes anyhow" where
  "decode_pin E k =
     rbind (map_err (\<lambda>e. ''[verifier] pubkey '' @ k @ '' is not hex: '' @ e) (hex_decode E (trim_0x k))) (\<lambda>b.
       if length b \<noteq> 32
       then Inl (''[verifier] pubkey '' @ k @ '' is '' @ show_nat (length b) @
              '' bytes; expected the 32-byte sha256 of the SPKI DER (scan's tls_public_key, curl --pinnedpubkey value)'')
       else Inr b)"

text \<open>\<open>collect::<Result<_>>\<close>: the first error, or all values.\<close>

fun collect_results :: "('a \<Rightarrow> 'e + 'b) \<Rightarrow> 'a list \<Rightarrow> 'e + 'b list" where
  "collect_results f [] = Inr []"
| "collect_results f (x # xs) = rbind (f x) (\<lambda>y. rbind (collect_results f xs) (\<lambda>ys. Inr (y # ys)))"

definition verifier_new :: "'y gate_env_scheme \<Rightarrow> verifier_config \<Rightarrow> verifier anyhow" where
  "verifier_new E cfg =
     (if \<not> starts_with ''http://'' (vurl cfg) \<and> \<not> starts_with ''https://'' (vurl cfg)
      then Inl (''[verifier] url must start with http:// or https://, got '' @ quoted (vurl cfg))
      else if starts_with ''http://'' (vurl cfg) then
        (if \<not> insecure_http cfg
         then Inl (''[verifier] url is plain http ('' @ drop 7 (vurl cfg) @
           '') '' @ em_dash @ '' the pin only works over https; set insecure_http = true ONLY for local testing'')
         else rbind (client_build E) (\<lambda>_. Inr \<lparr> vcfg = cfg, vclient = PlainClient \<rparr>))
      else rbind (collect_results (decode_pin E) (pubkeys cfg)) (\<lambda>pinned.
        if pinned = [] then Inl ''[verifier] configured with no pinned pubkeys''
        else rbind (client_build E) (\<lambda>_. Inr \<lparr> vcfg = cfg, vclient = PinnedClient pinned \<rparr>)))"

subsection \<open>Asking scan\<close>

text \<open>The request of one instant: the TLS handshake of a pinned client, then the reply.\<close>

definition send_verify :: "'y gate_env_scheme \<Rightarrow> verifier \<Rightarrow> string \<Rightarrow> address \<Rightarrow> instant \<Rightarrow> scan_reply \<times> nat" where
  "send_verify E v app signer t =
     (let header = (if api_key (vcfg v) = [] then None else Some (api_key (vcfg v)));
          (reply, d) = scan_post E t (trim_end_slash (vurl (vcfg v)) @ ''/verify'') header
                         app (''0x'' @ hex_encode E signer)
      in case vclient v of
           PlainClient \<Rightarrow> (reply, d)
         | PinnedClient pinned \<Rightarrow>
             (case verify_server_cert E pinned (scan_cert E t) of
                Inl e \<Rightarrow> (SendFailed e, d)
              | Inr _ \<Rightarrow> (reply, d)))"

definition scan_answer :: "'y gate_env_scheme \<Rightarrow> verifier \<Rightarrow> string \<Rightarrow> address \<Rightarrow> instant \<Rightarrow> answer anyhow \<times> nat" where
  "scan_answer E v app signer t =
     (case send_verify E v app signer t of
        (SendFailed e, d) \<Rightarrow> (Inl (''verify request: '' @ e), d)
      | (HttpReply st body, d) \<Rightarrow>
          (if 200 \<le> st \<and> st < 300 then
             (rbind (map_err (\<lambda>e. ''verify response: '' @ e) body) (\<lambda>(ok, reason).
                Inr (Verdict ok (case reason of Some r \<Rightarrow> r | None \<Rightarrow> []))), d)
           else if st = 404 then (Inr Unknown, d)
           else (Inl (''verifier returned '' @ show_nat st), d)))"

definition fetch :: "'y gate_env_scheme \<Rightarrow> verifier \<Rightarrow> string \<Rightarrow> address \<Rightarrow> 'z gate_proc_scheme
    \<Rightarrow> answer anyhow \<times> 'z gate_proc_scheme" where
  "fetch E v app signer s =
     (let (a, d) = scan_answer E v app signer (clock s) in (a, tick d s))"

subsection \<open>The gate\<close>

text \<open>\<open>Some (Inr ())\<close> allow, \<open>Some (Inl reason)\<close> refuse, \<open>None\<close> ask scan.\<close>

definition cached_decision ::
    "gate_key \<Rightarrow> 'z gate_proc_scheme \<Rightarrow> (unit anyhow) option \<times> 'z gate_proc_scheme" where
  "cached_decision key s =
     (case hm_get (verdicts s) key of
        None \<Rightarrow> (None, s)
      | Some e \<Rightarrow>
          (if verified e \<and> elapsed (clock s) (stamped_at e) < POSITIVE_REFRESH
              \<and> elapsed (clock s) (confirmed_at e) < MAX_VERDICT_STALENESS
           then (Some (Inr ()), bump verifier_allowed_update s)
           else if \<not> verified e \<and> elapsed (clock s) (stamped_at e) < damp e
           then (Some (Inl (refusal e)), bump verifier_denied_update s)
           else (None, s)))"

definition has_stale_positive :: "gate_key \<Rightarrow> 'z gate_proc_scheme \<Rightarrow> bool" where
  "has_stale_positive key s =
     (case hm_get (verdicts s) key of
        None \<Rightarrow> False
      | Some e \<Rightarrow> verified e \<and> elapsed (clock s) (confirmed_at e) < MAX_VERDICT_STALENESS)"

definition no_verdict :: "answer anyhow \<Rightarrow> bool" where
  "no_verdict outcome = (case outcome of Inl _ \<Rightarrow> True | Inr Unknown \<Rightarrow> True | Inr (Verdict _ _) \<Rightarrow> False)"

text \<open>The wait for a scan that lags the chain: sleep, ask again, until the deadline.\<close>

function poll_scan ::
    "'y gate_env_scheme \<Rightarrow> verifier \<Rightarrow> string \<Rightarrow> address \<Rightarrow> instant \<Rightarrow> answer anyhow
       \<Rightarrow> 'z gate_proc_scheme \<Rightarrow> answer anyhow \<times> 'z gate_proc_scheme" where
  "poll_scan E v app signer deadline outcome s =
     (if no_verdict outcome \<and> clock s + SCAN_LAG_POLL \<le> deadline then
        (let (outcome', s') = fetch E v app signer (tick SCAN_LAG_POLL s)
         in poll_scan E v app signer deadline outcome' s')
      else (outcome, s))"
  by pat_completeness auto
termination
proof (relation "measure (\<lambda>(E, v, app, signer, deadline, outcome, s). deadline - clock s)", goal_cases)
  case 1
  then show ?case by simp
next
  case (2 E v app signer deadline outcome s x outcome' s')
  then have "clock (tick SCAN_LAG_POLL s) \<le> clock s'"
    by (cases "scan_answer E v app signer (clock s + SCAN_LAG_POLL)") (simp add: fetch_def)
  with 2(1) have "deadline - clock s' < deadline - clock s"
    by (auto simp: SCAN_LAG_POLL_def from_secs_def)
  then show ?case unfolding in_measure by (simp add: 2(3) [symmetric] del: prod.case_eq_if)
qed

declare poll_scan.simps [simp del]

definition refused :: "instant \<Rightarrow> string \<Rightarrow> nat \<Rightarrow> cache_entry" where
  "refused now text d =
     \<lparr> verified = False, refusal = text, damp = d, stamped_at = now, confirmed_at = now \<rparr>"

text \<open>\<open>restamp_stale\<close>: the cache with the damping stamp of a usable positive moved, if there is one.\<close>

definition restamp_stale ::
    "gate_key \<Rightarrow> instant \<Rightarrow> (gate_key, cache_entry) hash_map \<Rightarrow> (gate_key, cache_entry) hash_map option" where
  "restamp_stale key now cache =
     (case hm_get cache key of
        Some e \<Rightarrow> if verified e \<and> elapsed now (confirmed_at e) < MAX_VERDICT_STALENESS
                  then Some (hm_insert key (e\<lparr>stamped_at := now\<rparr>) cache) else None
      | None \<Rightarrow> None)"

text \<open>The bound on the cache: past 4096 entries, dead ones are dropped.\<close>

definition prune_cache :: "instant \<Rightarrow> (gate_key, cache_entry) hash_map \<Rightarrow> (gate_key, cache_entry) hash_map" where
  "prune_cache now cache =
     (if length cache > 4096
      then hm_retain (\<lambda>e. elapsed now (stamped_at e) < MAX_VERDICT_STALENESS) cache
      else cache)"

text \<open>What the final outcome of asking means: the result and the new cache.\<close>

definition settle :: "gate_key \<Rightarrow> answer anyhow \<Rightarrow> 'z gate_proc_scheme \<Rightarrow> unit anyhow \<times> 'z gate_proc_scheme" where
  "settle key outcome s =
     (let now = clock s;
          cache = prune_cache now (verdicts s)
      in case outcome of
           Inr (Verdict ok reason) \<Rightarrow>
             (if ok then
                (Inr (), bump verifier_allowed_update (s\<lparr>verdicts := hm_insert key
                   \<lparr> verified = True, refusal = [], damp = 0, stamped_at = now, confirmed_at = now \<rparr> cache\<rparr>))
              else
                (Inl (''attestation not verified: '' @ reason),
                 bump verifier_denied_update (s\<lparr>verdicts := hm_insert key
                   (refused now (''attestation not verified (recently checked): '' @ reason) NEGATIVE_TTL) cache\<rparr>)))
         | Inr Unknown \<Rightarrow>
             (case restamp_stale key now cache of
                Some cache' \<Rightarrow> (Inr (), bump verifier_stale_served_update (s\<lparr>verdicts := cache'\<rparr>))
              | None \<Rightarrow>
                  (Inl (''attestation not verified: '' @ NOT_REGISTERED),
                   bump verifier_scan_behind_update (s\<lparr>verdicts := hm_insert key
                     (refused now (''attestation not verified: '' @ NOT_REGISTERED) SCAN_LAG_DAMP) cache\<rparr>)))
         | Inl e \<Rightarrow>
             (case restamp_stale key now cache of
                Some cache' \<Rightarrow> (Inr (), bump verifier_stale_served_update (s\<lparr>verdicts := cache'\<rparr>))
              | None \<Rightarrow>
                  (Inl ''attestation verifier unreachable and this signer has no fresh-enough verdict'',
                   bump verifier_unavailable_refused_update (s\<lparr>verdicts := hm_insert key
                     (refused now ''attestation not verified (recently checked): verifier unreachable''
                        NEGATIVE_TTL) cache\<rparr>))))"

text \<open>What the holder of the key's lock does.\<close>

definition require_verified_locked ::
    "'y gate_env_scheme \<Rightarrow> verifier \<Rightarrow> string \<Rightarrow> address \<Rightarrow> nat \<Rightarrow> 'z gate_proc_scheme
       \<Rightarrow> unit anyhow \<times> 'z gate_proc_scheme" where
  "require_verified_locked E v app signer scan_lag_wait s =
     (let key = (app, signer) in
      case cached_decision key s of
        (Some d, s1) \<Rightarrow> (d, s1)
      | (None, s1) \<Rightarrow>
          (let (outcome, s2) = fetch E v app signer s1;
               (outcome', s3) =
                 (if \<not> has_stale_positive key s2
                  then poll_scan E v app signer (clock s2 + scan_lag_wait) outcome s2
                  else (outcome, s2));
               (result, s4) = settle key outcome' s3
           in (result, s4\<lparr>fetch_locks := hm_remove key (fetch_locks s4)\<rparr>)))"

text \<open>One call that finds the lock of its key free: the wait at \<open>key_lock.lock().await\<close> takes no time here.
  Theory \<open>Checks\<close> has the calls with the lock between them.\<close>

definition verifier_require_verified ::
    "'y gate_env_scheme \<Rightarrow> verifier \<Rightarrow> string \<Rightarrow> address \<Rightarrow> nat \<Rightarrow> 'z gate_proc_scheme
       \<Rightarrow> unit anyhow \<times> 'z gate_proc_scheme" where
  "verifier_require_verified E v app signer scan_lag_wait s =
     (case cached_decision (app, signer) s of
        (Some d, s1) \<Rightarrow> (d, s1)
      | (None, s1) \<Rightarrow>
          require_verified_locked E v app signer scan_lag_wait
            (s1\<lparr>fetch_locks := hm_insert (app, signer) () (fetch_locks s1)\<rparr>))"

definition verifier_init :: "'y gate_env_scheme \<Rightarrow> config \<Rightarrow> 'z gate_proc_scheme \<Rightarrow> unit anyhow \<times> 'z gate_proc_scheme" where
  "verifier_init E cfg s =
     (case (case verifier_cfg cfg of
              Some c \<Rightarrow> rbind (verifier_new E c) (\<lambda>v. Inr (Some v))
            | None \<Rightarrow> Inr None) of
        Inl e \<Rightarrow> (Inl e, s)
      | Inr v \<Rightarrow>
          (let s1 = s\<lparr>mets := (mets s)\<lparr>verifier_enabled := (if v \<noteq> None then 1 else 0)\<rparr>\<rparr>
           in if VERIFIER s1 \<noteq> None then (Inl ''verifier::init called twice'', s1)
              else (Inr (), s1\<lparr>VERIFIER := Some v\<rparr>)))"

definition require_verified ::
    "'y gate_env_scheme \<Rightarrow> string \<Rightarrow> address \<Rightarrow> nat \<Rightarrow> 'z gate_proc_scheme \<Rightarrow> unit anyhow \<times> 'z gate_proc_scheme" where
  "require_verified E app signer scan_lag_wait s =
     (case VERIFIER s of
        Some (Some v) \<Rightarrow> verifier_require_verified E v app signer scan_lag_wait s
      | _ \<Rightarrow> (Inr (), s))"

section \<open>Specification\<close>

text \<open>Scan, asked at \<open>t\<close>, answered \<open>verified: true\<close> for the signer at \<open>t'\<close>.\<close>

definition vouched :: "'y gate_env_scheme \<Rightarrow> verifier \<Rightarrow> string \<Rightarrow> address \<Rightarrow> instant \<Rightarrow> instant \<Rightarrow> bool" where
  "vouched E v app signer t t' \<longleftrightarrow>
     (\<exists>r d. scan_answer E v app signer t = (Inr (Verdict True r), d) \<and> t' = t + d)"

text \<open>
  The invariant of the cache, relative to a set \<open>K\<close> of keys that are known to have been refused at
  \<open>t0\<close>: stamps are in the past, and a positive entry is backed by an answer of scan given at
  \<open>confirmed_at\<close>, for the keys of \<open>K\<close> one that was asked for at \<open>t0\<close> or later.
\<close>

definition backed ::
    "'y gate_env_scheme \<Rightarrow> verifier \<Rightarrow> instant \<Rightarrow> gate_key set \<Rightarrow> gate_key \<Rightarrow> instant \<Rightarrow> bool" where
  "backed E v t0 K key t' \<longleftrightarrow>
     (\<exists>t. (key \<in> K \<longrightarrow> t0 \<le> t) \<and> vouched E v (fst key) (snd key) t t')"

definition verdict_ok ::
    "'y gate_env_scheme \<Rightarrow> verifier \<Rightarrow> instant \<Rightarrow> gate_key set \<Rightarrow> gate_key \<Rightarrow> instant \<Rightarrow> cache_entry \<Rightarrow> bool" where
  "verdict_ok E v t0 K key now e \<longleftrightarrow>
     confirmed_at e \<le> stamped_at e \<and> stamped_at e \<le> now \<and> (verified e \<longrightarrow> backed E v t0 K key (confirmed_at e))"

definition gate_since ::
    "'y gate_env_scheme \<Rightarrow> verifier \<Rightarrow> instant \<Rightarrow> gate_key set \<Rightarrow> 'z gate_proc_scheme \<Rightarrow> bool" where
  "gate_since E v t0 K s \<longleftrightarrow>
     VERIFIER s = Some (Some v) \<and> t0 \<le> clock s \<and> hm_wf (verdicts s) \<and>
     (\<forall>key e. hm_get (verdicts s) key = Some e \<longrightarrow> verdict_ok E v t0 K key (clock s) e)"

definition admitted ::
    "'y gate_env_scheme \<Rightarrow> verifier \<Rightarrow> instant \<Rightarrow> gate_key set \<Rightarrow> gate_key \<Rightarrow> 'z gate_proc_scheme \<Rightarrow> bool" where
  "admitted E v t0 K key s' \<longleftrightarrow>
     (\<exists>t'. backed E v t0 K key t' \<and> t' \<le> clock s' \<and> elapsed (clock s') t' < MAX_VERDICT_STALENESS)"

text \<open>The invariant of the process, and what a success of the gate means.\<close>

definition gate_inv :: "'y gate_env_scheme \<Rightarrow> 'z gate_proc_scheme \<Rightarrow> bool" where
  "gate_inv E s \<longleftrightarrow> (\<forall>v. VERIFIER s = Some (Some v) \<longrightarrow> gate_since E v 0 {} s)"

definition gate_good :: "'y gate_env_scheme \<Rightarrow> gate_key \<Rightarrow> 'z gate_proc_scheme \<Rightarrow> bool" where
  "gate_good E key s' \<longleftrightarrow> (\<forall>v. VERIFIER s' = Some (Some v) \<longrightarrow> admitted E v 0 {} key s')"

definition gate_frame :: "'z gate_proc_scheme \<Rightarrow> 'z gate_proc_scheme \<Rightarrow> bool" where
  "gate_frame s s' \<longleftrightarrow> gate_proc.more s' = gate_proc.more s \<and> VERIFIER s' = VERIFIER s \<and>
     node_list_cache s' = node_list_cache s \<and> providers s' = providers s \<and> clock s \<le> clock s'"

section \<open>Lemmas\<close>

lemma gate_frame_refl [simp]: "gate_frame s s"
  by (simp add: gate_frame_def)

lemma gate_frame_trans: "gate_frame s t \<Longrightarrow> gate_frame t u \<Longrightarrow> gate_frame s u"
  by (auto simp: gate_frame_def)

lemma bump_gate_simps [simp]:
  "VERIFIER (bump f s) = VERIFIER s" "verdicts (bump f s) = verdicts s"
  "fetch_locks (bump f s) = fetch_locks s" "gate_proc.more (bump f s) = gate_proc.more s"
  by (simp_all add: bump_def)

lemma tick_gate_simps [simp]:
  "VERIFIER (tick d s) = VERIFIER s" "verdicts (tick d s) = verdicts s"
  "fetch_locks (tick d s) = fetch_locks s" "gate_proc.more (tick d s) = gate_proc.more s"
  by (simp_all add: tick_def)

lemma gate_sinceD:
  "gate_since E v t0 K s \<Longrightarrow> hm_get (verdicts s) key = Some e \<Longrightarrow> verdict_ok E v t0 K key (clock s) e"
  unfolding gate_since_def by blast

lemma verdict_ok_mono:
  "verdict_ok E v t0 K key now e \<Longrightarrow> now \<le> now' \<Longrightarrow> verdict_ok E v t0 K key now' e"
  by (auto simp: verdict_ok_def)

lemma gate_since_mono:
  assumes "gate_since E v t0 K s" "VERIFIER s' = VERIFIER s" "clock s \<le> clock s'" "verdicts s' = verdicts s"
  shows "gate_since E v t0 K s'"
  using assms verdict_ok_mono unfolding gate_since_def by (metis order_trans)

lemma gate_since_insert:
  assumes "gate_since E v t0 K s" "VERIFIER s' = VERIFIER s" "clock s \<le> clock s'"
    and "verdicts s' = hm_insert key e cache" "hm_wf cache"
    and "\<And>k x. hm_get cache k = Some x \<Longrightarrow> hm_get (verdicts s) k = Some x"
    and "verdict_ok E v t0 K key (clock s') e"
  shows "gate_since E v t0 K s'"
proof -
  have "verdict_ok E v t0 K k (clock s') x" if "hm_get (verdicts s') k = Some x" for k x
  proof (cases "k = key")
    case True
    with that assms(4,7) show ?thesis by simp
  next
    case False
    with that assms(4,6) have "hm_get (verdicts s) k = Some x" by simp
    with assms(1,3) show ?thesis by (blast intro: verdict_ok_mono gate_sinceD)
  qed
  with assms show ?thesis by (auto simp: gate_since_def)
qed

lemma fetch_answer:
  assumes "fetch E v app signer s = (outcome, s')"
  obtains d where "scan_answer E v app signer (clock s) = (outcome, d)" "s' = tick d s"
  using assms by (auto simp: fetch_def split: prod.splits)

lemma poll_scan_answer:
  assumes "poll_scan E v app signer deadline outcome s = (outcome', s')"
  shows "gate_frame s s' \<and> verdicts s' = verdicts s \<and> fetch_locks s' = fetch_locks s \<and>
    (outcome' = outcome \<and> s' = s \<or>
     (\<exists>t d. clock s \<le> t \<and> t \<le> deadline \<and> scan_answer E v app signer t = (outcome', d) \<and> clock s' = t + d))"
  using assms
proof (induction E v app signer deadline outcome s rule: poll_scan.induct)
  case (1 E v app signer deadline outcome s)
  show ?case
  proof (cases "no_verdict outcome \<and> clock s + SCAN_LAG_POLL \<le> deadline")
    case False
    with "1.prems" show ?thesis by (simp add: poll_scan.simps)
  next
    case True
    obtain o1 s1 where f: "fetch E v app signer (tick SCAN_LAG_POLL s) = (o1, s1)" by force
    from f obtain d where d: "scan_answer E v app signer (clock s + SCAN_LAG_POLL) = (o1, d)"
      and s1: "s1 = tick d (tick SCAN_LAG_POLL s)" by (rule fetch_answer) simp
    from "1.prems" True f have "poll_scan E v app signer deadline o1 s1 = (outcome', s')"
      by (simp add: poll_scan.simps [of E v app signer deadline outcome s])
    from "1.IH" [OF True f [symmetric] refl this]
    have IH: "gate_frame s1 s'" "verdicts s' = verdicts s1" "fetch_locks s' = fetch_locks s1"
      "outcome' = o1 \<and> s' = s1 \<or> (\<exists>t d. clock s1 \<le> t \<and> t \<le> deadline \<and>
         scan_answer E v app signer t = (outcome', d) \<and> clock s' = t + d)"
      by blast+
    have fr: "gate_frame s s1" by (simp add: s1 gate_frame_def)
    from IH(4) have "\<exists>t d. clock s \<le> t \<and> t \<le> deadline \<and> scan_answer E v app signer t = (outcome', d) \<and> clock s' = t + d"
    proof
      assume "outcome' = o1 \<and> s' = s1"
      with d s1 True show ?thesis
        by (intro exI [of _ "clock s + SCAN_LAG_POLL"] exI [of _ d]) auto
    next
      assume "\<exists>t d. clock s1 \<le> t \<and> t \<le> deadline \<and> scan_answer E v app signer t = (outcome', d) \<and> clock s' = t + d"
      moreover have "clock s \<le> clock s1" by (simp add: s1)
      ultimately show ?thesis by (meson order_trans)
    qed
    with IH fr s1 show ?thesis by (auto intro: gate_frame_trans)
  qed
qed

text \<open>The cache a settlement starts from: the old one, possibly without dead entries.\<close>

lemma prune_cache_ok:
  assumes "hm_wf cache"
  shows "hm_wf (prune_cache now cache)"
    and "hm_get (prune_cache now cache) k = Some x \<Longrightarrow> hm_get cache k = Some x"
  using assms by (auto simp: prune_cache_def hm_wf_retain hm_get_retain split: if_splits option.splits)

lemma restamp_stale_Some:
  assumes "restamp_stale key now cache = Some cache'"
  obtains e where "hm_get cache key = Some e" "verified e"
    "elapsed now (confirmed_at e) < MAX_VERDICT_STALENESS" "cache' = hm_insert key (e\<lparr>stamped_at := now\<rparr>) cache"
  using assms by (auto simp: restamp_stale_def split: option.splits if_splits)

lemma settle_cases:
  assumes "settle key outcome s = (r, s')"
  obtains (refusing) why f x y where "r = Inl why"
      "s' = bump f (s\<lparr>verdicts := hm_insert key (refused (clock s) x y) (prune_cache (clock s) (verdicts s))\<rparr>)"
  | (stale) c f where "restamp_stale key (clock s) (prune_cache (clock s) (verdicts s)) = Some c" "s' = bump f (s\<lparr>verdicts := c\<rparr>)"
  | (fresh) reason f where "outcome = Inr (Verdict True reason)"
      "s' = bump f (s\<lparr>verdicts := hm_insert key
         \<lparr> verified = True, refusal = [], damp = 0, stamped_at = clock s, confirmed_at = clock s \<rparr>
         (prune_cache (clock s) (verdicts s))\<rparr>)"
proof -
  let ?cache = "prune_cache (clock s) (verdicts s)"
  consider (none) "restamp_stale key (clock s) ?cache = None" "(\<exists>e. outcome = Inl e) \<or> outcome = Inr Unknown"
    | (some) c where "restamp_stale key (clock s) ?cache = Some c" "(\<exists>e. outcome = Inl e) \<or> outcome = Inr Unknown"
    | (bad) reason where "outcome = Inr (Verdict False reason)" | (good) reason where "outcome = Inr (Verdict True reason)"
    by (metis answer.exhaust option.exhaust sumE)
  then show thesis
  proof cases
    case none
    with assms show thesis by (auto simp: settle_def Let_def intro: refusing)
  next
    case some
    with assms show thesis by (auto simp: settle_def Let_def intro: stale)
  next
    case bad
    with assms show thesis by (auto simp: settle_def Let_def intro: refusing)
  next
    case good
    with assms show thesis by (auto simp: settle_def Let_def intro: fresh)
  qed
qed

lemma restamp_ok:
  assumes inv: "gate_since E v t0 K s"
    and c: "restamp_stale key (clock s) (prune_cache (clock s) (verdicts s)) = Some c" and s1: "s1 = bump f (s\<lparr>verdicts := c\<rparr>)"
  shows "gate_since E v t0 K s1 \<and> admitted E v t0 K key s1"
proof -
  have "hm_wf (verdicts s)" using inv by (simp add: gate_since_def)
  note cache = prune_cache_ok [OF this, of "clock s"]
  from c obtain e where e: "hm_get (prune_cache (clock s) (verdicts s)) key = Some e" "verified e"
    "elapsed (clock s) (confirmed_at e) < MAX_VERDICT_STALENESS"
    and c': "c = hm_insert key (e\<lparr>stamped_at := clock s\<rparr>) (prune_cache (clock s) (verdicts s))" by (rule restamp_stale_Some)
  from gate_sinceD [OF inv cache(2) [OF e(1)]]
  have ok: "verdict_ok E v t0 K key (clock s) (e\<lparr>stamped_at := clock s\<rparr>)"
    and b: "backed E v t0 K key (confirmed_at e)" "confirmed_at e \<le> clock s"
    using e(2) by (auto simp: verdict_ok_def)
  have "gate_since E v t0 K s1"
    using inv _ _ _ cache by (rule gate_since_insert [where key = key and e = "e\<lparr>stamped_at := clock s\<rparr>"]) (simp_all add: s1 c' ok)
  moreover have "admitted E v t0 K key s1" using b e(3) by (auto simp: admitted_def s1)
  ultimately show ?thesis ..
qed

lemma settle_ok:
  assumes inv: "gate_since E v t0 K s"
    and asked: "scan_answer E v (fst key) (snd key) t = (outcome, d)" "key \<in> K \<Longrightarrow> t0 \<le> t" "clock s = t + d"
    and call: "settle key outcome s = (r, s')"
  shows "gate_since E v t0 K s' \<and> gate_frame s s' \<and> clock s' = clock s \<and>
    (r = Inr () \<longrightarrow> admitted E v t0 K key s')"
proof -
  have "hm_wf (verdicts s)" using inv by (simp add: gate_since_def)
  note cache = prune_cache_ok [OF this, of "clock s"]
  have insert: "gate_since E v t0 K s1"
    if "verdict_ok E v t0 K key (clock s) e" "s1 = bump f (s\<lparr>verdicts := hm_insert key e (prune_cache (clock s) (verdicts s))\<rparr>)" for e f s1
    using inv _ _ _ cache by (rule gate_since_insert [where key = key and e = e]) (simp_all add: that)
  from call show ?thesis
  proof (cases rule: settle_cases)
    case (refusing why f x y)
    have "verdict_ok E v t0 K key (clock s) (refused (clock s) x y)" by (simp add: verdict_ok_def refused_def)
    from insert [OF this refusing(2)] refusing show ?thesis by (simp add: gate_frame_def)
  next
    case (stale c f)
    with restamp_ok [OF inv stale] show ?thesis by (simp add: gate_frame_def)
  next
    case (fresh reason f)
    with asked have b: "backed E v t0 K key (clock s)" by (auto simp: backed_def vouched_def)
    then have "verdict_ok E v t0 K key (clock s) \<lparr> verified = True, refusal = [], damp = 0,
        stamped_at = clock s, confirmed_at = clock s \<rparr>" by (simp add: verdict_ok_def)
    from insert [OF this fresh(2)] b fresh(2) show ?thesis
      by (auto simp: gate_frame_def admitted_def elapsed_def MAX_VERDICT_STALENESS_def from_secs_def)
  qed
qed

lemma cached_decision_cases:
  assumes "cached_decision key s = (d, s1)"
  obtains (none) "d = None" "s1 = s"
    | (allow) e where "hm_get (verdicts s) key = Some e" "verified e"
        "elapsed (clock s) (stamped_at e) < POSITIVE_REFRESH"
        "elapsed (clock s) (confirmed_at e) < MAX_VERDICT_STALENESS"
        "d = Some (Inr ())" "s1 = bump verifier_allowed_update s"
    | (deny) e where "hm_get (verdicts s) key = Some e" "\<not> verified e"
        "elapsed (clock s) (stamped_at e) < damp e"
        "d = Some (Inl (refusal e))" "s1 = bump verifier_denied_update s"
proof (cases "hm_get (verdicts s) key")
  case None
  with assms none show ?thesis by (simp add: cached_decision_def)
next
  case (Some e)
  consider "verified e \<and> elapsed (clock s) (stamped_at e) < POSITIVE_REFRESH
      \<and> elapsed (clock s) (confirmed_at e) < MAX_VERDICT_STALENESS"
    | "\<not> verified e \<and> elapsed (clock s) (stamped_at e) < damp e"
    | "d = None \<and> s1 = s"
    using assms Some by (simp add: cached_decision_def split: if_splits)
  then show ?thesis
  proof cases
    case 1
    with assms Some allow show ?thesis by (simp add: cached_decision_def)
  next
    case 2
    with assms Some deny show ?thesis by (simp add: cached_decision_def)
  next
    case 3
    with none show ?thesis by simp
  qed
qed

lemma cached_decision_ok:
  assumes inv: "gate_since E v t0 K s" and call: "cached_decision key s = (d, s1)"
  shows "gate_since E v t0 K s1 \<and> gate_frame s s1 \<and> clock s1 = clock s \<and> verdicts s1 = verdicts s \<and>
    (d = Some (Inr ()) \<longrightarrow> admitted E v t0 K key s1)"
  using call
proof (cases rule: cached_decision_cases)
  case none
  with inv show ?thesis by simp
next
  case (allow e)
  from gate_sinceD [OF inv allow(1)] allow(2,4,6) have "admitted E v t0 K key s1"
    by (auto simp: verdict_ok_def admitted_def)
  moreover have "gate_since E v t0 K s1" by (rule gate_since_mono [OF inv]) (simp_all add: allow(6))
  ultimately show ?thesis by (simp add: allow(6) gate_frame_def)
next
  case (deny e)
  have "gate_since E v t0 K s1" by (rule gate_since_mono [OF inv]) (simp_all add: deny(5))
  then show ?thesis by (simp add: deny(4,5) gate_frame_def)
qed

lemma require_verified_locked_ok:
  assumes inv: "gate_since E v t0 K s" and call: "require_verified_locked E v app signer w s = (r, s')"
  shows "gate_since E v t0 K s' \<and> gate_frame s s' \<and> (r = Inr () \<longrightarrow> admitted E v t0 K (app, signer) s')"
proof -
  obtain dc s1 where c: "cached_decision (app, signer) s = (dc, s1)" by force
  note ok1 = cached_decision_ok [OF inv c]
  show ?thesis
  proof (cases dc)
    case (Some d)
    with c call ok1 show ?thesis by (auto simp: require_verified_locked_def Let_def)
  next
    case None
    obtain o1 s2 where f: "fetch E v app signer s1 = (o1, s2)" by force
    then obtain d where d: "scan_answer E v app signer (clock s1) = (o1, d)" and s2: "s2 = tick d s1"
      by (rule fetch_answer)
    obtain o2 s3 where o2: "(if \<not> has_stale_positive (app, signer) s2
        then poll_scan E v app signer (clock s2 + w) o1 s2 else (o1, s2)) = (o2, s3)" by force
    have "gate_frame s2 s3 \<and> verdicts s3 = verdicts s2 \<and>
        (\<exists>t d. clock s1 \<le> t \<and> scan_answer E v app signer t = (o2, d) \<and> clock s3 = t + d)"
    proof (cases "has_stale_positive (app, signer) s2")
      case True
      with o2 d s2 show ?thesis by auto
    next
      case False
      with o2 have "poll_scan E v app signer (clock s2 + w) o1 s2 = (o2, s3)" by simp
      from poll_scan_answer [OF this] d s2 show ?thesis
        by (metis order_trans tick_simps(1) le_add1 order_refl)
    qed
    then obtain t d' where fr3: "gate_frame s2 s3" "verdicts s3 = verdicts s2"
      and t: "clock s1 \<le> t" "scan_answer E v app signer t = (o2, d')" "clock s3 = t + d'" by blast
    obtain q s4 where q: "settle (app, signer) o2 s3 = (q, s4)" by force
    have fr2: "gate_frame s s2" using ok1 by (auto simp: s2 gate_frame_def)
    have "gate_since E v t0 K s3"
      by (rule gate_since_mono [OF inv]) (use fr2 fr3 ok1 in \<open>auto simp: gate_frame_def s2\<close>)
    moreover have "t0 \<le> t" using inv ok1 t(1) by (simp add: gate_since_def)
    ultimately have ok4: "gate_since E v t0 K s4 \<and> gate_frame s3 s4 \<and> clock s4 = clock s3 \<and>
        (q = Inr () \<longrightarrow> admitted E v t0 K (app, signer) s4)"
      using t q by (intro settle_ok [where t = t and d = d' and outcome = o2]) simp_all
    have "(r, s') = (q, s4\<lparr>fetch_locks := hm_remove (app, signer) (fetch_locks s4)\<rparr>)"
      using call c None f o2 q by (simp add: require_verified_locked_def Let_def)
    with ok4 fr2 fr3 show ?thesis
      by (auto simp: gate_since_def admitted_def gate_frame_def)
  qed
qed

lemma verifier_require_verified_ok:
  assumes inv: "gate_since E v t0 K s" and call: "verifier_require_verified E v app signer w s = (r, s')"
  shows "gate_since E v t0 K s' \<and> gate_frame s s' \<and> (r = Inr () \<longrightarrow> admitted E v t0 K (app, signer) s')"
proof -
  obtain dc s1 where c: "cached_decision (app, signer) s = (dc, s1)" by force
  note ok1 = cached_decision_ok [OF inv c]
  show ?thesis
  proof (cases dc)
    case (Some d)
    with c call ok1 show ?thesis by (auto simp: verifier_require_verified_def)
  next
    case None
    let ?s2 = "s1\<lparr>fetch_locks := hm_insert (app, signer) () (fetch_locks s1)\<rparr>"
    have inv2: "gate_since E v t0 K ?s2" and fr2: "gate_frame s ?s2"
      using ok1 by (auto simp: gate_since_def gate_frame_def)
    from call c None have "require_verified_locked E v app signer w ?s2 = (r, s')"
      by (simp add: verifier_require_verified_def)
    from require_verified_locked_ok [OF inv2 this] fr2 show ?thesis
      by (blast intro: gate_frame_trans)
  qed
qed

lemma require_verified_off:
  "(\<forall>v. VERIFIER s \<noteq> Some (Some v)) \<Longrightarrow> require_verified E app signer w s = (Inr (), s)"
  by (auto simp: require_verified_def split: option.splits)

lemma require_verified_on:
  "VERIFIER s = Some (Some v) \<Longrightarrow>
     require_verified E app signer w s = verifier_require_verified E v app signer w s"
  by (simp add: require_verified_def)

lemma require_verified_since:
  assumes "gate_since E v t0 K s" "require_verified E app signer w s = (r, s')"
  shows "gate_since E v t0 K s' \<and> gate_frame s s' \<and> (r = Inr () \<longrightarrow> admitted E v t0 K (app, signer) s')"
proof -
  from assms(1) have "VERIFIER s = Some (Some v)" by (simp add: gate_since_def)
  with assms(2) have "verifier_require_verified E v app signer w s = (r, s')"
    by (simp add: require_verified_on)
  with assms(1) show ?thesis by (rule verifier_require_verified_ok)
qed

lemma gate_inv_since: "gate_inv E s \<Longrightarrow> VERIFIER s = Some (Some v) \<Longrightarrow> gate_since E v 0 {} s"
  by (simp add: gate_inv_def)

lemma require_verified_ok:
  assumes "gate_inv E s" "require_verified E app signer w s = (r, s')"
  shows "gate_inv E s' \<and> gate_frame s s' \<and> (r = Inr () \<longrightarrow> gate_good E (app, signer) s')"
proof (cases "\<exists>v. VERIFIER s = Some (Some v)")
  case False
  then have "s' = s" using require_verified_off [of s E app signer w] assms(2) by auto
  with False assms show ?thesis by (auto simp: gate_good_def)
next
  case True
  then obtain v where v: "VERIFIER s = Some (Some v)" by blast
  from require_verified_since [OF gate_inv_since [OF assms(1) v] assms(2)] v
  show ?thesis by (auto simp: gate_inv_def gate_good_def gate_frame_def)
qed

lemma gate_inv_tick: "gate_inv E s \<Longrightarrow> gate_inv E (tick d s)"
  unfolding gate_inv_def by (auto intro: gate_since_mono)

text \<open>A query of the gate some time later: the client side of \<open>admission\<close>.\<close>

definition gate_query ::
    "'y gate_env_scheme \<Rightarrow> nat \<times> gate_key \<times> nat \<Rightarrow> 'z gate_proc_scheme \<Rightarrow> unit anyhow \<times> 'z gate_proc_scheme" where
  "gate_query E q s = (case q of (d, (app, signer), w) \<Rightarrow> require_verified E app signer w (tick d s))"

interpretation gate: admission "gate_query E" "gate_inv E" "\<lambda>q s' _. gate_good E (fst (snd q)) s'"
proof unfold_locales
  fix s :: "'c gate_proc_scheme" and q :: "nat \<times> gate_key \<times> nat"
  assume inv: "gate_inv E s"
  obtain d app signer w where q: "q = (d, (app, signer), w)" by (metis prod.exhaust)
  obtain r s' where call: "require_verified E app signer w (tick d s) = (r, s')" by force
  from require_verified_ok [OF gate_inv_tick [OF inv] call]
  show "gate_inv E (snd (gate_query E q s))" by (simp add: gate_query_def q call)
next
  fix s s' :: "'c gate_proc_scheme" and q :: "nat \<times> gate_key \<times> nat" and a
  assume inv: "gate_inv E s" and call: "gate_query E q s = (Inr a, s')"
  obtain d app signer w where q: "q = (d, (app, signer), w)" by (metis prod.exhaust)
  from call q have "require_verified E app signer w (tick d s) = (Inr (), s')"
    by (simp add: gate_query_def)
  from require_verified_ok [OF gate_inv_tick [OF inv] this] q
  show "gate_good E (fst (snd q)) s'" by simp
qed

text \<open>The same queries, relative to the keys refused at \<open>t0\<close>.\<close>

interpretation gate_after: admission "gate_query E" "gate_since E v t0 K"
  "\<lambda>q s' _. admitted E v t0 K (fst (snd q)) s'"
proof unfold_locales
  fix s :: "'c gate_proc_scheme" and q :: "nat \<times> gate_key \<times> nat"
  assume inv: "gate_since E v t0 K s"
  obtain d app signer w where q: "q = (d, (app, signer), w)" by (metis prod.exhaust)
  obtain r s' where call: "require_verified E app signer w (tick d s) = (r, s')" by force
  have "gate_since E v t0 K (tick d s)" by (rule gate_since_mono [OF inv]) simp_all
  from require_verified_since [OF this call]
  show "gate_since E v t0 K (snd (gate_query E q s))" by (simp add: gate_query_def q call)
next
  fix s s' :: "'c gate_proc_scheme" and q :: "nat \<times> gate_key \<times> nat" and a
  assume inv: "gate_since E v t0 K s" and call: "gate_query E q s = (Inr a, s')"
  obtain d app signer w where q: "q = (d, (app, signer), w)" by (metis prod.exhaust)
  from call q have c: "require_verified E app signer w (tick d s) = (Inr (), s')"
    by (simp add: gate_query_def)
  have "gate_since E v t0 K (tick d s)" by (rule gate_since_mono [OF inv]) simp_all
  from require_verified_since [OF this c] q
  show "admitted E v t0 K (fst (snd q)) s'" by simp
qed

subsection \<open>Refusals\<close>

lemma refused_simps [simp]:
  "\<not> verified (refused now x d)" "stamped_at (refused now x d) = now"
  "damp (refused now x d) = d" "refusal (refused now x d) = x"
  by (simp_all add: refused_def)

text \<open>A settlement that cannot use an old positive leaves a refusal in the cache, with its damping.\<close>

lemma settle_refusal_entry:
  assumes "settle key outcome s = (Inl x, s')"
  shows "hm_get (verdicts s') key = Some (case outcome of
      Inr (Verdict ok reason) \<Rightarrow>
        refused (clock s) (''attestation not verified (recently checked): '' @ reason) NEGATIVE_TTL
    | Inr Unknown \<Rightarrow> refused (clock s) (''attestation not verified: '' @ NOT_REGISTERED) SCAN_LAG_DAMP
    | Inl e \<Rightarrow> refused (clock s) ''attestation not verified (recently checked): verifier unreachable'' NEGATIVE_TTL)"
proof (cases outcome)
  case (Inl e)
  with assms show ?thesis
    by (cases "restamp_stale key (clock s) (prune_cache (clock s) (verdicts s))")
      (auto simp: settle_def Let_def)
next
  case (Inr a)
  show ?thesis
  proof (cases a)
    case Unknown
    with Inr assms show ?thesis
      by (cases "restamp_stale key (clock s) (prune_cache (clock s) (verdicts s))")
        (auto simp: settle_def Let_def)
  next
    case (Verdict ok reason)
    with Inr assms show ?thesis by (cases ok) (auto simp: settle_def Let_def)
  qed
qed

lemma settle_refuses:
  assumes "settle key outcome s = (Inl x, s')"
  shows "\<exists>e. hm_get (verdicts s') key = Some e \<and> \<not> verified e"
  unfolding settle_refusal_entry [OF assms] by (simp split: sum.split answer.split)

lemma cached_decision_none:
  assumes "cached_decision key s = (None, s1)"
  shows "s1 = s"
  using assms by (cases rule: cached_decision_cases) simp_all

lemma cached_decision_none_locks:
  assumes "cached_decision key s = (None, s1)"
  shows "cached_decision key (s\<lparr>fetch_locks := x\<rparr>) = (None, s\<lparr>fetch_locks := x\<rparr>)"
proof (cases "hm_get (verdicts s) key")
  case None
  then show ?thesis by (simp add: cached_decision_def)
next
  case (Some e)
  have "\<not> (verified e \<and> elapsed (clock s) (stamped_at e) < POSITIVE_REFRESH
      \<and> elapsed (clock s) (confirmed_at e) < MAX_VERDICT_STALENESS)"
    "\<not> (\<not> verified e \<and> elapsed (clock s) (stamped_at e) < damp e)"
    using assms Some unfolding cached_decision_def by (auto split: if_splits)
  with Some show ?thesis by (simp add: cached_decision_def del: not_less)
qed

text \<open>One call: answered from the cache, or asked, waited for and settled.\<close>

lemma verifier_require_verified_cases:
  assumes "verifier_require_verified E v app signer w s = (r, s')"
  obtains (cached) "cached_decision (app, signer) s = (Some r, s')"
    | (asked) o1 s2 o2 s3 s4 where "cached_decision (app, signer) s = (None, s)"
        "fetch E v app signer (s\<lparr>fetch_locks := hm_insert (app, signer) () (fetch_locks s)\<rparr>) = (o1, s2)"
        "(if \<not> has_stale_positive (app, signer) s2
          then poll_scan E v app signer (clock s2 + w) o1 s2 else (o1, s2)) = (o2, s3)"
        "settle (app, signer) o2 s3 = (r, s4)"
        "s' = s4\<lparr>fetch_locks := hm_remove (app, signer) (fetch_locks s4)\<rparr>"
proof -
  obtain dc s1 where c: "cached_decision (app, signer) s = (dc, s1)" by force
  show thesis
  proof (cases dc)
    case (Some d)
    with c assms cached show ?thesis by (simp add: verifier_require_verified_def)
  next
    case None
    let ?s = "s\<lparr>fetch_locks := hm_insert (app, signer) () (fetch_locks s)\<rparr>"
    note nl = cached_decision_none [OF c [unfolded None]] cached_decision_none_locks [OF c [unfolded None]]
    obtain o1 s2 where f: "fetch E v app signer ?s = (o1, s2)" by force
    obtain o2 s3 where o2: "(if \<not> has_stale_positive (app, signer) s2
        then poll_scan E v app signer (clock s2 + w) o1 s2 else (o1, s2)) = (o2, s3)" by force
    obtain q s4 where q: "settle (app, signer) o2 s3 = (q, s4)" by force
    have "(r, s') = (q, s4\<lparr>fetch_locks := hm_remove (app, signer) (fetch_locks s4)\<rparr>)"
      using assms c None nl f o2 q
      by (simp add: verifier_require_verified_def require_verified_locked_def Let_def)
    with asked [OF _ f o2 _] q c None nl show ?thesis by simp
  qed
qed

lemma require_verified_refuses:
  assumes "verifier_require_verified E v app signer w s = (Inl x, s')"
  obtains e where "hm_get (verdicts s') (app, signer) = Some e" "\<not> verified e"
  using assms
proof (cases rule: verifier_require_verified_cases)
  case cached
  then show ?thesis by (cases rule: cached_decision_cases) (auto intro: that)
next
  case (asked o1 s2 o2 s3 s4)
  from asked(4) obtain e where "hm_get (verdicts s4) (app, signer) = Some e" "\<not> verified e"
    using settle_refuses by blast
  with asked(5) that show ?thesis by simp
qed

lemma gate_since_refused:
  assumes "gate_since E v t0 K s" "hm_get (verdicts s) key = Some e" "\<not> verified e"
  shows "gate_since E v (clock s) {key} s"
proof -
  have "verdict_ok E v (clock s) {key} k (clock s) x" if "hm_get (verdicts s) k = Some x" for k x
    using gate_sinceD [OF assms(1) that] assms(2,3) that
    by (auto simp: verdict_ok_def backed_def)
  with assms(1) show ?thesis by (auto simp: gate_since_def)
qed

subsection \<open>Time\<close>

lemma settle_clock: "settle key outcome s = (r, s') \<Longrightarrow> clock s' = clock s"
  by (auto simp: settle_def Let_def split: sum.splits answer.splits option.splits if_splits)

lemma cached_decision_clock: "cached_decision key s = (d, s') \<Longrightarrow> clock s' = clock s"
  by (auto simp: cached_decision_def split: option.splits if_splits)

lemma poll_scan_no_wait: "w < SCAN_LAG_POLL \<Longrightarrow> poll_scan E v app signer (clock s + w) outcome s = (outcome, s)"
  by (simp add: poll_scan.simps)

lemma require_verified_time:
  assumes "\<forall>t. snd (scan_answer E v app signer t) \<le> b"
    and "verifier_require_verified E v app signer w s = (r, s')"
  shows "clock s' \<le> clock s + b + (if w < SCAN_LAG_POLL then 0 else w + b)"
  using assms(2)
proof (cases rule: verifier_require_verified_cases)
  case cached
  then show ?thesis using cached_decision_clock by fastforce
next
  case (asked o1 s2 o2 s3 s4)
  from asked(2) obtain d where d: "scan_answer E v app signer (clock s) = (o1, d)"
    and s2: "clock s2 = clock s + d" by (rule fetch_answer) simp
  from assms(1) d have "d \<le> b" by (metis snd_conv)
  have s': "clock s' = clock s3" using asked(5) settle_clock [OF asked(4)] by simp
  have "clock s3 \<le> clock s2 + (if w < SCAN_LAG_POLL then 0 else w + b)"
  proof (cases "has_stale_positive (app, signer) s2 \<or> w < SCAN_LAG_POLL")
    case True
    with asked(3) show ?thesis by (auto simp: poll_scan_no_wait split: if_splits)
  next
    case False
    with asked(3) have "poll_scan E v app signer (clock s2 + w) o1 s2 = (o2, s3)" by simp
    from poll_scan_answer [OF this]
    consider "s3 = s2" | t d where "t \<le> clock s2 + w" "scan_answer E v app signer t = (o2, d)" "clock s3 = t + d"
      by blast
    then show ?thesis
    proof cases
      case 1
      then show ?thesis by simp
    next
      case (2 t d)
      from assms(1) 2(2) have "d \<le> b" by (metis snd_conv)
      with 2 False show ?thesis by simp
    qed
  qed
  with s' s2 \<open>d \<le> b\<close> show ?thesis by simp
qed

text \<open>A call that finds no usable entry and gets the same kind of answer throughout.\<close>

lemma require_verified_unseen:
  fixes s :: "'z gate_proc_scheme"
  assumes "hm_get (verdicts s) (app, signer) = None"
    and "\<forall>t \<ge> clock s. fst (scan_answer E v app signer t) = a"
    and "verifier_require_verified E v app signer w s = (r, s')"
  obtains s3 s4 :: "'z gate_proc_scheme" where "settle (app, signer) a s3 = (r, s4)" "verdicts s3 = verdicts s"
    "verdicts s' = verdicts s4" "clock s' = clock s3" "VERIFIER s' = VERIFIER s"
  using assms(3)
proof (cases rule: verifier_require_verified_cases)
  case cached
  with assms(1) show ?thesis by (simp add: cached_decision_def)
next
  case (asked o1 s2 o2 s3 s4)
  from asked(2) obtain d where d: "scan_answer E v app signer (clock s) = (o1, d)"
    and s2: "s2 = tick d (s\<lparr>fetch_locks := hm_insert (app, signer) () (fetch_locks s)\<rparr>)"
    by (rule fetch_answer) simp
  from assms(2) d have o1: "o1 = a" by (metis fst_conv order_refl)
  have "\<not> has_stale_positive (app, signer) s2" by (simp add: has_stale_positive_def s2 assms(1))
  with asked(3) have poll: "poll_scan E v app signer (clock s2 + w) o1 s2 = (o2, s3)" by simp
  note p = poll_scan_answer [OF poll]
  moreover have "clock s \<le> clock s2" by (simp add: s2)
  ultimately have "o2 = a" using o1 assms(2) by (metis fst_conv order_trans)
  moreover have "VERIFIER s4 = VERIFIER s3"
    using asked(4) unfolding settle_def Let_def
    by (auto split: sum.splits answer.splits option.splits if_splits)
  ultimately show ?thesis
    using asked(4,5) settle_clock [OF asked(4)] p s2 by (intro that [of s3 s4]) (auto simp: gate_frame_def)
qed

lemma settle_unseen:
  assumes "hm_wf (verdicts s)" "hm_get (verdicts s) key = None"
  shows "restamp_stale key now (prune_cache now (verdicts s)) = None"
proof -
  have "hm_get (prune_cache now (verdicts s)) key = None"
    using prune_cache_ok(2) [OF assms(1), of now key] assms(2)
    by (metis not_None_eq)
  then show ?thesis by (simp add: restamp_stale_def)
qed

lemma cached_refusal:
  assumes "VERIFIER s = Some (Some v)" "hm_get (verdicts s) (app, signer) = Some (refused (clock s) x n)"
    and "d < n"
  shows "require_verified E app signer w (tick d s) = (Inl x, bump verifier_denied_update (tick d s))"
  using assms
  by (simp add: require_verified_on verifier_require_verified_def cached_decision_def elapsed_def)

text \<open>A positive that is still usable survives the pruning of the cache.\<close>

lemma prune_cache_keeps:
  assumes "gate_since E v t0 K s0" "hm_get (verdicts s0) key = Some e" "elapsed now (confirmed_at e) < MAX_VERDICT_STALENESS"
  shows "hm_get (prune_cache now (verdicts s0)) key = Some e"
proof -
  from gate_sinceD [OF assms(1,2)] assms(3) have "elapsed now (stamped_at e) < MAX_VERDICT_STALENESS"
    by (auto simp: verdict_ok_def elapsed_def)
  moreover have "hm_wf (verdicts s0)" using assms(1) by (simp add: gate_since_def)
  ultimately show ?thesis using assms(2) by (simp add: prune_cache_def hm_get_retain)
qed

lemma settle_outage:
  assumes "gate_since E v t0 K s" "hm_get (verdicts s) key = Some e" "verified e"
    and "elapsed (clock s) (confirmed_at e) < MAX_VERDICT_STALENESS" "no_verdict outcome"
  shows "\<exists>s'. settle key outcome s = (Inr (), s')"
proof -
  have "restamp_stale key (clock s) (prune_cache (clock s) (verdicts s)) \<noteq> None"
    using prune_cache_keeps [OF assms(1,2,4)] assms(3,4) by (simp add: restamp_stale_def)
  with assms(5) show ?thesis
    by (cases outcome; cases "projr outcome") (auto simp: settle_def Let_def no_verdict_def)
qed

lemma starts_with_http_https: "starts_with ''https://'' s \<Longrightarrow> \<not> starts_with ''http://'' s"
proof
  assume a: "starts_with ''https://'' s" and b: "starts_with ''http://'' s"
  from a have "take 8 s = ''https://''" by (simp add: starts_with_def numeral_eq_Suc)
  then have "take 7 (take 8 s) = take 7 ''https://''" by (rule arg_cong)
  then have "take 7 s = ''https:/''" by simp
  with b show False by (simp add: starts_with_def numeral_eq_Suc)
qed

lemma collect_results_ok:
  "collect_results f xs = Inr ys \<Longrightarrow> y \<in> set ys \<Longrightarrow> \<exists>x \<in> set xs. f x = Inr y"
  by (induction xs arbitrary: ys) (auto simp: rbind_Inr_iff)

lemma collect_results_all:
  "collect_results f xs = Inr ys \<Longrightarrow> length ys = length xs \<and> (\<forall>x \<in> set xs. \<exists>y. f x = Inr y)"
  by (induction xs arbitrary: ys) (auto simp: rbind_Inr_iff)

lemma decode_pin_ok: "decode_pin E k = Inr b \<longleftrightarrow> hex_decode E (trim_0x k) = Inr b \<and> length b = 32"
  by (auto simp: decode_pin_def rbind_Inr_iff map_err_def split: if_splits sum.splits)

lemma scan_answer_pinned:
  assumes "vclient v = PinnedClient pins" "scan_answer E v app signer t = (Inr a, d)"
  shows "\<exists>spki. x509_spki E (scan_cert E t) = Inr spki \<and> sha256 E spki \<in> set pins"
proof -
  from assms(2) obtain st body where "send_verify E v app signer t = (HttpReply st body, d)"
    by (auto simp: scan_answer_def split: prod.splits scan_reply.splits if_splits)
  with assms(1) have "\<exists>u. verify_server_cert E pins (scan_cert E t) = Inr u"
    by (auto simp: send_verify_def Let_def split: prod.splits sum.splits)
  then show ?thesis
    by (auto simp: verify_server_cert_def rbind_Inr_iff Let_def list_ex_iff split: if_splits)
qed

section \<open>A concrete scan\<close>

text \<open>A scan behind the pinned key that refuses every signer before 100 s and vouches afterwards.\<close>

definition demo_gate :: gate_env where
  "demo_gate = chain_env.extend demo_chain (gate_env.fields (\<lambda>t. replicate 32 3)
     (\<lambda>t url hdr app signer.
        (HttpReply 200 (Inr (if t < 100000000000 then (False, Some ''bad quote'') else (True, None))),
         1000000000))
     (\<lambda>cert. Inr cert) (Inr ()))"

definition demo_verifier_cfg :: verifier_config where
  "demo_verifier_cfg = \<lparr> vurl = ''https://scan/'', pubkeys = [demo_hex_encode (replicate 32 3)],
     api_key = [], insecure_http = False \<rparr>"

definition demo_verifier :: verifier where
  "demo_verifier = \<lparr> vcfg = demo_verifier_cfg, vclient = PinnedClient [replicate 32 3] \<rparr>"

definition demo_gate_proc :: gate_proc where
  "demo_gate_proc = \<lparr> clock = 0, mets = metrics_new 0, providers = hm_empty, node_list_cache = hm_empty,
     VERIFIER = Some (Some demo_verifier), verdicts = hm_empty, fetch_locks = hm_empty \<rparr>"

text \<open>The same process at 200 s, with one signer confirmed at 101 s.\<close>

definition demo_gate_warm :: gate_proc where
  "demo_gate_warm = demo_gate_proc\<lparr>clock := 200000000000, verdicts := hm_insert (''app'', demo_addr1)
     \<lparr> verified = True, refusal = [], damp = 0, stamped_at = 101000000000,
       confirmed_at = 101000000000 \<rparr> hm_empty\<rparr>"

lemma demo_scan_answer: "scan_answer demo_gate demo_verifier app signer t =
    (Inr (if t < 100000000000 then Verdict False ''bad quote'' else Verdict True []), 1000000000)"
  by (simp add: scan_answer_def send_verify_def Let_def verify_server_cert_def demo_gate_def
      demo_chain_def demo_seal_def demo_crates_def demo_verifier_def demo_verifier_cfg_def demo_hash_def
      crates.defs seal_crates.defs chain_env.defs gate_env.defs)

lemma demo_gate_proc_inv: "gate_inv E demo_gate_proc"
  by (simp add: gate_inv_def gate_since_def demo_gate_proc_def)

lemma demo_gate_warm_inv: "gate_inv demo_gate demo_gate_warm"
proof -
  have "vouched demo_gate demo_verifier ''app'' demo_addr1 100000000000 101000000000"
    by (simp add: vouched_def demo_scan_answer)
  then have "backed demo_gate demo_verifier 0 {} (''app'', demo_addr1) 101000000000"
    by (auto simp: backed_def)
  then show ?thesis
    by (auto simp: gate_inv_def gate_since_def demo_gate_warm_def demo_gate_proc_def verdict_ok_def
        split: if_splits)
qed

lemma demo_gate_VERIFIER:
  "VERIFIER demo_gate_proc = Some (Some demo_verifier)"
  "VERIFIER demo_gate_warm = Some (Some demo_verifier)"
  by (simp_all add: demo_gate_proc_def demo_gate_warm_def)

lemma demo_gate_refuses: "\<exists>x s1. require_verified demo_gate ''app'' demo_addr1 0 demo_gate_proc = (Inl x, s1) \<and>
    clock s1 = 1000000000 \<and>
    verdicts s1 = hm_insert (''app'', demo_addr1) (refused 1000000000
      (''attestation not verified (recently checked): '' @ ''bad quote'') NEGATIVE_TTL) hm_empty \<and>
    VERIFIER s1 = Some (Some demo_verifier)"
  by (simp add: require_verified_def verifier_require_verified_def require_verified_locked_def
      cached_decision_def fetch_def demo_scan_answer has_stale_positive_def poll_scan.simps no_verdict_def
      settle_def prune_cache_def hm_empty_def demo_gate_proc_def hm_get_def Let_def)

section \<open>Properties\<close>

text \<open>C7. Attested admission: with a verifier configured, whenever the gate lets a signer pass (fresh,
  from the cache, or from a stale verdict during an outage), scan itself answered
  \<open>verified: true\<close> for exactly this app and signer, less than 24 hours before.\<close>

theorem gate_requires_attestation:
  assumes "gate_inv E s" "VERIFIER s = Some (Some v)"
    and "require_verified E app signer w s = (Inr (), s')"
  shows "gate_inv E s' \<and> (\<exists>t t'. vouched E v app signer t t' \<and> t' \<le> clock s' \<and>
    elapsed (clock s') t' < MAX_VERDICT_STALENESS)"
  using require_verified_ok [OF assms(1,3)] assms(2)
  unfolding gate_good_def gate_frame_def admitted_def backed_def fst_conv snd_conv by metis

theorem gate_requires_attestation_witness:
  "\<exists>s' t t'. require_verified demo_gate ''app'' demo_addr1 0 demo_gate_warm = (Inr (), s') \<and>
     vouched demo_gate demo_verifier ''app'' demo_addr1 t t' \<and> t' \<le> clock s'"
proof -
  have "require_verified demo_gate ''app'' demo_addr1 0 demo_gate_warm
      = (Inr (), bump verifier_allowed_update demo_gate_warm)"
    by (simp add: require_verified_def verifier_require_verified_def cached_decision_def
        demo_gate_warm_def demo_gate_proc_def elapsed_def POSITIVE_REFRESH_def
        MAX_VERDICT_STALENESS_def from_secs_def)
  from gate_requires_attestation [OF demo_gate_warm_inv demo_gate_VERIFIER(2) this] this
  show ?thesis by blast
qed

text \<open>A refusal, for whatever reason, leaves no way back to an old verdict: after it, through any
  sequence of queries of any signers at any times, the signer passes again only if scan vouched
  for it in an answer asked for after the refusal.\<close>

theorem refusal_needs_new_verdict:
  assumes "gate_inv E s" "VERIFIER s = Some (Some v)"
    and "require_verified E app signer w s = (Inl reason, s1)"
    and "s2 = foldl (\<lambda>s q. snd (gate_query E q s)) s1 qs"
    and "require_verified E app signer w' (tick d s2) = (Inr (), s3)"
  shows "\<exists>t t'. clock s1 \<le> t \<and> vouched E v app signer t t' \<and> t' \<le> clock s3"
proof -
  note since = gate_inv_since [OF assms(1,2)]
  from assms(2,3) have "verifier_require_verified E v app signer w s = (Inl reason, s1)"
    by (simp add: require_verified_on)
  then obtain e where e: "hm_get (verdicts s1) (app, signer) = Some e" "\<not> verified e"
    by (rule require_verified_refuses)
  from require_verified_since [OF since assms(3)] have "gate_since E v 0 {} s1" ..
  from gate_since_refused [OF this e] have "gate_since E v (clock s1) {(app, signer)} s1" .
  moreover have "gate_query E (d, (app, signer), w') s2 = (Inr (), s3)"
    using assms(5) by (simp add: gate_query_def)
  ultimately have "admitted E v (clock s1) {(app, signer)} (app, signer) s3"
    using gate_after.sound_after_run [of E v "clock s1" "{(app, signer)}" s1 "(d, (app, signer), w')"]
    by (simp add: assms(4))
  then show ?thesis by (auto simp: admitted_def backed_def)
qed

theorem refusal_needs_new_verdict_witness:
  "\<exists>reason s1 s3 t t'. require_verified demo_gate ''app'' demo_addr1 0 demo_gate_proc = (Inl reason, s1) \<and>
     require_verified demo_gate ''app'' demo_addr1 0 (tick 200000000000 s1) = (Inr (), s3) \<and>
     clock s1 \<le> t \<and> vouched demo_gate demo_verifier ''app'' demo_addr1 t t'"
proof -
  from demo_gate_refuses obtain x s1 where
    s1: "require_verified demo_gate ''app'' demo_addr1 0 demo_gate_proc = (Inl x, s1)"
    and st: "clock s1 = 1000000000" "VERIFIER s1 = Some (Some demo_verifier)"
      "verdicts s1 = hm_insert (''app'', demo_addr1) (refused 1000000000
        (''attestation not verified (recently checked): '' @ ''bad quote'') NEGATIVE_TTL) hm_empty"
    by blast
  have "\<exists>s3. require_verified demo_gate ''app'' demo_addr1 0 (tick 200000000000 s1) = (Inr (), s3)"
    by (simp add: require_verified_def verifier_require_verified_def require_verified_locked_def
        cached_decision_def fetch_def demo_scan_answer has_stale_positive_def poll_scan.simps
        no_verdict_def settle_def Let_def st elapsed_def NEGATIVE_TTL_def from_secs_def)
  then obtain s3 where s3: "require_verified demo_gate ''app'' demo_addr1 0 (tick 200000000000 s1) = (Inr (), s3)" ..
  from refusal_needs_new_verdict [OF demo_gate_proc_inv demo_gate_VERIFIER(1) s1, of s1 "[]", OF _ s3] s1 s3
  show ?thesis by auto
qed

text \<open>The wait of a call that finds the lock of its key free: with the client's ten-second request timeout, the
  gate of \<open>/app-key\<close> (which keeps asking for 12 s) answers within 32 s, and the gate of peer calls
  (which does not wait) after a single request, within 10 s. Theory \<open>Checks\<close> has the bound beside
  other calls.\<close>

theorem gate_wait_bounded:
  assumes "VERIFIER s = Some (Some v)" "\<forall>t. snd (scan_answer E v app signer t) \<le> REQUEST_TIMEOUT"
  shows "clock (snd (require_verified E app signer SCAN_LAG_WAIT s)) \<le> clock s + from_secs 32 \<and>
    clock (snd (require_verified E app signer 0 s)) \<le> clock s + from_secs 10"
proof -
  have "clock (snd (require_verified E app signer w s)) \<le>
      clock s + REQUEST_TIMEOUT + (if w < SCAN_LAG_POLL then 0 else w + REQUEST_TIMEOUT)" for w
    using require_verified_time [OF assms(2), of w s] require_verified_on [OF assms(1), of E app signer w]
    by (cases "verifier_require_verified E v app signer w s") simp
  from this [of SCAN_LAG_WAIT] this [of 0] show ?thesis
    by (simp add: REQUEST_TIMEOUT_def SCAN_LAG_WAIT_def SCAN_LAG_POLL_def from_secs_def)
qed

theorem gate_wait_bounded_witness:
  "clock (snd (require_verified demo_gate ''app'' demo_addr2 SCAN_LAG_WAIT demo_gate_warm)) \<le> 232000000000"
  using gate_wait_bounded [OF demo_gate_VERIFIER(2), of demo_gate "''app''" demo_addr2]
  by (simp add: demo_scan_answer REQUEST_TIMEOUT_def from_secs_def demo_gate_warm_def)

text \<open>A signer scan does not know yet is refused with the contract text, both by the request that
  waited for scan and by every request of the following three seconds, which the cache answers
  at once; nothing else is remembered about it.\<close>

theorem unknown_signer_text:
  fixes s :: "'z gate_proc_scheme"
  assumes "gate_inv E s" "VERIFIER s = Some (Some v)" "hm_get (verdicts s) (app, signer) = None"
    and "\<forall>t \<ge> clock s. fst (scan_answer E v app signer t) = Inr Unknown"
    and "require_verified E app signer w s = (r, s')" "d < from_secs 3"
  shows "r = Inl (''attestation not verified: '' @ NOT_REGISTERED) \<and>
    require_verified E app signer w' (tick d s')
      = (Inl (''attestation not verified: '' @ NOT_REGISTERED), bump verifier_denied_update (tick d s'))"
proof -
  from assms(2,5) have "verifier_require_verified E v app signer w s = (r, s')"
    by (simp add: require_verified_on)
  then obtain s3 s4 :: "'z gate_proc_scheme" where st: "settle (app, signer) (Inr Unknown) s3 = (r, s4)" "verdicts s3 = verdicts s"
    "verdicts s' = verdicts s4" "clock s' = clock s3" "VERIFIER s' = VERIFIER s"
    by (rule require_verified_unseen [OF assms(3,4)])
  have "hm_wf (verdicts s)" using gate_inv_since [OF assms(1,2)] by (simp add: gate_since_def)
  with assms(3) have "restamp_stale (app, signer) (clock s3) (prune_cache (clock s3) (verdicts s3)) = None"
    unfolding st(2) [symmetric] by (intro settle_unseen)
  with st(1) have r: "r = Inl (''attestation not verified: '' @ NOT_REGISTERED)"
    by (auto simp: settle_def Let_def)
  with settle_refusal_entry [of "(app, signer)" "Inr Unknown" s3] st
  have "hm_get (verdicts s') (app, signer)
      = Some (refused (clock s') (''attestation not verified: '' @ NOT_REGISTERED) SCAN_LAG_DAMP)"
    by simp
  moreover have "VERIFIER s' = Some (Some v)" "d < SCAN_LAG_DAMP"
    using st(5) assms(2,6) by (simp_all add: SCAN_LAG_DAMP_def)
  ultimately have "require_verified E app signer w' (tick d s')
      = (Inl (''attestation not verified: '' @ NOT_REGISTERED), bump verifier_denied_update (tick d s'))"
    by (intro cached_refusal)
  with r show ?thesis by blast
qed

definition demo_behind :: gate_env where
  "demo_behind = demo_gate\<lparr>scan_post := (\<lambda>t url hdr app signer. (HttpReply 404 (Inl ''no body''), 1000000000))\<rparr>"

lemma demo_behind_answer: "fst (scan_answer demo_behind demo_verifier app signer t) = Inr Unknown"
  by (simp add: scan_answer_def send_verify_def Let_def verify_server_cert_def demo_behind_def demo_gate_def
      demo_chain_def demo_seal_def demo_crates_def demo_verifier_def demo_verifier_cfg_def demo_hash_def
      crates.defs seal_crates.defs chain_env.defs gate_env.defs)

theorem unknown_signer_text_witness:
  "\<exists>s'. require_verified demo_behind ''app'' demo_addr1 SCAN_LAG_WAIT demo_gate_proc
      = (Inl (''attestation not verified: '' @ NOT_REGISTERED), s')"
proof -
  obtain r s' where c: "require_verified demo_behind ''app'' demo_addr1 SCAN_LAG_WAIT demo_gate_proc = (r, s')"
    by force
  have "hm_get (verdicts demo_gate_proc) (''app'', demo_addr1) = None" by (simp add: demo_gate_proc_def)
  from unknown_signer_text [OF demo_gate_proc_inv demo_gate_VERIFIER(1) this _ c, of 0] c
  show ?thesis by (simp add: demo_behind_answer from_secs_def)
qed

text \<open>C31. An outage of scan does not lock out confirmed signers: while scan gives no verdict (unreachable,
  failing, or behind the chain), a signer it confirmed passes as long as the confirmation is
  less than 24 hours old when the request ends.\<close>

theorem outage_serves_confirmed:
  assumes inv: "gate_inv E s" and v: "VERIFIER s = Some (Some v)"
    and e: "hm_get (verdicts s) (app, signer) = Some e" "verified e"
    and down: "\<forall>t \<ge> clock s. no_verdict (fst (scan_answer E v app signer t)) \<and>
      snd (scan_answer E v app signer t) \<le> b"
    and cap: "elapsed (clock s + b) (confirmed_at e) < MAX_VERDICT_STALENESS"
  shows "\<exists>s'. require_verified E app signer w s = (Inr (), s')"
proof -
  note since = gate_inv_since [OF inv v]
  obtain r s' where call: "verifier_require_verified E v app signer w s = (r, s')" by force
  then have "r = Inr ()"
  proof (cases rule: verifier_require_verified_cases)
    case cached
    then show ?thesis using e by (cases rule: cached_decision_cases) auto
  next
    case (asked o1 s2 o2 s3 s4)
    from asked(2) obtain d where d: "scan_answer E v app signer (clock s) = (o1, d)"
      and s2: "s2 = tick d (s\<lparr>fetch_locks := hm_insert (app, signer) () (fetch_locks s)\<rparr>)"
      by (rule fetch_answer) simp
    from down d have "no_verdict o1" "d \<le> b" by (metis fst_conv order_refl, metis snd_conv order_refl)
    then have age: "elapsed (clock s2) (confirmed_at e) < MAX_VERDICT_STALENESS"
      using cap by (simp add: s2 elapsed_def)
    then have "has_stale_positive (app, signer) s2" using e by (simp add: has_stale_positive_def s2)
    with asked(3) have o2: "o2 = o1" "s3 = s2" by simp_all
    have "gate_since E v 0 {} s2" by (rule gate_since_mono [OF since]) (simp_all add: s2)
    moreover have "hm_get (verdicts s2) (app, signer) = Some e" by (simp add: s2 e(1))
    ultimately have "\<exists>q. settle (app, signer) o1 s2 = (Inr (), q)"
      using e(2) age \<open>no_verdict o1\<close> by (rule settle_outage)
    with asked(4) o2 show ?thesis by auto
  qed
  with call v show ?thesis by (simp add: require_verified_on)
qed

text \<open>A scan that goes down at 300 s.\<close>

definition demo_outage :: gate_env where
  "demo_outage = demo_gate\<lparr>scan_post := (\<lambda>t url hdr app signer.
     (if t < 300000000000 then HttpReply 200 (Inr (True, None)) else SendFailed ''timeout'', 1000000000))\<rparr>"

lemma demo_outage_answer: "scan_answer demo_outage demo_verifier app signer t =
    (if t < 300000000000 then Inr (Verdict True []) else Inl (''verify request: '' @ ''timeout''), 1000000000)"
  by (simp add: scan_answer_def send_verify_def Let_def verify_server_cert_def demo_outage_def demo_gate_def
      demo_chain_def demo_seal_def demo_crates_def demo_verifier_def demo_verifier_cfg_def demo_hash_def
      crates.defs seal_crates.defs chain_env.defs gate_env.defs)

lemma demo_outage_inv: "gate_inv demo_outage demo_gate_warm"
proof -
  have "vouched demo_outage demo_verifier ''app'' demo_addr1 100000000000 101000000000"
    by (simp add: vouched_def demo_outage_answer)
  then have "backed demo_outage demo_verifier 0 {} (''app'', demo_addr1) 101000000000"
    by (auto simp: backed_def)
  then show ?thesis
    by (auto simp: gate_inv_def gate_since_def demo_gate_warm_def demo_gate_proc_def verdict_ok_def
        split: if_splits)
qed

theorem outage_serves_confirmed_witness:
  "\<exists>s'. require_verified demo_outage ''app'' demo_addr1 0 (tick 7200000000000 demo_gate_warm) = (Inr (), s')"
proof (rule outage_serves_confirmed [OF gate_inv_tick [OF demo_outage_inv], where b = 1000000000
    and v = demo_verifier and e = "\<lparr> verified = True, refusal = [], damp = 0, stamped_at = 101000000000,
      confirmed_at = 101000000000 \<rparr>"])
qed (simp_all add: demo_gate_warm_def demo_gate_proc_def demo_outage_answer no_verdict_def elapsed_def
    MAX_VERDICT_STALENESS_def from_secs_def)

text \<open>C34. Scan is authenticated: a process that started with a verifier either was told to use plain
  HTTP (\<open>insecure_http\<close>), or uses HTTPS with the pins of its configuration: there is at least one, each of them
  is the hexadecimal text of 32 bytes, and every answer the process ever uses came from a server
  whose public key hashes to one of the configured pins.\<close>

theorem verdicts_from_pinned_key:
  assumes "verifier_init E cfg s = (Inr (), s')" "verifier_cfg cfg = Some vc"
  shows "\<exists>v. VERIFIER s' = Some (Some v) \<and>
    ((starts_with ''http://'' (vurl vc) \<and> insecure_http vc) \<or>
     (starts_with ''https://'' (vurl vc) \<and> pubkeys vc \<noteq> [] \<and>
        (\<forall>k \<in> set (pubkeys vc). \<exists>b. hex_decode E (trim_0x k) = Inr b \<and> length b = 32) \<and>
        (\<forall>app signer t a d. scan_answer E v app signer t = (Inr a, d) \<longrightarrow>
           (\<exists>spki k. x509_spki E (scan_cert E t) = Inr spki \<and> k \<in> set (pubkeys vc) \<and>
              hex_decode E (trim_0x k) = Inr (sha256 E spki)))))"
proof -
  from assms obtain v where new: "verifier_new E vc = Inr v" and s': "VERIFIER s' = Some (Some v)"
    by (auto simp: verifier_init_def Let_def result_iffs split: sum.splits if_splits)
  show ?thesis
  proof (cases "starts_with ''http://'' (vurl vc)")
    case True
    with new s' show ?thesis by (auto simp: verifier_new_def split: if_splits)
  next
    case False
    with new obtain pins where pins: "collect_results (decode_pin E) (pubkeys vc) = Inr pins" "pins \<noteq> []"
      and v: "vclient v = PinnedClient pins" and https: "starts_with ''https://'' (vurl vc)"
      by (auto simp: verifier_new_def result_iffs split: if_splits)
    from collect_results_all [OF pins(1)] pins(2) have ne: "pubkeys vc \<noteq> []"
      and all: "\<forall>k \<in> set (pubkeys vc). \<exists>b. hex_decode E (trim_0x k) = Inr b \<and> length b = 32"
      by (auto simp: decode_pin_ok)
    have "\<exists>spki k. x509_spki E (scan_cert E t) = Inr spki \<and> k \<in> set (pubkeys vc) \<and> hex_decode E (trim_0x k) = Inr (sha256 E spki)"
      if "scan_answer E v app signer t = (Inr a, d)" for app signer t a d
    proof -
      from scan_answer_pinned [OF v that] obtain spki where spki: "x509_spki E (scan_cert E t) = Inr spki" "sha256 E spki \<in> set pins"
        by blast
      with collect_results_ok [OF pins(1) spki(2)] show ?thesis by (auto simp: decode_pin_ok)
    qed
    with s' https ne all show ?thesis by blast
  qed
qed

lemma demo_pin: "demo_hex_decode (trim_0x (demo_hex_encode b)) = Inr b"
  using demo_crates_hex hex_ok_trim_0x [of demo_crates b] demo_hex_roundtrip [of b]
  by (simp add: demo_crates_def)

definition demo_config :: config where
  "demo_config = \<lparr>
     server = \<lparr> bind_addr = default_http_bind, grpc_bind = default_grpc_bind, timestamp_tolerance_secs = 300 \<rparr>,
     tapp = \<lparr> app_id = ''kms'', tapp_ip = default_tapp_ip, tapp_port = default_tapp_port,
              tapp_socket = None, mock_tee = False \<rparr>,
     chain = \<lparr> rpc_url = ''u'', contract_address = ''c'' \<rparr>,
     cluster = \<lparr> threshold = 2, total_nodes = 3, bootstrap = False, self_url = ''http://a'', seeds = [],
                 cfg_sealed_share = None, cfg_sealed_share_path = None \<rparr>,
     verifier_cfg = Some demo_verifier_cfg \<rparr>"

theorem verdicts_from_pinned_key_witness:
  "\<exists>s' v. verifier_init demo_gate demo_config (demo_gate_proc\<lparr>VERIFIER := None\<rparr>) = (Inr (), s') \<and>
     VERIFIER s' = Some (Some v) \<and>
     (\<forall>app signer t a d. scan_answer demo_gate v app signer t = (Inr a, d) \<longrightarrow>
        (\<exists>spki k. x509_spki demo_gate (scan_cert demo_gate t) = Inr spki \<and> k \<in> set (pubkeys demo_verifier_cfg) \<and>
           hex_decode demo_gate (trim_0x k) = Inr (sha256 demo_gate spki)))"
proof -
  have "\<exists>s'. verifier_init demo_gate demo_config (demo_gate_proc\<lparr>VERIFIER := None\<rparr>) = (Inr (), s')"
    by (simp add: verifier_init_def demo_config_def verifier_new_def demo_verifier_cfg_def starts_with_def
        decode_pin_def demo_gate_def demo_chain_def demo_seal_def demo_crates_def crates.defs
        seal_crates.defs chain_env.defs gate_env.defs demo_gate_proc_def Let_def demo_pin)
  then obtain s' where s': "verifier_init demo_gate demo_config (demo_gate_proc\<lparr>VERIFIER := None\<rparr>) = (Inr (), s')" ..
  have "verifier_cfg demo_config = Some demo_verifier_cfg" "\<not> starts_with ''http://'' (vurl demo_verifier_cfg)"
    by (simp_all add: demo_config_def demo_verifier_cfg_def starts_with_def)
  with verdicts_from_pinned_key [OF s', of demo_verifier_cfg] s' show ?thesis by blast
qed

end
