(* ===== verification/Checks.thy ===== *)
theory Checks
  imports Verifier
begin

text \<open>
  The attestation gate of \<open>src/verifier.rs\<close> under concurrency. Theory \<open>Verifier\<close> runs one call of
  \<open>require_verified\<close> from its start to its end; here every \<open>await\<close> of it is a point where other calls run:
  at the table of the locks, at the lock of the key, while scan is asked, between two polls, and before the
  lock is taken out of the table again. A lock has an identity (the \<open>Arc\<close>), because the end of a call
  removes it from the table while others may still be waiting for it: a newcomer then makes another
  lock for the same key. Calls may be dropped at any point; a dropped call releases the lock it
  holds and leaves the table as it is. The time an answer takes includes the time until the task that
  waits for it runs.

  Shown for every interleaving: whoever passes the gate was vouched for by scan less than 24 hours
  before, and after a refusal only a verdict asked for later lets the signer pass, provided that no
  other request for the same signer was under way when it was refused; the locks make that the
  rule, and an example shows the exception. No call waits for ever; a call that has the lock of its key is over
  in bounded time if the scheduler is prompt; and the calls of theory \<open>Verifier\<close> are
  the runs that nothing interrupts.
\<close>

section \<open>Definitions\<close>

datatype check_phase =
    Came
  | NeedLock
  | AwaitLock nat
  | HoldLock nat
  | Fetching nat "instant option" instant "answer anyhow" nat
  | Napping nat instant instant
  | Cleaning nat "unit anyhow" instant
  | Decided "unit anyhow" instant
  | Hung_up

text \<open>
  \<open>Fetching n deadline t a d\<close>: under lock \<open>n\<close>, asked at \<open>t\<close>, the answer \<open>a\<close> takes \<open>d\<close>; the deadline is
  there once the call polls. \<open>Napping n deadline u\<close>: asleep until \<open>u\<close>. \<open>Decided r u\<close>: returned \<open>r\<close> decided at \<open>u\<close>.
\<close>

record check =
  ckey :: gate_key
  cwait :: nat
  cphase :: check_phase

record gate_tasks = gate_proc +
  key_locks :: "(gate_key, nat) hash_map"
  lock_count :: nat
  lock_holders :: "(nat, nat) hash_map"
  checks :: "check list"

definition move_to :: "nat \<Rightarrow> check_phase \<Rightarrow> gate_tasks \<Rightarrow> gate_tasks" where
  "move_to i p s = s\<lparr>checks := (checks s)[i := (checks s ! i)\<lparr>cphase := p\<rparr>]\<rparr>"

definition release :: "nat \<Rightarrow> gate_tasks \<Rightarrow> gate_tasks" where
  "release n s = s\<lparr>lock_holders := hm_remove n (lock_holders s)\<rparr>"

definition ask_scan :: "'y gate_env_scheme \<Rightarrow> verifier \<Rightarrow> nat \<Rightarrow> nat \<Rightarrow> instant option \<Rightarrow> gate_tasks \<Rightarrow> gate_tasks" where
  "ask_scan E v i n deadline s =
     (let key = ckey (checks s ! i);
          (a, d) = scan_answer E v (fst key) (snd key) (clock s)
      in move_to i (Fetching n deadline (clock s) a d) s)"

definition conclude :: "nat \<Rightarrow> nat \<Rightarrow> answer anyhow \<Rightarrow> gate_tasks \<Rightarrow> gate_tasks" where
  "conclude i n a s =
     (let (r, s1) = settle (ckey (checks s ! i)) a s in move_to i (Cleaning n r (clock s)) s1)"

text \<open>The loop condition after an answer: sleep and ask again, or settle.\<close>

definition poll_or_conclude :: "nat \<Rightarrow> nat \<Rightarrow> instant \<Rightarrow> answer anyhow \<Rightarrow> gate_tasks \<Rightarrow> gate_tasks" where
  "poll_or_conclude i n deadline a s =
     (if no_verdict a \<and> clock s + SCAN_LAG_POLL \<le> deadline
      then move_to i (Napping n deadline (clock s + SCAN_LAG_POLL)) s
      else conclude i n a s)"

definition check_step :: "'y gate_env_scheme \<Rightarrow> verifier \<Rightarrow> nat \<Rightarrow> gate_tasks \<Rightarrow> gate_tasks option" where
  "check_step E v i s =
     (let k = checks s ! i; key = ckey k in
      case cphase k of
        Came \<Rightarrow>
          (case cached_decision key s of
             (Some r, s1) \<Rightarrow> Some (move_to i (Decided r (clock s)) s1)
           | (None, s1) \<Rightarrow> Some (move_to i NeedLock s1))
      | NeedLock \<Rightarrow>
          (case hm_get (key_locks s) key of
             Some n \<Rightarrow> Some (move_to i (AwaitLock n) s)
           | None \<Rightarrow> Some (move_to i (AwaitLock (lock_count s))
               (s\<lparr>key_locks := hm_insert key (lock_count s) (key_locks s), lock_count := Suc (lock_count s)\<rparr>)))
      | AwaitLock n \<Rightarrow>
          (if hm_get (lock_holders s) n = None
           then Some (move_to i (HoldLock n) (s\<lparr>lock_holders := hm_insert n i (lock_holders s)\<rparr>))
           else None)
      | HoldLock n \<Rightarrow>
          (case cached_decision key s of
             (Some r, s1) \<Rightarrow> Some (move_to i (Decided r (clock s)) (release n s1))
           | (None, s1) \<Rightarrow> Some (ask_scan E v i n None s1))
      | Fetching n deadline t a d \<Rightarrow>
          (if clock s < t + d then None
           else case deadline of
             Some u \<Rightarrow> Some (poll_or_conclude i n u a s)
           | None \<Rightarrow>
               (if has_stale_positive key s then Some (conclude i n a s)
                else Some (poll_or_conclude i n (clock s + cwait k) a s)))
      | Napping n deadline u \<Rightarrow>
          (if clock s < u then None else Some (ask_scan E v i n (Some deadline) s))
      | Cleaning n r u \<Rightarrow>
          Some (move_to i (Decided r u) (release n (s\<lparr>key_locks := hm_remove key (key_locks s)\<rparr>)))
      | Decided _ _ \<Rightarrow> None
      | Hung_up \<Rightarrow> None)"

fun held_lock :: "check_phase \<Rightarrow> nat option" where
  "held_lock (HoldLock n) = Some n"
| "held_lock (Fetching n _ _ _ _) = Some n"
| "held_lock (Napping n _ _) = Some n"
| "held_lock (Cleaning n _ _) = Some n"
| "held_lock _ = None"

fun decided :: "check_phase \<Rightarrow> bool" where
  "decided (Decided _ _) = True"
| "decided Hung_up = True"
| "decided _ = False"

definition hang_up :: "nat \<Rightarrow> gate_tasks \<Rightarrow> gate_tasks" where
  "hang_up i s =
     (let s1 = (case held_lock (cphase (checks s ! i)) of Some n \<Rightarrow> release n s | None \<Rightarrow> s)
      in move_to i Hung_up s1)"

definition call_gate :: "gate_key \<Rightarrow> nat \<Rightarrow> gate_tasks \<Rightarrow> gate_tasks" where
  "call_gate key w s = s\<lparr>checks := checks s @ [\<lparr> ckey = key, cwait = w, cphase = Came \<rparr>]\<rparr>"

text \<open>Time passes up to the next answer.\<close>

definition may_pass :: "nat \<Rightarrow> gate_tasks \<Rightarrow> bool" where
  "may_pass x s \<longleftrightarrow>
     list_all (\<lambda>k. case cphase k of Fetching _ _ t _ d \<Rightarrow> clock s + x \<le> t + d | _ \<Rightarrow> True) (checks s)"

inductive gate_step :: "'y gate_env_scheme \<Rightarrow> verifier \<Rightarrow> gate_tasks \<Rightarrow> gate_tasks \<Rightarrow> bool"
  for E :: "'y gate_env_scheme" and v :: verifier where
  run: "i < length (checks s) \<Longrightarrow> check_step E v i s = Some s' \<Longrightarrow> gate_step E v s s'"
| pass: "may_pass x s \<Longrightarrow> gate_step E v s (tick x s)"
| call: "gate_step E v s (call_gate key w s)"
| hang: "i < length (checks s) \<Longrightarrow> \<not> decided (cphase (checks s ! i)) \<Longrightarrow> gate_step E v s (hang_up i s)"

text \<open>A process whose gate was just configured.\<close>

definition gate_start :: "verifier \<Rightarrow> gate_tasks \<Rightarrow> bool" where
  "gate_start v s \<longleftrightarrow> VERIFIER s = Some (Some v) \<and> verdicts s = hm_empty \<and> key_locks s = hm_empty \<and>
     lock_holders s = hm_empty \<and> checks s = []"

section \<open>Specification\<close>

text \<open>
  A pass at \<open>u\<close> rests on a verdict less than 24 hours old; for the keys of \<open>K\<close>, if it is after \<open>t0\<close>, on one
  asked for at \<open>t0\<close> or later.
\<close>

definition rests_on :: "'y gate_env_scheme \<Rightarrow> verifier \<Rightarrow> instant \<Rightarrow> gate_key set \<Rightarrow> gate_key \<Rightarrow> instant \<Rightarrow> bool" where
  "rests_on E v t0 K key u \<longleftrightarrow>
     (\<exists>t t'. vouched E v (fst key) (snd key) t t' \<and> t' \<le> u \<and> elapsed u t' < MAX_VERDICT_STALENESS \<and>
        (key \<in> K \<and> t0 < u \<longrightarrow> t0 \<le> t))"

definition phase_ok ::
    "'y gate_env_scheme \<Rightarrow> verifier \<Rightarrow> instant \<Rightarrow> gate_key set \<Rightarrow> instant \<Rightarrow> gate_key \<Rightarrow> check_phase \<Rightarrow> bool" where
  "phase_ok E v t0 K now key p =
     (case p of
        Fetching n deadline t a d \<Rightarrow>
          scan_answer E v (fst key) (snd key) t = (a, d) \<and> (key \<in> K \<longrightarrow> t0 \<le> t) \<and> now \<le> t + d
      | Cleaning n r u \<Rightarrow> u \<le> now \<and> (r = Inr () \<longrightarrow> rests_on E v t0 K key u)
      | Decided r u \<Rightarrow> u \<le> now \<and> (r = Inr () \<longrightarrow> rests_on E v t0 K key u)
      | _ \<Rightarrow> True)"

definition gate_tasks_inv :: "'y gate_env_scheme \<Rightarrow> verifier \<Rightarrow> instant \<Rightarrow> gate_key set \<Rightarrow> gate_tasks \<Rightarrow> bool" where
  "gate_tasks_inv E v t0 K s \<longleftrightarrow> gate_since E v t0 K s \<and>
     (\<forall>k \<in> set (checks s). phase_ok E v t0 K (clock s) (ckey k) (cphase k))"

text \<open>The invariant of the locks: a lock has one holder, the task that holds it.\<close>

definition held_inv :: "gate_tasks \<Rightarrow> bool" where
  "held_inv s \<longleftrightarrow> (\<forall>n i. hm_get (lock_holders s) n = Some i \<longleftrightarrow>
     i < length (checks s) \<and> held_lock (cphase (checks s ! i)) = Some n)"

section \<open>Lemmas\<close>

lemma move_to_simps [simp]:
  "clock (move_to i p s) = clock s" "VERIFIER (move_to i p s) = VERIFIER s" "verdicts (move_to i p s) = verdicts s"
  "key_locks (move_to i p s) = key_locks s" "lock_holders (move_to i p s) = lock_holders s"
  "checks (move_to i p s) = (checks s)[i := (checks s ! i)\<lparr>cphase := p\<rparr>]"
  by (simp_all add: move_to_def)

lemma release_simps [simp]:
  "clock (release n s) = clock s" "VERIFIER (release n s) = VERIFIER s" "verdicts (release n s) = verdicts s"
  "key_locks (release n s) = key_locks s" "checks (release n s) = checks s"
  "lock_holders (release n s) = hm_remove n (lock_holders s)"
  by (simp_all add: release_def)

lemma tick_gate_tasks_simps [simp]:
  "checks (tick x s) = checks s" "lock_holders (tick x s) = lock_holders s" "key_locks (tick x s) = key_locks s"
  by (simp_all add: tick_def)

lemma same_gate_tasks:
  assumes "gate_frame s s1"
  shows "checks s1 = checks s" "lock_holders s1 = lock_holders s" "key_locks s1 = key_locks s"
  using assms by (cases s; cases s1; simp add: gate_frame_def)+

lemma admitted_rests: "admitted E v t0 K key s \<Longrightarrow> rests_on E v t0 K key (clock s)"
  unfolding admitted_def backed_def rests_on_def by blast

text \<open>The invariant after a step of one task.\<close>

definition inv_step ::
    "'y gate_env_scheme \<Rightarrow> verifier \<Rightarrow> instant \<Rightarrow> gate_key set \<Rightarrow> nat \<Rightarrow> gate_tasks \<Rightarrow> gate_tasks \<Rightarrow> bool" where
  "inv_step E v t0 K i s s' \<longleftrightarrow> gate_since E v t0 K s' \<and> clock s' = clock s \<and>
     (\<exists>p. checks s' = (checks s)[i := (checks s ! i)\<lparr>cphase := p\<rparr>] \<and>
        phase_ok E v t0 K (clock s) (ckey (checks s ! i)) p)"

lemma inv_stepI:
  assumes "gate_since E v t0 K s1" "clock s' = clock s1" "VERIFIER s' = VERIFIER s1" "verdicts s' = verdicts s1"
    and "clock s1 = clock s" "checks s' = (checks s)[i := (checks s ! i)\<lparr>cphase := p\<rparr>]"
    and "phase_ok E v t0 K (clock s) (ckey (checks s ! i)) p"
  shows "inv_step E v t0 K i s s'"
proof -
  have "gate_since E v t0 K s'" by (rule gate_since_mono [OF assms(1)]) (simp_all add: assms)
  with assms show ?thesis unfolding inv_step_def by auto
qed

lemma inv_step_inv:
  assumes "gate_tasks_inv E v t0 K s" "i < length (checks s)" "inv_step E v t0 K i s s'"
  shows "gate_tasks_inv E v t0 K s'"
proof -
  from assms(3) obtain p where p: "gate_since E v t0 K s'" "clock s' = clock s"
    "checks s' = (checks s)[i := (checks s ! i)\<lparr>cphase := p\<rparr>]"
    "phase_ok E v t0 K (clock s) (ckey (checks s ! i)) p" by (auto simp: inv_step_def)
  have "phase_ok E v t0 K (clock s') (ckey k) (cphase k)" if "k \<in> set (checks s')" for k
  proof -
    from that p(3) set_update_subset_insert [of "checks s" i] consider
      "k = (checks s ! i)\<lparr>cphase := p\<rparr>" | "k \<in> set (checks s)" by auto
    then show ?thesis using assms(1) p(2,4) by cases (simp_all add: gate_tasks_inv_def)
  qed
  with p(1) show ?thesis by (simp add: gate_tasks_inv_def)
qed

lemma ask_scan_inv:
  assumes since: "gate_since E v t0 K s"
  shows "inv_step E v t0 K i s (ask_scan E v i n deadline s)"
proof -
  obtain a d where a: "scan_answer E v (fst (ckey (checks s ! i))) (snd (ckey (checks s ! i))) (clock s) = (a, d)"
    by force
  with since have "phase_ok E v t0 K (clock s) (ckey (checks s ! i)) (Fetching n deadline (clock s) a d)"
    by (simp add: phase_ok_def gate_since_def)
  then show ?thesis by (intro inv_stepI [OF since]) (simp_all add: ask_scan_def a Let_def)
qed

lemma conclude_inv:
  assumes since: "gate_since E v t0 K s" and k: "k = checks s ! i"
    and p: "phase_ok E v t0 K (clock s) (ckey k) (Fetching n deadline t a d)" "\<not> clock s < t + d"
  shows "inv_step E v t0 K i s (conclude i n' a s)"
proof -
  obtain r s1 where st: "settle (ckey k) a s = (r, s1)" by force
  from p have "gate_since E v t0 K s1 \<and> gate_frame s s1 \<and> clock s1 = clock s \<and>
      (r = Inr () \<longrightarrow> admitted E v t0 K (ckey k) s1)"
    by (intro settle_ok [OF since _ _ _ st, of t d]) (auto simp: phase_ok_def)
  moreover from this have "r = Inr () \<longrightarrow> rests_on E v t0 K (ckey k) (clock s)"
    by (metis admitted_rests)
  ultimately show ?thesis
    using same_gate_tasks [of s s1]
    by (intro inv_stepI [of _ _ _ _ s1 _ _ _ "Cleaning n' r (clock s)"])
      (simp_all add: conclude_def st k [symmetric] phase_ok_def)
qed

lemma poll_or_conclude_inv:
  assumes since: "gate_since E v t0 K s" and k: "k = checks s ! i"
    and p: "phase_ok E v t0 K (clock s) (ckey k) (Fetching n deadline t a d)" "\<not> clock s < t + d"
  shows "inv_step E v t0 K i s (poll_or_conclude i n' u a s)"
proof (cases "no_verdict a \<and> clock s + SCAN_LAG_POLL \<le> u")
  case True
  then show ?thesis
    by (intro inv_stepI [OF since, of _ _ _ "Napping n' u (clock s + SCAN_LAG_POLL)"])
      (simp_all add: poll_or_conclude_def phase_ok_def)
next
  case False
  with conclude_inv [OF assms] show ?thesis by (auto simp: poll_or_conclude_def)
qed

lemma check_step_inv:
  assumes inv: "gate_tasks_inv E v t0 K s" and i: "i < length (checks s)" and step: "check_step E v i s = Some s'"
  shows "inv_step E v t0 K i s s'"
proof -
  define k where "k = checks s ! i"
  from inv have since: "gate_since E v t0 K s" by (simp add: gate_tasks_inv_def)
  from inv i have pk: "phase_ok E v t0 K (clock s) (ckey k) (cphase k)" by (simp add: gate_tasks_inv_def k_def)
  obtain c s1 where c: "cached_decision (ckey k) s = (c, s1)" by force
  note ok = cached_decision_ok [OF since c]
  then have frame: "gate_frame s s1" "clock s1 = clock s" "gate_since E v t0 K s1" by simp_all
  note same = same_gate_tasks [OF frame(1)]
  have cached: "phase_ok E v t0 K (clock s) (ckey k) (Decided r (clock s))" if "c = Some r" for r
    using ok that admitted_rests [of E v t0 K "ckey k" s1] by (auto simp: phase_ok_def)
  show ?thesis
  proof (cases "cphase k")
    case Came
    show ?thesis
    proof (cases c)
      case None
      with Came c step same show ?thesis
        by (intro inv_stepI [OF frame(3) _ _ _ frame(2), of _ _ NeedLock])
          (auto simp: check_step_def k_def Let_def phase_ok_def)
    next
      case (Some r)
      with Came c step same cached [OF Some] show ?thesis
        by (intro inv_stepI [OF frame(3) _ _ _ frame(2), of _ _ "Decided r (clock s)"])
          (auto simp: check_step_def k_def Let_def)
    qed
  next
    case (HoldLock n)
    show ?thesis
    proof (cases c)
      case None
      with c have "s1 = s" by (simp add: cached_decision_none)
      with HoldLock c None step ask_scan_inv [OF since] show ?thesis by (auto simp: check_step_def k_def Let_def)
    next
      case (Some r)
      with HoldLock c step same cached [OF Some] show ?thesis
        by (intro inv_stepI [OF frame(3) _ _ _ frame(2), of _ _ "Decided r (clock s)"])
          (auto simp: check_step_def k_def Let_def)
    qed
  next
    case (Fetching n deadline t a d)
    note fin = conclude_inv [OF since k_def pk [unfolded Fetching]]
      poll_or_conclude_inv [OF since k_def pk [unfolded Fetching]]
    with Fetching step show ?thesis
      by (auto simp: check_step_def k_def Let_def split: if_splits option.splits)
  next
    case (Napping n deadline u)
    with step ask_scan_inv [OF since] show ?thesis
      by (auto simp: check_step_def k_def Let_def split: if_splits)
  next
    case NeedLock
    with step show ?thesis
      by (intro inv_stepI [OF since, of _ _ _ "cphase (checks s' ! i)"])
        (use i in \<open>auto simp: check_step_def k_def Let_def phase_ok_def split: option.splits\<close>)
  next
    case (AwaitLock n)
    with step show ?thesis
      by (intro inv_stepI [OF since, of _ _ _ "HoldLock n"])
        (auto simp: check_step_def k_def Let_def phase_ok_def split: if_splits)
  next
    case (Cleaning n r u)
    with step pk show ?thesis
      by (intro inv_stepI [OF since, of _ _ _ "Decided r u"])
        (auto simp: check_step_def k_def Let_def phase_ok_def)
  qed (use step in \<open>simp_all add: check_step_def k_def Let_def\<close>)
qed

lemma gate_tasks_inv_step:
  assumes "gate_step E v s s'" "gate_tasks_inv E v t0 K s"
  shows "gate_tasks_inv E v t0 K s'"
  using assms(1)
proof (cases rule: gate_step.cases)
  case (run i)
  with assms(2) check_step_inv inv_step_inv show ?thesis by blast
next
  case (pass x)
  have "gate_since E v t0 K s'"
    by (rule gate_since_mono [of _ _ _ _ s]) (use assms(2) pass in \<open>simp_all add: gate_tasks_inv_def\<close>)
  with assms(2) pass show ?thesis
    by (auto simp: gate_tasks_inv_def phase_ok_def may_pass_def list_all_iff split: check_phase.splits)
next
  case (call key w)
  have "gate_since E v t0 K s'"
    by (rule gate_since_mono [of _ _ _ _ s]) (use assms(2) call in \<open>simp_all add: gate_tasks_inv_def call_gate_def\<close>)
  with assms(2) call show ?thesis
    by (auto simp: gate_tasks_inv_def call_gate_def phase_ok_def)
next
  case (hang i)
  from assms(2) have "gate_since E v t0 K s" by (simp add: gate_tasks_inv_def)
  then have "inv_step E v t0 K i s s'"
    by (rule inv_stepI [of _ _ _ _ s _ _ _ Hung_up])
      (auto simp: hang hang_up_def Let_def phase_ok_def split: option.split)
  with assms(2) hang(2) show ?thesis using inv_step_inv by blast
qed

interpretation gate_after_state: task_system "gate_tasks_inv E v t0 K" "gate_step E v" "gate_tasks_inv E v t0 K"
  by unfold_locales (auto intro: gate_tasks_inv_step)

lemma gate_start_inv: "gate_start v s \<Longrightarrow> gate_tasks_inv E v 0 {} s"
  by (simp add: gate_start_def gate_tasks_inv_def gate_since_def)

text \<open>
  From a state where the key is refused and nobody is asking for it, the invariant holds for all that
  follows with the instant of that state.
\<close>

lemma refused_since:
  assumes inv: "gate_tasks_inv E v 0 {} s"
    and refused: "hm_get (verdicts s) key = Some e" "\<not> verified e"
    and quiet: "\<And>k n deadline t a d. k \<in> set (checks s) \<Longrightarrow> ckey k = key \<Longrightarrow> cphase k \<noteq> Fetching n deadline t a d"
  shows "gate_tasks_inv E v (clock s) {key} s"
proof -
  from inv have since: "gate_since E v 0 {} s" by (simp add: gate_tasks_inv_def)
  have "phase_ok E v (clock s) {key} (clock s) (ckey k) (cphase k)" if k: "k \<in> set (checks s)" for k
  proof -
    from inv k have ok: "phase_ok E v 0 {} (clock s) (ckey k) (cphase k)" by (simp add: gate_tasks_inv_def)
    have "rests_on E v (clock s) {key} (ckey k) u"
      if "rests_on E v 0 {} (ckey k) u" "u \<le> clock s" for u
      using that by (fastforce simp: rests_on_def)
    with ok show ?thesis
      by (cases "cphase k") (use quiet [OF k] in \<open>fastforce simp: phase_ok_def\<close>)+
  qed
  with gate_since_refused [OF since refused] show ?thesis by (simp add: gate_tasks_inv_def)
qed

lemma settle_tasks:
  assumes "settle key a s = (r, s1)"
  shows "checks s1 = checks s" "lock_holders s1 = lock_holders s" "key_locks s1 = key_locks s" "clock s1 = clock s"
  using assms by (auto simp: settle_def Let_def bump_def split: sum.splits answer.splits option.splits if_splits)

lemma cached_tasks:
  assumes "cached_decision key s = (c, s1)"
  shows "checks s1 = checks s" "lock_holders s1 = lock_holders s" "key_locks s1 = key_locks s" "clock s1 = clock s"
  using assms by (auto simp: cached_decision_def bump_def split: option.splits if_splits)

text \<open>What a step does to the locks.\<close>

definition lock_step :: "nat \<Rightarrow> gate_tasks \<Rightarrow> gate_tasks \<Rightarrow> check_phase \<Rightarrow> bool" where
  "lock_step i s s' p \<longleftrightarrow> checks s' = (checks s)[i := (checks s ! i)\<lparr>cphase := p\<rparr>] \<and>
     (\<forall>n. hm_get (lock_holders s') n =
        (if held_lock p = Some n then Some i else if held_lock (cphase (checks s ! i)) = Some n then None
         else hm_get (lock_holders s) n)) \<and>
     (\<forall>n. held_lock p = Some n \<longrightarrow>
        held_lock (cphase (checks s ! i)) = Some n \<or> hm_get (lock_holders s) n = None)"

lemma lock_step_held:
  assumes "held_inv s" "i < length (checks s)" "lock_step i s s' p"
  shows "held_inv s'"
proof -
  from assms(1) have h: "\<And>n j. hm_get (lock_holders s) n = Some j \<longleftrightarrow>
      j < length (checks s) \<and> held_lock (cphase (checks s ! j)) = Some n" by (simp add: held_inv_def)
  have "hm_get (lock_holders s') n = Some j \<longleftrightarrow>
      j < length (checks s') \<and> held_lock (cphase (checks s' ! j)) = Some n" for n j
    using assms(2,3) h [of n i] h [of n j] by (cases "i = j") (auto simp: lock_step_def nth_list_update)
  then show ?thesis by (simp add: held_inv_def)
qed

lemma conclude_lock_step:
  assumes "held_inv s" "i < length (checks s)" "held_lock (cphase (checks s ! i)) = Some n"
  shows "\<exists>p. lock_step i s (conclude i n a s) p"
proof -
  obtain r s1 where st: "settle (ckey (checks s ! i)) a s = (r, s1)" by force
  from assms have "hm_get (lock_holders s) n = Some i" by (simp add: held_inv_def)
  with assms(3) settle_tasks [OF st] have "lock_step i s (conclude i n a s) (Cleaning n r (clock s))"
    by (auto simp: lock_step_def conclude_def st)
  then show ?thesis ..
qed

lemma check_step_lock:
  assumes held: "held_inv s" and i: "i < length (checks s)" and step: "check_step E v i s = Some s'"
  shows "\<exists>p. lock_step i s s' p"
proof -
  define k where "k = checks s ! i"
  have own: "hm_get (lock_holders s) n = Some i" if "held_lock (cphase k) = Some n" for n
    using held i that by (simp add: held_inv_def k_def)
  obtain c s1 where c: "cached_decision (ckey k) s = (c, s1)" by force
  note same = cached_tasks [OF c]
  have asks: "\<exists>p. lock_step i s (ask_scan E v i n dl s1') p"
    if "held_lock (cphase k) = Some n" "checks s1' = checks s" "lock_holders s1' = lock_holders s" for n dl s1'
  proof -
    obtain a d where "scan_answer E v (fst (ckey k)) (snd (ckey k)) (clock s1') = (a, d)" by force
    with that own [OF that(1)] have "lock_step i s (ask_scan E v i n dl s1') (Fetching n dl (clock s1') a d)"
      by (auto simp: lock_step_def ask_scan_def k_def)
    then show ?thesis ..
  qed
  have concl: "\<exists>p. lock_step i s (poll_or_conclude i n u a s) p"
    if h: "held_lock (cphase k) = Some n" for n u a
  proof (cases "no_verdict a \<and> clock s + SCAN_LAG_POLL \<le> u")
    case True
    with own [OF h] h show ?thesis
      by (intro exI [of _ "Napping n u (clock s + SCAN_LAG_POLL)"])
        (auto simp: poll_or_conclude_def lock_step_def k_def)
  next
    case False
    with conclude_lock_step [OF held i, of n a] h show ?thesis by (auto simp: poll_or_conclude_def k_def)
  qed
  show ?thesis
  proof (cases "cphase k")
    case Came
    with step c same show ?thesis
      by (auto simp: check_step_def k_def lock_step_def split: option.splits)
  next
    case NeedLock
    with step show ?thesis
      by (auto simp: check_step_def k_def lock_step_def Let_def split: option.splits)
  next
    case (AwaitLock n)
    with step show ?thesis
      by (intro exI [of _ "HoldLock n"]) (auto simp: check_step_def k_def lock_step_def Let_def split: if_splits)
  next
    case (HoldLock n)
    show ?thesis
    proof (cases c)
      case None
      with HoldLock step c asks [of n s1] same show ?thesis by (auto simp: check_step_def k_def Let_def)
    next
      case (Some r)
      with HoldLock step c same show ?thesis
        by (intro exI [of _ "Decided r (clock s)"]) (auto simp: check_step_def k_def lock_step_def Let_def)
    qed
  next
    case (Fetching n deadline t a d)
    with step concl [of n] conclude_lock_step [OF held i, of n a] show ?thesis
      by (auto simp: check_step_def k_def Let_def split: if_splits option.splits)
  next
    case (Napping n deadline u)
    with step asks [of n s] show ?thesis by (auto simp: check_step_def k_def Let_def split: if_splits)
  next
    case (Cleaning n r u)
    with step show ?thesis
      by (intro exI [of _ "Decided r u"]) (auto simp: check_step_def k_def lock_step_def Let_def)
  qed (use step in \<open>simp_all add: check_step_def k_def Let_def\<close>)
qed

lemma held_inv_step:
  assumes "gate_step E v s s'" "held_inv s"
  shows "held_inv s'"
  using assms(1)
proof (cases rule: gate_step.cases)
  case (run i)
  with check_step_lock [OF assms(2) run] lock_step_held [OF assms(2) run(1)] show ?thesis by blast
next
  case (call key w)
  with assms(2) show ?thesis by (auto simp: held_inv_def call_gate_def nth_append less_Suc_eq split: if_splits)
next
  case (hang i)
  have "lock_step i s s' Hung_up"
    by (cases "held_lock (cphase (checks s ! i))") (auto simp: hang hang_up_def lock_step_def)
  then show ?thesis by (rule lock_step_held [OF assms(2) hang(2)])
qed (use assms(2) in \<open>simp add: held_inv_def\<close>)

interpretation gate_tasks: task_system "gate_start v" "gate_step E v"
  "\<lambda>s. gate_tasks_inv E v 0 {} s \<and> held_inv s"
proof unfold_locales
  fix s :: gate_tasks
  assume "gate_start v s"
  then show "gate_tasks_inv E v 0 {} s \<and> held_inv s"
    using gate_start_inv by (auto simp: gate_start_def held_inv_def)
next
  fix s s' :: gate_tasks
  assume "gate_step E v s s'" "gate_tasks_inv E v 0 {} s \<and> held_inv s"
  then show "gate_tasks_inv E v 0 {} s' \<and> held_inv s'"
    using gate_tasks_inv_step held_inv_step by blast
qed

text \<open>A lock admits one request to scan at a time.\<close>

lemma one_fetch_per_lock:
  assumes "(gate_step E v)\<^sup>*\<^sup>* s0 s" "gate_start v s0"
    and "i < length (checks s)" "cphase (checks s ! i) = Fetching n x t a d"
    and "j < length (checks s)" "cphase (checks s ! j) = Fetching n x' t' a' d'"
  shows "i = j"
proof -
  from gate_tasks.reach_inv [OF assms(2,1)] have "held_inv s" by simp
  then have "hm_get (lock_holders s) n = Some i" "hm_get (lock_holders s) n = Some j"
    using assms(3-6) by (auto simp: held_inv_def)
  then show ?thesis by simp
qed

subsection \<open>Progress\<close>

text \<open>When a call that holds a lock goes on.\<close>

definition wakes :: "check \<Rightarrow> instant" where
  "wakes k = (case cphase k of Fetching _ _ t _ d \<Rightarrow> t + d | Napping _ _ u \<Rightarrow> u | _ \<Rightarrow> 0)"

lemma awake_runs:
  assumes "\<not> decided (cphase (checks s ! i))" "\<And>n. cphase (checks s ! i) \<noteq> AwaitLock n"
    and "wakes (checks s ! i) \<le> clock s"
  shows "check_step E v i s \<noteq> None"
  using assms
  by (cases "cphase (checks s ! i)")
    (auto simp: check_step_def wakes_def Let_def split: option.splits prod.splits)

text \<open>Nobody waits forever: as long as a call is undecided, one of them goes on, now or when it wakes.\<close>

lemma some_check_runs:
  assumes inv: "gate_tasks_inv E v t0 K s" and held: "held_inv s"
    and j: "j < length (checks s)" "\<not> decided (cphase (checks s ! j))"
  shows "\<exists>i < length (checks s). \<exists>x. may_pass x s \<and> check_step E v i (tick x s) \<noteq> None"
proof -
  have now: "clock s \<le> t + d" if "k \<in> set (checks s)" "cphase k = Fetching n dl t a d" for k n dl t a d
    using inv that by (force simp: gate_tasks_inv_def phase_ok_def)
  let ?free = "\<lambda>i. i < length (checks s) \<and> \<not> decided (cphase (checks s ! i)) \<and> (\<forall>n. cphase (checks s ! i) \<noteq> AwaitLock n)"
  show ?thesis
  proof (cases "\<exists>i. ?free i")
    case True
    then obtain i where i: "?free i" and least: "\<And>k. ?free k \<Longrightarrow> wakes (checks s ! i) \<le> wakes (checks s ! k)"
      using ex_has_least_nat [of ?free _ "\<lambda>i. wakes (checks s ! i)"] by blast
    define x where "x = wakes (checks s ! i) - clock s"
    have "clock s + x \<le> t + d" if k: "k < length (checks s)" "cphase (checks s ! k) = Fetching n dl t a d" for k n dl t a d
    proof -
      from k least [of k] have "wakes (checks s ! i) \<le> t + d" by (simp add: wakes_def)
      with now [OF nth_mem [OF k(1)] k(2)] show ?thesis by (simp add: x_def)
    qed
    then have "may_pass x s" unfolding may_pass_def list_all_length by (auto split: check_phase.splits)
    moreover from i have "check_step E v i (tick x s) \<noteq> None"
      by (intro awake_runs) (simp_all add: x_def)
    ultimately show ?thesis using i by blast
  next
    case False
    with j obtain n where n: "cphase (checks s ! j) = AwaitLock n" by blast
    have "hm_get (lock_holders s) n = None"
    proof (rule ccontr)
      assume "hm_get (lock_holders s) n \<noteq> None"
      with held obtain k where "k < length (checks s)" "held_lock (cphase (checks s ! k)) = Some n"
        by (auto simp: held_inv_def)
      with False show False by (cases "cphase (checks s ! k)") auto
    qed
    with n have "check_step E v j (tick 0 s) \<noteq> None" by (simp add: check_step_def)
    moreover have "may_pass 0 s"
      unfolding may_pass_def list_all_iff using now by (auto split: check_phase.splits)
    ultimately show ?thesis using j(1) by blast
  qed
qed

subsection \<open>The time under the lock\<close>

text \<open>A scheduler that is never late: time passes only while no call can run.\<close>

definition idle_for :: "'y gate_env_scheme \<Rightarrow> verifier \<Rightarrow> nat \<Rightarrow> gate_tasks \<Rightarrow> bool" where
  "idle_for E v x s \<longleftrightarrow> (\<forall>y < x. \<forall>i < length (checks s). check_step E v i (tick y s) = None)"

inductive prompt_step :: "'y gate_env_scheme \<Rightarrow> verifier \<Rightarrow> gate_tasks \<Rightarrow> gate_tasks \<Rightarrow> bool"
  for E :: "'y gate_env_scheme" and v :: verifier where
  prompt_run: "i < length (checks s) \<Longrightarrow> check_step E v i s = Some s' \<Longrightarrow> prompt_step E v s s'"
| prompt_pass: "may_pass x s \<Longrightarrow> idle_for E v x s \<Longrightarrow> prompt_step E v s (tick x s)"
| prompt_call: "prompt_step E v s (call_gate key w s)"
| prompt_hang: "i < length (checks s) \<Longrightarrow> \<not> decided (cphase (checks s ! i)) \<Longrightarrow> prompt_step E v s (hang_up i s)"

text \<open>How long a call with waiting time \<open>w\<close> needs at most: one request, and if it polls, the waiting time and
  the request that was sent last.\<close>

definition needs :: "nat \<Rightarrow> nat" where
  "needs w = REQUEST_TIMEOUT + (if w < SCAN_LAG_POLL then 0 else w + REQUEST_TIMEOUT)"

text \<open>Where a call that took its lock at \<open>t0\<close> is in time.\<close>

definition on_time :: "instant \<Rightarrow> nat \<Rightarrow> instant \<Rightarrow> check_phase \<Rightarrow> bool" where
  "on_time t0 w now p =
     (case p of
        HoldLock n \<Rightarrow> now = t0
      | Fetching n None t a d \<Rightarrow> t = t0 \<and> d \<le> REQUEST_TIMEOUT \<and> now \<le> t + d
      | Fetching n (Some dl) t a d \<Rightarrow>
          SCAN_LAG_POLL \<le> w \<and> t \<le> dl \<and> dl \<le> t0 + REQUEST_TIMEOUT + w \<and> d \<le> REQUEST_TIMEOUT \<and> now \<le> t + d
      | Napping n dl u \<Rightarrow> SCAN_LAG_POLL \<le> w \<and> u \<le> dl \<and> dl \<le> t0 + REQUEST_TIMEOUT + w \<and> now \<le> u
      | Cleaning n r u \<Rightarrow> now \<le> t0 + needs w \<and> u \<le> now
      | Decided r u \<Rightarrow> u \<le> t0 + needs w
      | Hung_up \<Rightarrow> True
      | _ \<Rightarrow> False)"

definition in_time :: "instant \<Rightarrow> nat \<Rightarrow> check \<Rightarrow> gate_tasks \<Rightarrow> bool" where
  "in_time t0 i k s \<longleftrightarrow> i < length (checks s) \<and> ckey (checks s ! i) = ckey k \<and> cwait (checks s ! i) = cwait k \<and>
     on_time t0 (cwait k) (clock s) (cphase (checks s ! i))"

definition own_step :: "nat \<Rightarrow> gate_tasks \<Rightarrow> gate_tasks \<Rightarrow> bool" where
  "own_step j s s' \<longleftrightarrow> clock s' = clock s \<and> (\<exists>p. checks s' = (checks s)[j := (checks s ! j)\<lparr>cphase := p\<rparr>])"

lemma conclude_own: "own_step j s (conclude j n a s)"
proof -
  obtain r s1 where st: "settle (ckey (checks s ! j)) a s = (r, s1)" by force
  with settle_tasks [OF st] show ?thesis by (auto simp: own_step_def conclude_def)
qed

lemma poll_own: "own_step j s (poll_or_conclude j n dl a s)"
  using conclude_own by (auto simp: poll_or_conclude_def own_step_def)

lemma ask_own: "clock q = clock s \<Longrightarrow> checks q = checks s \<Longrightarrow> own_step j s (ask_scan E v j n dl q)"
  by (auto simp: own_step_def ask_scan_def Let_def split: prod.split)

lemma check_step_own:
  assumes step: "check_step E v j s = Some s'"
  shows "own_step j s s'"
proof -
  obtain r s1 where r: "cached_decision (ckey (checks s ! j)) s = (r, s1)" by force
  note same = cached_tasks [OF r]
  show ?thesis
  proof (cases "cphase (checks s ! j)")
    case Came
    with step r same show ?thesis by (cases r) (auto simp: check_step_def Let_def own_step_def)
  next
    case NeedLock
    with step show ?thesis by (auto simp: check_step_def Let_def own_step_def split: option.splits)
  next
    case (HoldLock n)
    with step r same ask_own [of s1 s j E v n None] show ?thesis by (cases r) (auto simp: check_step_def Let_def own_step_def)
  next
    case (Fetching n dl t a d)
    with step conclude_own [of j s n a] poll_own [of j s n _ a] show ?thesis
      by (auto simp: check_step_def Let_def split: if_splits option.splits)
  next
    case (Napping n dl u)
    with step ask_own [of s s j E v n "Some dl"] show ?thesis by (auto simp: check_step_def Let_def split: if_splits)
  qed (use step in \<open>auto simp: check_step_def Let_def own_step_def split: if_splits\<close>)
qed

text \<open>The steps of the call itself.\<close>

lemma conclude_on_time:
  assumes "i < length (checks s)" "clock s \<le> t0 + needs w"
  shows "on_time t0 w (clock s) (cphase (checks (conclude i n a s) ! i))"
proof -
  obtain r s1 where st: "settle (ckey (checks s ! i)) a s = (r, s1)" by force
  with assms settle_tasks [OF st] show ?thesis by (simp add: conclude_def on_time_def)
qed

lemma poll_on_time:
  assumes "i < length (checks s)" "dl \<le> t0 + REQUEST_TIMEOUT + w" "clock s \<le> t0 + needs w"
    and "SCAN_LAG_POLL \<le> w \<or> dl \<le> clock s + w"
  shows "on_time t0 w (clock s) (cphase (checks (poll_or_conclude i n dl a s) ! i))"
  using conclude_on_time [OF assms(1,3)] assms by (auto simp: poll_or_conclude_def on_time_def)

lemma ask_on_time:
  assumes i: "i < length (checks s)" and quick: "\<forall>t. snd (scan_answer E v (fst (ckey (checks s ! i))) (snd (ckey (checks s ! i))) t) \<le> REQUEST_TIMEOUT"
    and dl: "case deadline of None \<Rightarrow> clock s = t0
      | Some u \<Rightarrow> SCAN_LAG_POLL \<le> w \<and> clock s \<le> u \<and> u \<le> t0 + REQUEST_TIMEOUT + w"
  shows "on_time t0 w (clock s) (cphase (checks (ask_scan E v i n deadline s) ! i))"
proof -
  obtain a d where a: "scan_answer E v (fst (ckey (checks s ! i))) (snd (ckey (checks s ! i))) (clock s) = (a, d)" by force
  with quick have "d \<le> REQUEST_TIMEOUT" by (metis snd_conv)
  with a i dl show ?thesis by (auto simp: ask_scan_def on_time_def split: option.splits)
qed

lemma check_step_on_time:
  assumes i: "i < length (checks s)" and step: "check_step E v i s = Some s'"
    and ot: "on_time t0 w (clock s) (cphase (checks s ! i))" and w: "w = cwait (checks s ! i)"
    and quick: "\<forall>t. snd (scan_answer E v (fst (ckey (checks s ! i))) (snd (ckey (checks s ! i))) t) \<le> REQUEST_TIMEOUT"
  shows "on_time t0 w (clock s) (cphase (checks s' ! i))"
proof (cases "cphase (checks s ! i)")
  case (HoldLock n)
  with ot have t0: "clock s = t0" by (simp add: on_time_def)
  obtain r s1 where r: "cached_decision (ckey (checks s ! i)) s = (r, s1)" by force
  note same = cached_tasks [OF r]
  show ?thesis
  proof (cases r)
    case None
    with HoldLock step r have "s' = ask_scan E v i n None s1" by (simp add: check_step_def Let_def)
    with ask_on_time [of i s1 E v t0 w None n] i quick same t0 show ?thesis by simp
  next
    case (Some x)
    with HoldLock step r same i t0 show ?thesis by (auto simp: check_step_def Let_def on_time_def)
  qed
next
  case (Fetching n deadline t a d)
  have late: "t + d \<le> clock s" using Fetching step by (auto simp: check_step_def Let_def split: if_splits)
  show ?thesis
  proof (cases deadline)
    case None
    with Fetching ot late have c: "clock s \<le> t0 + REQUEST_TIMEOUT" by (simp add: on_time_def)
    then have "clock s \<le> t0 + needs w" by (simp add: needs_def)
    with conclude_on_time [OF i this, of n a] poll_on_time [OF i _ this, of "clock s + w" n a] None Fetching step late c w
    show ?thesis by (auto simp: check_step_def Let_def split: if_splits)
  next
    case (Some u)
    with Fetching ot have c: "SCAN_LAG_POLL \<le> w" "t \<le> u" "u \<le> t0 + REQUEST_TIMEOUT + w" "d \<le> REQUEST_TIMEOUT" "clock s \<le> t + d"
      by (simp_all add: on_time_def)
    then have "clock s \<le> t0 + needs w" by (simp add: needs_def)
    with poll_on_time [OF i c(3) this, of n a] Some Fetching step late c show ?thesis by (auto simp: check_step_def Let_def)
  qed
next
  case (Napping n u z)
  with step have "s' = ask_scan E v i n (Some u) s" "z \<le> clock s" by (auto simp: check_step_def Let_def split: if_splits)
  with Napping ot ask_on_time [OF i quick, of t0 w "Some u" n] show ?thesis by (simp add: on_time_def)
next
  case (Cleaning n r u)
  with step ot i show ?thesis by (auto simp: check_step_def Let_def on_time_def)
qed (use ot step in \<open>simp_all add: on_time_def check_step_def Let_def\<close>)

text \<open>A call that can go on does so before time passes.\<close>

lemma pass_on_time:
  assumes i: "i < length (checks s)" and ot: "on_time t0 w (clock s) (cphase (checks s ! i))"
    and pass: "may_pass x s" "idle_for E v x s"
  shows "on_time t0 w (clock s + x) (cphase (checks s ! i))"
proof -
  have stuck: "y < x \<Longrightarrow> check_step E v i (tick y s) = None" for y
    using pass(2) i by (simp add: idle_for_def)
  have now: "x = 0" if "check_step E v i (tick 0 s) \<noteq> None" using stuck [of 0] that by (cases x) auto
  show ?thesis
  proof (cases "cphase (checks s ! i)")
    case (HoldLock n)
    then have "check_step E v i (tick 0 s) \<noteq> None" by (intro awake_runs) (simp_all add: wakes_def)
    with ot HoldLock now show ?thesis by simp
  next
    case (Cleaning n r u)
    then have "check_step E v i (tick 0 s) \<noteq> None" by (intro awake_runs) (simp_all add: wakes_def)
    with ot Cleaning now show ?thesis by simp
  next
    case (Napping n dl u)
    have "\<not> u < clock s + x"
    proof
      assume u: "u < clock s + x"
      with ot Napping have "clock s \<le> u" by (simp add: on_time_def)
      with u have y: "u - clock s < x" "clock s + (u - clock s) = u" by simp_all
      have "check_step E v i (tick (u - clock s) s) \<noteq> None"
        by (rule awake_runs) (use Napping y in \<open>simp_all add: wakes_def\<close>)
      with stuck [OF y(1)] show False by simp
    qed
    with ot Napping show ?thesis by (simp add: on_time_def)
  next
    case (Fetching n dl t a d)
    have "clock s + x \<le> t + d" using pass(1) i Fetching by (auto simp: may_pass_def list_all_length)
    with ot Fetching show ?thesis by (cases dl) (simp_all add: on_time_def)
  qed (use ot in \<open>simp_all add: on_time_def\<close>)
qed

lemma in_time_step:
  assumes quick: "\<forall>t. snd (scan_answer E v (fst (ckey k)) (snd (ckey k)) t) \<le> REQUEST_TIMEOUT"
    and step: "prompt_step E v s s'" and inv: "in_time t0 i k s"
  shows "in_time t0 i k s'"
proof -
  from inv have i: "i < length (checks s)" and k: "ckey (checks s ! i) = ckey k" "cwait (checks s ! i) = cwait k"
    and ot: "on_time t0 (cwait k) (clock s) (cphase (checks s ! i))" by (simp_all add: in_time_def)
  have own: "in_time t0 i k s'" if "own_step j s s'" "j = i \<Longrightarrow> on_time t0 (cwait k) (clock s) (cphase (checks s' ! i))" for j
    using that i k ot by (cases "j = i") (auto simp: own_step_def in_time_def nth_list_update)
  from step show ?thesis
  proof (cases rule: prompt_step.cases)
    case (prompt_run j)
    show ?thesis
    proof (rule own)
      show "own_step j s s'" by (rule check_step_own [OF prompt_run(2)])
      show "on_time t0 (cwait k) (clock s) (cphase (checks s' ! i))" if "j = i"
        using check_step_on_time [OF i _ ot] prompt_run(2) quick k that by simp
    qed
  next
    case (prompt_pass x)
    with pass_on_time [OF i ot] i k show ?thesis by (simp add: in_time_def)
  next
    case (prompt_call key w)
    with i k ot show ?thesis by (simp add: in_time_def call_gate_def nth_append)
  next
    case (prompt_hang j)
    have "own_step j s s'" by (auto simp: prompt_hang(1) own_step_def hang_up_def Let_def split: option.split)
    moreover have "cphase (checks s' ! i) = Hung_up" if "j = i"
      using i that by (simp add: prompt_hang(1) hang_up_def Let_def split: option.split)
    then have "on_time t0 (cwait k) (clock s) (cphase (checks s' ! i))" if "j = i" using that by (simp add: on_time_def)
    ultimately show ?thesis by (rule own)
  qed
qed

lemma in_time_bound:
  assumes "in_time t0 i k s" "\<not> decided (cphase (checks s ! i))"
  shows "clock s \<le> t0 + needs (cwait k)"
  using assms by (cases "cphase (checks s ! i)") (auto simp: in_time_def on_time_def needs_def split: option.splits)

subsection \<open>The call that nothing interrupts\<close>

definition with_checks ::
    "(gate_key, unit) hash_map \<Rightarrow> (gate_key, nat) hash_map \<Rightarrow> nat \<Rightarrow> (nat, nat) hash_map \<Rightarrow> check list
       \<Rightarrow> gate_tasks \<Rightarrow> gate_tasks" where
  "with_checks f kl n lh ks s =
     s\<lparr>fetch_locks := f, key_locks := kl, lock_count := n, lock_holders := lh, checks := ks\<rparr>"

lemma with_checks_simps [simp]:
  "clock (with_checks f kl n lh ks s) = clock s" "verdicts (with_checks f kl n lh ks s) = verdicts s"
  "key_locks (with_checks f kl n lh ks s) = kl" "lock_count (with_checks f kl n lh ks s) = n"
  "lock_holders (with_checks f kl n lh ks s) = lh" "checks (with_checks f kl n lh ks s) = ks"
  "move_to i p (with_checks f kl n lh ks s) = with_checks f kl n lh (ks[i := (ks ! i)\<lparr>cphase := p\<rparr>]) s"
  "release m (with_checks f kl n lh ks s) = with_checks f kl n (hm_remove m lh) ks s"
  "(with_checks f kl n lh ks s)\<lparr>key_locks := kl'\<rparr> = with_checks f kl' n lh ks s"
  "(with_checks f kl n lh ks s)\<lparr>lock_count := n'\<rparr> = with_checks f kl n' lh ks s"
  "(with_checks f kl n lh ks s)\<lparr>lock_holders := lh'\<rparr> = with_checks f kl n lh' ks s"
  "tick x (with_checks f kl n lh ks s) = with_checks f kl n lh ks (tick x s)"
  "with_checks f kl n lh ks (s\<lparr>fetch_locks := y\<rparr>) = with_checks f kl n lh ks s"
  by (simp_all add: with_checks_def move_to_def release_def tick_def)

lemma cached_with:
  "cached_decision key s = (c, s1) \<Longrightarrow>
     cached_decision key (with_checks f kl n lh ks s) = (c, with_checks f kl n lh ks s1)"
  by (auto simp: cached_decision_def with_checks_def bump_def split: option.splits if_splits)

lemma settle_with:
  "settle key a s = (r, s1) \<Longrightarrow> settle key a (with_checks f kl n lh ks s) = (r, with_checks f kl n lh ks s1)"
  by (auto simp: settle_def with_checks_def bump_def Let_def split: sum.splits answer.splits option.splits if_splits)

lemma has_stale_positive_with [simp]: "has_stale_positive key (with_checks f kl n lh ks s) = has_stale_positive key s"
  by (simp add: has_stale_positive_def split: option.split)

text \<open>No other call is asking scan.\<close>

definition quiet :: "nat \<Rightarrow> check list \<Rightarrow> bool" where
  "quiet i ks \<longleftrightarrow> i < length ks \<and>
     (\<forall>j < length ks. j \<noteq> i \<longrightarrow> (\<forall>n x t a d. cphase (ks ! j) \<noteq> Fetching n x t a d))"

lemma quiet_update [simp]: "quiet i (ks[i := k]) = quiet i ks"
  by (auto simp: quiet_def)

lemma quiet_pass:
  assumes "quiet i ks" "\<And>m dl t a d. cphase (ks ! i) = Fetching m dl t a d \<Longrightarrow> clock s + x \<le> t + d"
  shows "gate_step E v (with_checks f kl n lh ks s) (with_checks f kl n lh ks (tick x s))"
proof -
  have "may_pass x (with_checks f kl n lh ks s)"
    using assms unfolding may_pass_def list_all_length quiet_def
    by (auto split: check_phase.splits)
  from gate_step.pass [OF this, of E v] show ?thesis by simp
qed

lemma go_with:
  assumes "i < length ks" "check_step E v i (with_checks f kl n lh ks s) = Some s'"
  shows "gate_step E v (with_checks f kl n lh ks s) s'"
  using assms by (auto intro: gate_step.run)

text \<open>What follows an answer does not depend on the phase the call was in.\<close>

lemma conclude_phase:
  assumes "i < length ks"
  shows "conclude i m a (with_checks f kl n lh (ks[i := (ks ! i)\<lparr>cphase := q\<rparr>]) s) =
    conclude i m a (with_checks f kl n lh ks s)"
proof -
  obtain r s1 where st: "settle (ckey (ks ! i)) a s = (r, s1)" by force
  from assms show ?thesis by (simp add: conclude_def settle_with [OF st])
qed

lemma poll_phase:
  assumes "i < length ks"
  shows "poll_or_conclude i m dl a (with_checks f kl n lh (ks[i := (ks ! i)\<lparr>cphase := q\<rparr>]) s) =
    poll_or_conclude i m dl a (with_checks f kl n lh ks s)"
  using assms by (simp add: poll_or_conclude_def conclude_phase)

text \<open>The polls of a call are the loop of \<open>poll_scan\<close>.\<close>

lemma seq_poll:
  assumes "quiet i ks" "ckey (ks ! i) = (app, signer)"
    and "poll_scan E v app signer dl outcome s = (o', s3)"
  shows "(gate_step E v)\<^sup>*\<^sup>* (poll_or_conclude i m dl outcome (with_checks f kl n lh ks s))
    (conclude i m o' (with_checks f kl n lh ks s3))"
  using assms(2,3)
proof (induction E v app signer dl outcome s rule: poll_scan.induct)
  case (1 E v app signer dl outcome s)
  from assms(1) have i: "i < length ks" by (simp add: quiet_def)
  show ?case
  proof (cases "no_verdict outcome \<and> clock s + SCAN_LAG_POLL \<le> dl")
    case False
    with "1.prems" show ?thesis by (auto simp: poll_scan.simps poll_or_conclude_def)
  next
    case True
    obtain a d where ad: "scan_answer E v app signer (clock s + SCAN_LAG_POLL) = (a, d)" by force
    define s1 where "s1 = tick d (tick SCAN_LAG_POLL s)"
    have f: "fetch E v app signer (tick SCAN_LAG_POLL s) = (a, s1)" by (simp add: fetch_def ad s1_def)
    define at where "at = (\<lambda>p. ks[i := (ks ! i)\<lparr>cphase := p\<rparr>])"
    have at: "i < length (at p)" "at p ! i = (ks ! i)\<lparr>cphase := p\<rparr>" "quiet i (at p)" for p
      using i assms(1) by (simp_all add: at_def)
    let ?nap = "Napping m dl (clock s + SCAN_LAG_POLL)"
    let ?ask = "Fetching m (Some dl) (clock s + SCAN_LAG_POLL) a d"
    have 0: "poll_or_conclude i m dl outcome (with_checks f kl n lh ks s) = with_checks f kl n lh (at ?nap) s"
      using True by (simp add: poll_or_conclude_def at_def)
    have 1: "gate_step E v (with_checks f kl n lh (at ?nap) s) (with_checks f kl n lh (at ?nap) (tick SCAN_LAG_POLL s))"
      by (rule quiet_pass [OF at(3)]) (simp add: at)
    have 2: "gate_step E v (with_checks f kl n lh (at ?nap) (tick SCAN_LAG_POLL s))
        (with_checks f kl n lh (at ?ask) (tick SCAN_LAG_POLL s))"
      by (rule go_with [OF at(1)]) (simp add: check_step_def at ask_scan_def "1.prems"(1) ad at_def i)
    have 3: "gate_step E v (with_checks f kl n lh (at ?ask) (tick SCAN_LAG_POLL s)) (with_checks f kl n lh (at ?ask) s1)"
      unfolding s1_def by (rule quiet_pass [OF at(3)]) (simp add: at)
    have 4: "gate_step E v (with_checks f kl n lh (at ?ask) s1)
        (poll_or_conclude i m dl a (with_checks f kl n lh ks s1))"
      by (rule go_with [OF at(1)])
        (simp add: check_step_def at s1_def, simp add: at_def poll_phase i)
    from "1.prems" True f have "poll_scan E v app signer dl a s1 = (o', s3)"
      by (simp add: poll_scan.simps [of E v app signer dl outcome s])
    from "1.IH" [OF True f [symmetric] refl "1.prems"(1) this] 0 1 2 3 4 show ?thesis
      by (metis converse_rtranclp_into_rtranclp)
  qed
qed

text \<open>A call that is settled has only its lock left to remove.\<close>

lemma seq_conclude:
  assumes i: "i < length ks" and st: "settle (ckey (ks ! i)) a s = (r, s')"
  shows "gate_step E v (conclude i m a (with_checks f kl n lh ks s))
    (with_checks f (hm_remove (ckey (ks ! i)) kl) n (hm_remove m lh) (ks[i := (ks ! i)\<lparr>cphase := Decided r (clock s)\<rparr>]) s')"
proof -
  define ks1 where "ks1 = ks[i := (ks ! i)\<lparr>cphase := Cleaning m r (clock s)\<rparr>]"
  from i have "ks1 ! i = (ks ! i)\<lparr>cphase := Cleaning m r (clock s)\<rparr>" "i < length ks1" by (simp_all add: ks1_def)
  moreover from st have "conclude i m a (with_checks f kl n lh ks s) = with_checks f kl n lh ks1 s'"
    by (simp add: conclude_def settle_with ks1_def)
  ultimately show ?thesis
    by (auto intro!: go_with simp: check_step_def Let_def ks1_def)
qed

text \<open>Under the lock: the cache again, the first request, the polls and the settlement.\<close>

lemma seq_locked:
  assumes q: "quiet i ks" and k: "ks ! i = k" "ckey k = (app, signer)" "cphase k = HoldLock m"
    and call: "require_verified_locked E v app signer (cwait k) s = (r, s')"
  shows "\<exists>kl' lh' u. (gate_step E v)\<^sup>*\<^sup>* (with_checks f kl n lh ks s)
    (with_checks f kl' n lh' (ks[i := k\<lparr>cphase := Decided r u\<rparr>]) s')"
proof -
  from q have i: "i < length ks" by (simp add: quiet_def)
  obtain c s1 where c: "cached_decision (app, signer) s = (c, s1)" by force
  show ?thesis
  proof (cases c)
    case (Some d)
    with call c have r: "r = d" "s' = s1" by (simp_all add: require_verified_locked_def)
    have "gate_step E v (with_checks f kl n lh ks s)
        (with_checks f kl n (hm_remove m lh) (ks[i := k\<lparr>cphase := Decided r (clock s)\<rparr>]) s')"
      by (rule go_with [OF i]) (simp add: check_step_def k cached_with [OF c] Some r)
    then show ?thesis by blast
  next
    case None
    with c have s1: "s1 = s" by (simp add: cached_decision_none)
    obtain a d where ad: "scan_answer E v app signer (clock s) = (a, d)" by force
    define s2 where "s2 = tick d s"
    have f: "fetch E v app signer s = (a, s2)" by (simp add: fetch_def ad s2_def)
    obtain o' s3 where o': "(if \<not> has_stale_positive (app, signer) s2
        then poll_scan E v app signer (clock s2 + cwait k) a s2 else (a, s2)) = (o', s3)" by force
    obtain r' s4 where st: "settle (app, signer) o' s3 = (r', s4)" by force
    from call c None f o' st s1 have r: "r = r'" "s' = s4\<lparr>fetch_locks := hm_remove (app, signer) (fetch_locks s4)\<rparr>"
      by (simp_all add: require_verified_locked_def Let_def split: if_splits)
    define ks1 where "ks1 = ks[i := k\<lparr>cphase := Fetching m None (clock s) a d\<rparr>]"
    have ks1: "i < length ks1" "ks1 ! i = k\<lparr>cphase := Fetching m None (clock s) a d\<rparr>" "quiet i ks1"
      using i q by (simp_all add: ks1_def)
    have 1: "gate_step E v (with_checks f kl n lh ks s) (with_checks f kl n lh ks1 s)"
      by (rule go_with [OF i])
        (simp add: check_step_def k cached_with [OF c] None s1 ask_scan_def ad ks1_def)
    have 2: "gate_step E v (with_checks f kl n lh ks1 s) (with_checks f kl n lh ks1 s2)"
      unfolding s2_def by (rule quiet_pass [OF ks1(3)]) (simp add: ks1)
    have 3: "(gate_step E v)\<^sup>*\<^sup>* (with_checks f kl n lh ks1 s2) (conclude i m o' (with_checks f kl n lh ks1 s3))"
    proof (cases "has_stale_positive (app, signer) s2")
      case True
      with o' have "o' = a" "s3 = s2" by simp_all
      with True have "gate_step E v (with_checks f kl n lh ks1 s2) (conclude i m o' (with_checks f kl n lh ks1 s3))"
        by (intro go_with [OF ks1(1)]) (simp add: check_step_def ks1 k s2_def)
      then show ?thesis by blast
    next
      case False
      then have "gate_step E v (with_checks f kl n lh ks1 s2)
          (poll_or_conclude i m (clock s2 + cwait k) a (with_checks f kl n lh ks1 s2))"
        by (intro go_with [OF ks1(1)]) (simp add: check_step_def ks1 k s2_def)
      with False seq_poll [OF ks1(3), of app signer E v "clock s2 + cwait k" a s2 o' s3] o' k ks1
      show ?thesis by (simp add: converse_rtranclp_into_rtranclp)
    qed
    from seq_conclude [OF ks1(1), of o' s3 r' s4 E v m f kl n lh] st k ks1 r
    have 4: "gate_step E v (conclude i m o' (with_checks f kl n lh ks1 s3)) (with_checks f
        (hm_remove (app, signer) kl) n (hm_remove m lh) (ks[i := k\<lparr>cphase := Decided r (clock s3)\<rparr>]) s')"
      by (simp add: ks1_def)
    from 1 2 3 4 show ?thesis by (meson converse_rtranclp_into_rtranclp rtranclp.rtrancl_into_rtrancl)
  qed
qed

text \<open>
  The sequential call is the run that nothing interrupts: with no other request under way and no lock made
  for the key, the task can run through, and then it has decided what \<open>require_verified\<close> returns and the
  clock, the counters and the verdicts are exactly those of the sequential function.
\<close>

theorem sequential_check_is_a_run:
  assumes q: "quiet i (checks s)" and k: "checks s ! i = k" "ckey k = (app, signer)" "cphase k = Came"
    and free: "hm_get (key_locks s) (app, signer) = None" "hm_get (lock_holders s) (lock_count s) = None"
    and call: "verifier_require_verified E v app signer (cwait k) s = (r, s')"
  shows "\<exists>kl n lh u. (gate_step E v)\<^sup>*\<^sup>* s
    (with_checks (fetch_locks s) kl n lh ((checks s)[i := k\<lparr>cphase := Decided r u\<rparr>]) s')"
proof -
  let ?f = "fetch_locks s" and ?kl = "key_locks s" and ?n = "lock_count s" and ?lh = "lock_holders s" and ?ks = "checks s"
  from q have i: "i < length ?ks" by (simp add: quiet_def)
  have self: "s = with_checks ?f ?kl ?n ?lh ?ks s" by (simp add: with_checks_def)
  obtain c s1 where c: "cached_decision (app, signer) s = (c, s1)" by force
  show ?thesis
  proof (cases c)
    case (Some d)
    with call c have r: "r = d" "s' = s1" by (simp_all add: verifier_require_verified_def)
    have "gate_step E v (with_checks ?f ?kl ?n ?lh ?ks s)
        (with_checks ?f ?kl ?n ?lh (?ks[i := k\<lparr>cphase := Decided r (clock s)\<rparr>]) s')"
      by (rule go_with [OF i]) (simp add: check_step_def k cached_with [OF c] Some r)
    then show ?thesis unfolding self [symmetric] by blast
  next
    case None
    with c have s1: "s1 = s" by (simp add: cached_decision_none)
    define at where "at = (\<lambda>p. ?ks[i := k\<lparr>cphase := p\<rparr>])"
    have at: "i < length (at p)" "at p ! i = k\<lparr>cphase := p\<rparr>" "quiet i (at p)" "(at p)[i := k\<lparr>cphase := p'\<rparr>] = at p'" for p p'
      using i q by (simp_all add: at_def)
    let ?kl1 = "hm_insert (app, signer) ?n ?kl" and ?lh1 = "hm_insert ?n i ?lh"
    let ?s1 = "s\<lparr>fetch_locks := hm_insert (app, signer) () ?f\<rparr>"
    have 1: "gate_step E v (with_checks ?f ?kl ?n ?lh ?ks s) (with_checks ?f ?kl ?n ?lh (at NeedLock) s)"
      by (rule go_with [OF i]) (simp add: check_step_def k cached_with [OF c] None s1 at_def)
    have 2: "gate_step E v (with_checks ?f ?kl ?n ?lh (at NeedLock) s) (with_checks ?f ?kl1 (Suc ?n) ?lh (at (AwaitLock ?n)) s)"
      by (rule go_with [OF at(1)]) (simp add: check_step_def at k free)
    have 3: "gate_step E v (with_checks ?f ?kl1 (Suc ?n) ?lh (at (AwaitLock ?n)) s)
        (with_checks ?f ?kl1 (Suc ?n) ?lh1 (at (HoldLock ?n)) s)"
      by (rule go_with [OF at(1)]) (simp add: check_step_def at free)
    from call c None s1 have "require_verified_locked E v app signer (cwait k) ?s1 = (r, s')"
      by (simp add: verifier_require_verified_def)
    with seq_locked [OF at(3) at(2), of "HoldLock ?n" app signer ?n E v ?s1 r s' ?f ?kl1 "Suc ?n" ?lh1] k(2)
    obtain kl' lh' u where "(gate_step E v)\<^sup>*\<^sup>* (with_checks ?f ?kl1 (Suc ?n) ?lh1 (at (HoldLock ?n)) s)
        (with_checks ?f kl' (Suc ?n) lh' (at (Decided r u)) s')" by (auto simp: at)
    with 1 2 3 have "(gate_step E v)\<^sup>*\<^sup>* s (with_checks ?f kl' (Suc ?n) lh' (at (Decided r u)) s')"
      unfolding self [symmetric] by (meson converse_rtranclp_into_rtranclp)
    then show ?thesis unfolding at_def by blast
  qed
qed

section \<open>Schedules\<close>

datatype gate_move = Call gate_key nat | Go nat | Wait nat | Hang nat

fun gate_play :: "'y gate_env_scheme \<Rightarrow> verifier \<Rightarrow> gate_move list \<Rightarrow> gate_tasks \<Rightarrow> gate_tasks option" where
  "gate_play E v [] s = Some s"
| "gate_play E v (Call key w # ms) s = gate_play E v ms (call_gate key w s)"
| "gate_play E v (Go i # ms) s =
     (if i < length (checks s)
      then case check_step E v i s of None \<Rightarrow> None | Some s' \<Rightarrow> gate_play E v ms s' else None)"
| "gate_play E v (Wait x # ms) s = (if may_pass x s then gate_play E v ms (tick x s) else None)"
| "gate_play E v (Hang i # ms) s =
     (if i < length (checks s) \<and> \<not> decided (cphase (checks s ! i))
      then gate_play E v ms (hang_up i s) else None)"

lemma gate_play_steps: "gate_play E v ms s = Some s' \<Longrightarrow> (gate_step E v)\<^sup>*\<^sup>* s s'"
proof (induction E v ms s rule: gate_play.induct)
  case (3 E v i ms s)
  then show ?case
    by (auto split: if_splits option.splits intro: converse_rtranclp_into_rtranclp gate_step.run)
qed (auto split: if_splits intro: converse_rtranclp_into_rtranclp gate_step.intros)

definition demo_unasked :: gate_tasks where
  "demo_unasked = gate_proc.extend demo_gate_proc (gate_tasks.fields [] 0 [] [])"

lemma demo_unasked_simps [simp]:
  "clock demo_unasked = 0" "VERIFIER demo_unasked = Some (Some demo_verifier)" "verdicts demo_unasked = []"
  "key_locks demo_unasked = []" "lock_count demo_unasked = 0" "lock_holders demo_unasked = []" "checks demo_unasked = []"
  by (simp_all add: demo_unasked_def gate_proc.defs gate_tasks.defs demo_gate_proc_def hm_empty_def)

lemma demo_unasked_start: "gate_start demo_verifier demo_unasked"
  by (simp add: gate_start_def hm_empty_def)

lemmas gate_play_defs = check_step_def cached_decision_def ask_scan_def poll_or_conclude_def conclude_def
  settle_def prune_cache_def restamp_stale_def refused_def has_stale_positive_def no_verdict_def move_to_def release_def
  call_gate_def hang_up_def may_pass_def bump_def tick_def elapsed_def Let_def hm_get_def hm_insert_def hm_remove_def
  POSITIVE_REFRESH_def NEGATIVE_TTL_def SCAN_LAG_POLL_def SCAN_LAG_DAMP_def MAX_VERDICT_STALENESS_def from_secs_def

text \<open>One signer asked for twice: refused at one second, confirmed after two hundred.\<close>

lemma demo_lock_taken:
  "\<exists>s s' s2 s3 r. gate_play demo_gate demo_verifier [Call (''app'', demo_addr1) 0, Go 0, Go 0, Go 0] demo_unasked = Some s \<and>
     cphase (checks s ! 0) = HoldLock 0 \<and> cwait (checks s ! 0) = 0 \<and> ckey (checks s ! 0) = (''app'', demo_addr1) \<and>
     length (checks s) = 1 \<and> clock s = 0 \<and>
     check_step demo_gate demo_verifier 0 s = Some s' \<and> may_pass 1000000000 s' \<and> length (checks s') = 1 \<and> clock s' = 0 \<and>
     cphase (checks s' ! 0) = Fetching 0 None 0 (Inr (Verdict False ''bad quote'')) 1000000000 \<and>
     check_step demo_gate demo_verifier 0 (tick 1000000000 s') = Some s2 \<and> length (checks s2) = 1 \<and>
     check_step demo_gate demo_verifier 0 s2 = Some s3 \<and> cphase (checks s3 ! 0) = Decided r 1000000000"
  by (simp add: gate_play_defs demo_scan_answer)

lemma demo_refused:
  "\<exists>s e. gate_play demo_gate demo_verifier
       [Call (''app'', demo_addr1) 0, Go 0, Go 0, Go 0, Go 0, Wait 1000000000, Go 0] demo_unasked = Some s \<and>
     clock s = 1000000000 \<and> hm_get (verdicts s) (''app'', demo_addr1) = Some e \<and> \<not> verified e \<and>
     (\<forall>k \<in> set (checks s). \<forall>n x t a d. cphase k \<noteq> Fetching n x t a d) \<and>
     (\<exists>s' u. gate_play demo_gate demo_verifier
        [Wait 199000000000, Call (''app'', demo_addr1) 0, Go 0, Go 1, Go 1, Go 1, Go 1, Wait 1000000000, Go 1, Go 1] s = Some s' \<and>
        checks s' ! 1 = \<lparr> ckey = (''app'', demo_addr1), cwait = 0, cphase = Decided (Inr ()) u \<rparr> \<and>
        length (checks s') = 2 \<and> clock s < u)"
  by (simp add: gate_play_defs demo_scan_answer)

text \<open>
  The exception: a call that waited for the lock is not scheduled before the damping of the refusal it
  waited for has run out; the lock is out of the table by then, so that a newcomer makes another one and both
  ask scan. The newcomer is refused at 6 s, and the first, whose request of second 4 is answered later,
  passes at 9 s on a verdict that is older than the refusal.
\<close>

definition demo_slow :: gate_env where
  "demo_slow = demo_gate\<lparr>scan_post := (\<lambda>t url hdr app signer.
     if t = 0 then (HttpReply 404 (Inl []), 1000000000)
     else if t = 4000000000 then (HttpReply 200 (Inr (True, None)), 5000000000)
     else (HttpReply 200 (Inr (False, Some ''revoked'')), 1000000000))\<rparr>"

lemma demo_slow_answer: "scan_answer demo_slow demo_verifier app signer t =
    (if t = 0 then (Inr Unknown, 1000000000)
     else if t = 4000000000 then (Inr (Verdict True []), 5000000000)
     else (Inr (Verdict False ''revoked''), 1000000000))"
  by (simp add: scan_answer_def send_verify_def Let_def verify_server_cert_def demo_slow_def demo_gate_def
      demo_chain_def demo_seal_def demo_crates_def demo_verifier_def demo_verifier_cfg_def demo_hash_def
      crates.defs seal_crates.defs chain_env.defs gate_env.defs)

lemma refusal_overtaken:
  "\<exists>s x. gate_play demo_slow demo_verifier
       ([Call (''app'', demo_addr1) 0, Call (''app'', demo_addr1) 0, Go 0, Go 0, Go 0, Go 0, Go 1, Go 1,
         Wait 1000000000, Go 0, Go 0, Wait 3000000000, Go 1, Go 1] @
        [Wait 1000000000, Call (''app'', demo_addr1) 0, Go 2, Go 2, Go 2, Go 2, Wait 1000000000, Go 2, Go 2] @
        [Wait 3000000000, Go 1, Go 1]) demo_unasked = Some s \<and>
     map cphase (checks s) ! 2 = Decided (Inl x) 6000000000 \<and> map cphase (checks s) ! 1 = Decided (Inr ()) 9000000000"
  by (simp add: gate_play_defs demo_slow_answer)

section \<open>Properties\<close>

text \<open>C8. Attested admission under every interleaving: whatever calls run at the same time, overtake each other
  or are dropped, a call that passes the gate rests on an answer \<open>verified: true\<close> of scan for exactly
  its app and signer, less than 24 hours old when the call was decided.\<close>

theorem concurrent_gate_attested:
  assumes "gate_start v s0" "(gate_step E v)\<^sup>*\<^sup>* s0 s" "k \<in> set (checks s)" "cphase k = Decided (Inr ()) u"
  shows "\<exists>t t'. vouched E v (fst (ckey k)) (snd (ckey k)) t t' \<and> t' \<le> u \<and> elapsed u t' < MAX_VERDICT_STALENESS"
proof -
  from gate_tasks.reach_inv [OF assms(1,2)] assms(3)
  have "phase_ok E v 0 {} (clock s) (ckey k) (cphase k)" by (simp add: gate_tasks_inv_def)
  with assms(4) have "rests_on E v 0 {} (ckey k) u" by (simp add: phase_ok_def)
  then show ?thesis unfolding rests_on_def by blast
qed

theorem concurrent_gate_attested_witness:
  "\<exists>s u t t'. (gate_step demo_gate demo_verifier)\<^sup>*\<^sup>* demo_unasked s \<and> cphase (checks s ! 1) = Decided (Inr ()) u \<and>
     vouched demo_gate demo_verifier ''app'' demo_addr1 t t' \<and> t' \<le> u"
proof -
  from demo_refused obtain s e s' u where
    s: "gate_play demo_gate demo_verifier
       [Call (''app'', demo_addr1) 0, Go 0, Go 0, Go 0, Go 0, Wait 1000000000, Go 0] demo_unasked = Some s"
    and s': "gate_play demo_gate demo_verifier
        [Wait 199000000000, Call (''app'', demo_addr1) 0, Go 0, Go 1, Go 1, Go 1, Go 1, Wait 1000000000, Go 1, Go 1] s = Some s'"
    and k: "checks s' ! 1 = \<lparr> ckey = (''app'', demo_addr1), cwait = 0, cphase = Decided (Inr ()) u \<rparr>" "length (checks s') = 2"
    by (elim exE conjE) (rule that)
  have steps: "(gate_step demo_gate demo_verifier)\<^sup>*\<^sup>* demo_unasked s'"
    using gate_play_steps [OF s] gate_play_steps [OF s'] by (rule rtranclp_trans)
  have "checks s' ! 1 \<in> set (checks s')" by (simp add: k(2))
  from concurrent_gate_attested [OF demo_unasked_start steps this, of u] k(1)
  have "\<exists>t t'. vouched demo_gate demo_verifier ''app'' demo_addr1 t t' \<and> t' \<le> u" by auto
  moreover from k(1) have "cphase (checks s' ! 1) = Decided (Inr ()) u" by simp
  ultimately show ?thesis using steps by blast
qed

text \<open>C33. A refusal stays a refusal under every interleaving: if the cache refuses a signer and no request to scan
  for it is under way, then whatever calls follow, side by side or dropped, each call for that signer
  that is later decided to pass rests on a verdict asked for after that moment.\<close>

theorem concurrent_refusal_stands:
  assumes "gate_start v s0" "(gate_step E v)\<^sup>*\<^sup>* s0 s"
    and "hm_get (verdicts s) key = Some e" "\<not> verified e"
    and "\<And>k n x t a d. k \<in> set (checks s) \<Longrightarrow> ckey k = key \<Longrightarrow> cphase k \<noteq> Fetching n x t a d"
    and "(gate_step E v)\<^sup>*\<^sup>* s s'" "k \<in> set (checks s')" "ckey k = key"
    and "cphase k = Decided (Inr ()) u" "clock s < u"
  shows "\<exists>t t'. clock s \<le> t \<and> vouched E v (fst key) (snd key) t t' \<and> t' \<le> u"
proof -
  from refused_since [OF gate_tasks.reach_inv [OF assms(1,2), THEN conjunct1] assms(3,4)] assms(5)
  have "gate_tasks_inv E v (clock s) {key} s" by blast
  from gate_after_state.steps_inv [OF assms(6) this] assms(7-9) have "rests_on E v (clock s) {key} key u"
    by (force simp: gate_tasks_inv_def phase_ok_def)
  with assms(10) show ?thesis unfolding rests_on_def by blast
qed

theorem concurrent_refusal_stands_witness:
  "\<exists>s s' u t t'. (gate_step demo_gate demo_verifier)\<^sup>*\<^sup>* demo_unasked s \<and> (gate_step demo_gate demo_verifier)\<^sup>*\<^sup>* s s' \<and>
     cphase (checks s' ! 1) = Decided (Inr ()) u \<and> clock s \<le> t \<and> vouched demo_gate demo_verifier ''app'' demo_addr1 t t'"
proof -
  from demo_refused obtain s e s' u where
    s: "gate_play demo_gate demo_verifier
       [Call (''app'', demo_addr1) 0, Go 0, Go 0, Go 0, Go 0, Wait 1000000000, Go 0] demo_unasked = Some s"
    and e: "hm_get (verdicts s) (''app'', demo_addr1) = Some e" "\<not> verified e"
    and quiet: "\<forall>k \<in> set (checks s). \<forall>n x t a d. cphase k \<noteq> Fetching n x t a d"
    and s': "gate_play demo_gate demo_verifier
        [Wait 199000000000, Call (''app'', demo_addr1) 0, Go 0, Go 1, Go 1, Go 1, Go 1, Wait 1000000000, Go 1, Go 1] s = Some s'"
    and k: "checks s' ! 1 = \<lparr> ckey = (''app'', demo_addr1), cwait = 0, cphase = Decided (Inr ()) u \<rparr>" "length (checks s') = 2"
    and u: "clock s < u"
    by (elim exE conjE) (rule that)
  note steps = gate_play_steps [OF s] gate_play_steps [OF s']
  have "checks s' ! 1 \<in> set (checks s')" by (simp add: k(2))
  from concurrent_refusal_stands [OF demo_unasked_start steps(1) e _ steps(2) this _ _ u] quiet k(1)
  have "\<exists>t t'. clock s \<le> t \<and> vouched demo_gate demo_verifier ''app'' demo_addr1 t t' \<and> t' \<le> u" by force
  moreover from k(1) have "cphase (checks s' ! 1) = Decided (Inr ()) u" by simp
  ultimately show ?thesis using steps by blast
qed

text \<open>C32. The time under the lock: if a request to scan takes ten seconds at most (the client's timeout) and the
  scheduler is never late, then a call that holds the lock of its key, whatever other calls do, is over
  within 32 s of taking the lock when it waits for scan (\<open>/app-key\<close>), and within 10 s when it does not
  (peer calls): at any later instant it is decided, and its decision was made in that time, or its
  caller has gone. The wait for the lock comes before; each call ahead holds it no longer than that.\<close>

theorem lock_held_in_bounds:
  assumes "\<forall>t. snd (scan_answer E v (fst (ckey k)) (snd (ckey k)) t) \<le> REQUEST_TIMEOUT"
    and "i < length (checks s)" "checks s ! i = k" "cphase k = HoldLock n"
    and "cwait k = SCAN_LAG_WAIT \<and> b = from_secs 32 \<or> cwait k = 0 \<and> b = from_secs 10"
    and "(prompt_step E v)\<^sup>*\<^sup>* s s'"
  shows "(clock s + b < clock s' \<longrightarrow> decided (cphase (checks s' ! i))) \<and>
    (\<forall>r u. cphase (checks s' ! i) = Decided r u \<longrightarrow> u \<le> clock s + b)"
proof -
  have "in_time (clock s) i k s'"
    using assms(6)
  proof (induction rule: rtranclp_induct)
    case base
    with assms(2-4) show ?case by (simp add: in_time_def on_time_def)
  next
    case (step y z)
    with in_time_step [OF assms(1)] show ?case by blast
  qed
  moreover have "needs (cwait k) = b"
    using assms(5) by (auto simp: needs_def SCAN_LAG_WAIT_def SCAN_LAG_POLL_def REQUEST_TIMEOUT_def from_secs_def)
  ultimately show ?thesis
    using in_time_bound [of "clock s" i k s'] by (fastforce simp: in_time_def on_time_def)
qed

theorem lock_held_in_bounds_witness:
  "\<exists>s s' r u. cphase (checks s ! 0) = HoldLock 0 \<and> cwait (checks s ! 0) = 0 \<and>
     (prompt_step demo_gate demo_verifier)\<^sup>*\<^sup>* s s' \<and> cphase (checks s' ! 0) = Decided r u \<and> u \<le> clock s + from_secs 10"
proof -
  from demo_lock_taken obtain s s' s2 s3 r where s: "cphase (checks s ! 0) = HoldLock 0" "cwait (checks s ! 0) = 0"
      "ckey (checks s ! 0) = (''app'', demo_addr1)" "length (checks s) = 1" "clock s = 0"
    and s': "check_step demo_gate demo_verifier 0 s = Some s'" "may_pass 1000000000 s'" "length (checks s') = 1" "clock s' = 0"
      "cphase (checks s' ! 0) = Fetching 0 None 0 (Inr (Verdict False ''bad quote'')) 1000000000"
    and s2: "check_step demo_gate demo_verifier 0 (tick 1000000000 s') = Some s2" "length (checks s2) = 1"
    and s3: "check_step demo_gate demo_verifier 0 s2 = Some s3" "cphase (checks s3 ! 0) = Decided r 1000000000"
    by (elim exE conjE) (rule that)
  let ?step = "prompt_step demo_gate demo_verifier"
  have "idle_for demo_gate demo_verifier 1000000000 s'"
    using s'(3-5) by (auto simp: idle_for_def check_step_def Let_def)
  then have "?step s' (tick 1000000000 s')" using s'(2) by (intro prompt_pass)
  moreover have "?step s s'" "?step (tick 1000000000 s') s2" "?step s2 s3"
    using s(4) s'(1,3) s2 s3(1) by (auto intro: prompt_run)
  ultimately have steps: "?step\<^sup>*\<^sup>* s s3" by (meson converse_rtranclp_into_rtranclp rtranclp.rtrancl_refl)
  have quick: "\<forall>t. snd (scan_answer demo_gate demo_verifier (fst (ckey (checks s ! 0))) (snd (ckey (checks s ! 0))) t) \<le> REQUEST_TIMEOUT"
    by (simp add: demo_scan_answer REQUEST_TIMEOUT_def from_secs_def)
  have "0 < length (checks s)" using s(4) by simp
  from lock_held_in_bounds [OF quick this refl s(1) _ steps, of "from_secs 10"] s(2) s3(2)
  have "1000000000 \<le> clock s + from_secs 10" by blast
  with s(1,2) steps s3(2) show ?thesis by blast
qed

end
