(* ===== verification/Auth.thy ===== *)
theory Auth
  imports Verifier
begin

text \<open>
  \<open>src/auth.rs\<close>: authentication of calls between nodes and of their responses. A gRPC status is its
  code and message. Timestamps are 64-bit signed integers and their arithmetic wraps around, as in
  a release build.
\<close>

datatype grpc_code = Unauthenticated | PermissionDenied | FailedPrecondition | InvalidArgument
  | Unavailable | Internal | Unimplemented | OtherCode nat

type_synonym status = "grpc_code \<times> string"
type_synonym metadata = "(string, string) hash_map"

record auth_context =
  caller_pubkey :: bytes
  caller_eth_addr :: address

section \<open>Definitions\<close>

text \<open>\<open>MetadataValue::to_str\<close>: visible ASCII characters and tabs only.\<close>

definition is_visible :: "char \<Rightarrow> bool" where
  "is_visible c \<longleftrightarrow> (let n = (of_char c :: nat) in 32 \<le> n \<and> n < 127 \<or> n = 9)"

definition to_str :: "string \<Rightarrow> string option" where
  "to_str s = (if list_all is_visible s then Some s else None)"

definition metadata_str :: "string \<Rightarrow> metadata \<Rightarrow> status + string" where
  "metadata_str name m =
     rbind (ok_or (Unauthenticated, ''missing '' @ squoted name @ '' metadata'') (hm_get m name)) (\<lambda>v.
       ok_or (Unauthenticated, squoted name @ '' is not valid UTF-8'') (to_str v))"

definition parse_metadata :: "'y crates_scheme \<Rightarrow> metadata \<Rightarrow> status + (bytes \<times> i64)" where
  "parse_metadata L m =
     rbind (metadata_str ''signature'' m) (\<lambda>sig_hex.
     rbind (metadata_str ''timestamp'' m) (\<lambda>ts_str.
     rbind (map_err (\<lambda>_. (Unauthenticated, squoted ''signature'' @ '' is not valid hex''))
              (hex_decode L (trim_0x sig_hex))) (\<lambda>sig_bytes.
     if length sig_bytes \<noteq> 65 then Inl (Unauthenticated, ''signature must be 65 bytes'')
     else rbind (ok_or (Unauthenticated, squoted ''timestamp'' @ '' is not a valid integer'') (parse_i64 ts_str)) (\<lambda>ts.
       Inr (sig_bytes, ts)))))"

text \<open>\<open>(now - timestamp).abs() > tolerance\<close> on \<open>i64\<close>: subtraction and \<open>abs\<close> wrap around.\<close>

definition i64_abs :: "i64 \<Rightarrow> i64" where
  "i64_abs x = (if sint x < 0 then - x else x)"

definition too_far :: "i64 \<Rightarrow> i64 \<Rightarrow> i64 \<Rightarrow> bool" where
  "too_far now timestamp tolerance \<longleftrightarrow> sint tolerance < sint (i64_abs (now - timestamp))"

text \<open>The recovery id is the low bit of the last byte; \<open>RecoveryId::try_from\<close> accepts both values.\<close>

definition recover_pubkey :: "'y crates_scheme \<Rightarrow> bytes \<Rightarrow> bytes \<Rightarrow> bytes anyhow" where
  "recover_pubkey L message sig_bytes =
     (let v = sig_bytes ! 64; recovery_id = v mod 2 in
      rbind (map_err (\<lambda>e. ''cannot parse signature: '' @ e) (k256_parse_sig L (take 64 sig_bytes))) (\<lambda>sig.
      map_err (\<lambda>e. ''key recovery failed: '' @ e)
        (k256_recover L (keccak256 L message) sig recovery_id)))"

definition eth_address_from_pubkey :: "'y crates_scheme \<Rightarrow> bytes \<Rightarrow> address" where
  "eth_address_from_pubkey L pubkey = drop 12 (keccak256 L (drop 1 pubkey))"

definition recover_signer_address :: "'y crates_scheme \<Rightarrow> bytes \<Rightarrow> bytes \<Rightarrow> address anyhow" where
  "recover_signer_address L message sig_bytes =
     (if length sig_bytes \<noteq> 65
      then Inl (''signature must be 65 bytes, got '' @ show_nat (length sig_bytes))
      else rbind (recover_pubkey L message sig_bytes) (\<lambda>pk. Inr (eth_address_from_pubkey L pk)))"

text \<open>The lookup of the node's own app with the configured endpoint and contract.\<close>

definition own_node_list ::
    "'y gate_env_scheme \<Rightarrow> config \<Rightarrow> address \<Rightarrow> 'z gate_proc_scheme
       \<Rightarrow> (kms_error + address list) \<times> 'z gate_proc_scheme" where
  "own_node_list E cfg signer =
     get_signer_addresses_for E (rpc_url (chain cfg)) (contract_address (chain cfg)) (app_id (tapp cfg)) signer"

definition verify_on_chain ::
    "'y gate_env_scheme \<Rightarrow> config \<Rightarrow> address \<Rightarrow> 'z gate_proc_scheme \<Rightarrow> unit anyhow \<times> 'z gate_proc_scheme" where
  "verify_on_chain E cfg addr =
     sbind (smap_err (\<lambda>e. ''getNodeList failed: '' @ kms_error_to_string e) (own_node_list E cfg addr)) (\<lambda>signers s.
       if signers = [] then (Inl (''app '' @ squoted (app_id (tapp cfg)) @ '' not found on-chain''), s)
       else if addr \<notin> set signers
       then (Inl (''caller '' @ debug_address E addr @ '' is not a registered node''), s)
       else (Inr (), s))"

definition authenticate ::
    "'y gate_env_scheme \<Rightarrow> config \<Rightarrow> string \<Rightarrow> metadata \<Rightarrow> 'z gate_proc_scheme
       \<Rightarrow> (status + auth_context) \<times> 'z gate_proc_scheme" where
  "authenticate E cfg rpc m =
     sbind (\<lambda>s. (parse_metadata E m, s)) (\<lambda>(sig_bytes, timestamp).
     sbind (\<lambda>s. let now = utc_now E (clock s) in
       (if too_far now timestamp (timestamp_tolerance_secs (server cfg))
        then Inl (Unauthenticated, ''timestamp '' @ show_int (sint timestamp) @ '' too far from now ('' @
               show_int (sint now) @ '')'')
        else Inr (), s)) (\<lambda>_.
     sbind (\<lambda>s. (map_err (\<lambda>e. (Unauthenticated, ''invalid signature: '' @ e))
              (recover_pubkey E (as_bytes (request_text rpc timestamp)) sig_bytes), s)) (\<lambda>pk.
     let addr = eth_address_from_pubkey E pk in
     sbind (smap_err (\<lambda>e. (Unauthenticated, ''on-chain verification failed: '' @ e))
              (verify_on_chain E cfg addr)) (\<lambda>_.
     sbind (smap_err (\<lambda>e. (PermissionDenied, ''attestation gate: '' @ e))
              (require_verified E (app_id (tapp cfg)) addr 0)) (\<lambda>_ s.
       (Inr \<lparr> caller_pubkey = pk, caller_eth_addr = addr \<rparr>, s))))))"

definition verify_cluster_response ::
    "'y gate_env_scheme \<Rightarrow> config \<Rightarrow> bytes \<Rightarrow> bytes \<Rightarrow> 'z gate_proc_scheme \<Rightarrow> unit anyhow \<times> 'z gate_proc_scheme" where
  "verify_cluster_response E cfg message sig_bytes =
     sbind (\<lambda>s. (recover_signer_address E message sig_bytes, s)) (\<lambda>signer.
     sbind (smap_err (\<lambda>e. ''nodeList lookup failed: '' @ kms_error_to_string e) (own_node_list E cfg signer)) (\<lambda>nodes.
     if signer \<notin> set nodes
     then (\<lambda>s. (Inl (''response signer '' @ debug_address E signer @ '' is not a registered node''), s))
     else smap_err (\<lambda>e. ''response signer failed attestation gate: '' @ e)
            (require_verified E (app_id (tapp cfg)) signer 0)))"

section \<open>Specification\<close>

text \<open>
  The tables of a process: the node-list cache and the verdict cache with their invariants; and a
  member of the cluster: listed by the chain for the node's own app in an answer no later than
  now, and attested, when a verifier is configured.
\<close>

definition proc_inv :: "'y gate_env_scheme \<Rightarrow> config \<Rightarrow> 'z gate_proc_scheme \<Rightarrow> bool" where
  "proc_inv E cfg s \<longleftrightarrow>
     chain_inv E (rpc_url (chain cfg)) (contract_address (chain cfg)) s \<and> gate_inv E s"

definition listed_for :: "'y gate_env_scheme \<Rightarrow> config \<Rightarrow> string \<Rightarrow> address \<Rightarrow> instant \<Rightarrow> bool" where
  "listed_for E cfg app addr now \<longleftrightarrow>
     (\<exists>a t t'. chain_said E (rpc_url (chain cfg)) (contract_address (chain cfg)) app a t t' \<and>
        addr \<in> set a \<and> t' \<le> now)"

definition member :: "'y gate_env_scheme \<Rightarrow> config \<Rightarrow> address \<Rightarrow> 'z gate_proc_scheme \<Rightarrow> bool" where
  "member E cfg addr s \<longleftrightarrow>
     listed_for E cfg (app_id (tapp cfg)) addr (clock s) \<and> gate_good E (app_id (tapp cfg), addr) s"

section \<open>Lemmas\<close>

lemma listed_for_mono: "listed_for E cfg app addr t \<Longrightarrow> t \<le> t' \<Longrightarrow> listed_for E cfg app addr t'"
  unfolding listed_for_def by (meson order_trans)

lemma chain_frame_gate:
  assumes "chain_frame s s'"
  shows "VERIFIER s' = VERIFIER s" "verdicts s' = verdicts s" "fetch_locks s' = fetch_locks s"
    "gate_proc.more s' = gate_proc.more s" "clock s \<le> clock s'"
  using assms by (cases s; cases s'; simp add: chain_frame_def)+

lemma gate_inv_chain_frame:
  assumes "gate_inv E s" "chain_frame s s'"
  shows "gate_inv E s'"
  using assms(1) chain_frame_gate [OF assms(2)] gate_since_mono unfolding gate_inv_def by metis

lemma chain_inv_gate_frame:
  assumes "chain_inv E url c s" "gate_frame s s'"
  shows "chain_inv E url c s'"
  using assms(2)
  by (intro chain_inv_store [OF assms(1)]) (auto simp: gate_frame_def chain_inv_providers [OF assms(1)])

text \<open>A lookup of any app through the configured chain endpoint.\<close>

lemma lookup_ok:
  assumes inv: "proc_inv E cfg s"
    and call: "get_signer_addresses_for E (rpc_url (chain cfg)) (contract_address (chain cfg)) app x s = (r, s')"
  shows "proc_inv E cfg s' \<and> chain_frame s s' \<and>
    (\<forall>a addr. r = Inr a \<longrightarrow> addr \<in> set a \<longrightarrow> listed_for E cfg app addr (clock s'))"
proof -
  have ci: "chain_inv E (rpc_url (chain cfg)) (contract_address (chain cfg)) s" and gi: "gate_inv E s"
    using inv by (simp_all add: proc_inv_def)
  note ok = get_signer_addresses_for_ok [OF ci call]
  with gate_inv_chain_frame [OF gi] show ?thesis
    unfolding proc_inv_def listed_for_def list_ok_def by blast
qed

lemma gate_ok:
  assumes inv: "proc_inv E cfg s" and call: "require_verified E app x w s = (r, s')"
  shows "proc_inv E cfg s' \<and> gate_frame s s' \<and> (r = Inr () \<longrightarrow> gate_good E (app, x) s')"
  using assms require_verified_ok [of E s app x w r s'] chain_inv_gate_frame
  unfolding proc_inv_def by blast

lemma gate_step_ok:
  assumes "proc_inv E cfg s" "smap_err g (require_verified E app x w) s = (r, s')"
  shows "proc_inv E cfg s' \<and> clock s \<le> clock s' \<and> gate_proc.more s' = gate_proc.more s \<and>
    (r = Inr () \<longrightarrow> gate_good E (app, x) s')"
proof -
  obtain q s1 where q: "require_verified E app x w s = (q, s1)" by force
  with assms(2) have "s' = s1" "r = map_err g q" by (simp_all add: smap_err_def)
  with gate_ok [OF assms(1) q] show ?thesis by (cases q) (auto simp: gate_frame_def)
qed

lemma verify_on_chain_ok:
  assumes inv: "proc_inv E cfg s" and call: "verify_on_chain E cfg addr s = (r, s')"
  shows "proc_inv E cfg s' \<and> clock s \<le> clock s' \<and> gate_proc.more s' = gate_proc.more s \<and>
    (r = Inr () \<longrightarrow> listed_for E cfg (app_id (tapp cfg)) addr (clock s'))"
proof -
  obtain q s1 where q: "own_node_list E cfg addr s = (q, s1)" by force
  note ok = lookup_ok [OF inv q [unfolded own_node_list_def]]
  with chain_frame_gate have fr: "clock s \<le> clock s1" "gate_proc.more s1 = gate_proc.more s" by blast+
  show ?thesis
  proof (cases q)
    case (Inl e)
    with call q ok fr show ?thesis by (auto simp: verify_on_chain_def sbind_def smap_err_def)
  next
    case (Inr a)
    with call q have "s' = s1" "r = Inr () \<Longrightarrow> addr \<in> set a"
      by (auto simp: verify_on_chain_def sbind_def smap_err_def split: if_splits)
    with Inr ok fr show ?thesis by blast
  qed
qed

lemma gate_good_clock: "gate_good E key s \<Longrightarrow> VERIFIER s' = VERIFIER s \<Longrightarrow> clock s' = clock s \<Longrightarrow> gate_good E key s'"
  by (simp add: gate_good_def admitted_def)

text \<open>What a successful authentication has checked.\<close>

definition authenticated ::
    "'y gate_env_scheme \<Rightarrow> config \<Rightarrow> string \<Rightarrow> metadata \<Rightarrow> i64 \<Rightarrow> auth_context \<Rightarrow> bool" where
  "authenticated E cfg rpc m now ctx \<longleftrightarrow>
     (\<exists>sig ts. parse_metadata E m = Inr (sig, ts) \<and>
        \<not> too_far now ts (timestamp_tolerance_secs (server cfg)) \<and>
        recover_pubkey E (as_bytes (request_text rpc ts)) sig = Inr (caller_pubkey ctx) \<and>
        caller_eth_addr ctx = eth_address_from_pubkey E (caller_pubkey ctx))"

lemma authenticate_ok:
  assumes inv: "proc_inv E cfg s" and call: "authenticate E cfg rpc m s = (r, s')"
  shows "proc_inv E cfg s' \<and> clock s \<le> clock s' \<and> gate_proc.more s' = gate_proc.more s \<and>
    (\<forall>ctx. r = Inr ctx \<longrightarrow> authenticated E cfg rpc m (utc_now E (clock s)) ctx \<and>
       member E cfg (caller_eth_addr ctx) s')"
proof (cases "\<exists>sig ts pk. parse_metadata E m = Inr (sig, ts) \<and>
    \<not> too_far (utc_now E (clock s)) ts (timestamp_tolerance_secs (server cfg)) \<and>
    recover_pubkey E (as_bytes (request_text rpc ts)) sig = Inr pk")
  case False
  then have "s' = s \<and> (\<exists>e. r = Inl e)"
    using call unfolding authenticate_def sbind_def
    by (auto simp: map_err_def Let_def split: sum.splits if_splits prod.splits)
  with inv show ?thesis by auto
next
  case True
  then obtain sig ts pk where p: "parse_metadata E m = Inr (sig, ts)"
    and t: "\<not> too_far (utc_now E (clock s)) ts (timestamp_tolerance_secs (server cfg))"
    and pk: "recover_pubkey E (as_bytes (request_text rpc ts)) sig = Inr pk" by blast
  let ?addr = "eth_address_from_pubkey E pk"
  obtain q1 s1 where q1: "verify_on_chain E cfg ?addr s = (q1, s1)" by force
  note ok1 = verify_on_chain_ok [OF inv q1]
  obtain q2 s2 where q2: "require_verified E (app_id (tapp cfg)) ?addr 0 s1 = (q2, s2)" by force
  note ok2 = gate_ok [OF conjunct1 [OF ok1] q2]
  have run: "(r, s') = (case q1 of Inl e \<Rightarrow> (Inl (Unauthenticated, ''on-chain verification failed: '' @ e), s1)
    | Inr _ \<Rightarrow> (case q2 of Inl e \<Rightarrow> (Inl (PermissionDenied, ''attestation gate: '' @ e), s2)
       | Inr _ \<Rightarrow> (Inr \<lparr> caller_pubkey = pk, caller_eth_addr = ?addr \<rparr>, s2)))"
    using call p t pk q1 q2 unfolding authenticate_def
    by (cases q1; cases q2) (auto simp: sbind_def smap_err_def Let_def)
  show ?thesis
  proof (cases q1)
    case (Inl e)
    with run ok1 show ?thesis by simp
  next
    case q1r: (Inr u)
    show ?thesis
    proof (cases q2)
      case (Inl e)
      with q1r run ok1 ok2 show ?thesis by (auto simp: gate_frame_def)
    next
      case (Inr u')
      with q1r run have r: "r = Inr \<lparr> caller_pubkey = pk, caller_eth_addr = ?addr \<rparr>" "s' = s2" by simp_all
      have "listed_for E cfg (app_id (tapp cfg)) ?addr (clock s2)"
        using ok1 q1r ok2 by (auto intro: listed_for_mono simp: gate_frame_def)
      with ok1 ok2 Inr r p t pk show ?thesis
        by (auto simp: member_def authenticated_def gate_frame_def)
    qed
  qed
qed

lemma verify_cluster_response_ok:
  assumes inv: "proc_inv E cfg s" and call: "verify_cluster_response E cfg message sig s = (r, s')"
  shows "proc_inv E cfg s' \<and> clock s \<le> clock s' \<and> gate_proc.more s' = gate_proc.more s \<and>
    (r = Inr () \<longrightarrow>
       (\<exists>signer. recover_signer_address E message sig = Inr signer \<and> member E cfg signer s'))"
proof (cases "recover_signer_address E message sig")
  case (Inl e)
  with call have "s' = s" "r = Inl e" by (auto simp: verify_cluster_response_def sbind_def)
  with inv show ?thesis by simp
next
  case (Inr signer)
  obtain q s1 where q: "own_node_list E cfg signer s = (q, s1)" by force
  note ok = lookup_ok [OF inv q [unfolded own_node_list_def]]
  with chain_frame_gate have fr: "clock s \<le> clock s1" "gate_proc.more s1 = gate_proc.more s" by blast+
  show ?thesis
  proof (cases "\<exists>a. q = Inr a \<and> signer \<in> set a")
    case False
    with call Inr q have "s' = s1 \<and> (\<exists>e. r = Inl e)"
      by (cases q) (auto simp: verify_cluster_response_def sbind_def smap_err_def)
    with ok fr show ?thesis by auto
  next
    case True
    then obtain a where a: "q = Inr a" "signer \<in> set a" by blast
    obtain q2 s2 where q2: "require_verified E (app_id (tapp cfg)) signer 0 s1 = (q2, s2)" by force
    note ok2 = gate_ok [OF conjunct1 [OF ok] q2]
    from call Inr q a q2 have run: "s' = s2" "r = Inr () \<longleftrightarrow> q2 = Inr ()"
      by (cases q2; auto simp: verify_cluster_response_def sbind_def smap_err_def)+
    have "listed_for E cfg (app_id (tapp cfg)) signer (clock s2)"
      using ok a ok2 by (auto intro: listed_for_mono simp: gate_frame_def)
    with run ok2 fr Inr show ?thesis by (auto simp: member_def gate_frame_def)
  qed
qed

lemma proc_inv_tick: "proc_inv E cfg s \<Longrightarrow> proc_inv E cfg (tick d s)"
  by (simp add: proc_inv_def chain_inv_tick gate_inv_tick)

text \<open>Authentication of a call of a method, as a check of its metadata.\<close>

interpretation authn: admission "\<lambda>q. authenticate E cfg (fst q) (snd q)" "proc_inv E cfg"
  "\<lambda>q s' ctx. member E cfg (caller_eth_addr ctx) s'"
proof unfold_locales
  fix s :: "'b gate_proc_scheme" and q :: "string \<times> metadata"
  assume "proc_inv E cfg s"
  then show "proc_inv E cfg (snd (authenticate E cfg (fst q) (snd q) s))"
    using authenticate_ok by (metis prod.collapse)
next
  fix s s' :: "'b gate_proc_scheme" and q :: "string \<times> metadata" and ctx
  assume "proc_inv E cfg s" "authenticate E cfg (fst q) (snd q) s = (Inr ctx, s')"
  then show "member E cfg (caller_eth_addr ctx) s'" using authenticate_ok by blast
qed

text \<open>Validation of a response, as a check of the message and its signature.\<close>

interpretation response: admission "\<lambda>q. verify_cluster_response E cfg (fst q) (snd q)" "proc_inv E cfg"
  "\<lambda>q s' _. \<exists>signer. recover_signer_address E (fst q) (snd q) = Inr signer \<and> member E cfg signer s'"
proof unfold_locales
  fix s :: "'b gate_proc_scheme" and q :: "bytes \<times> bytes"
  assume "proc_inv E cfg s"
  then show "proc_inv E cfg (snd (verify_cluster_response E cfg (fst q) (snd q) s))"
    using verify_cluster_response_ok by (metis prod.collapse)
next
  fix s s' :: "'b gate_proc_scheme" and q :: "bytes \<times> bytes" and u
  assume "proc_inv E cfg s" "verify_cluster_response E cfg (fst q) (snd q) s = (Inr u, s')"
  then show "\<exists>signer. recover_signer_address E (fst q) (snd q) = Inr signer \<and> member E cfg signer s'"
    using verify_cluster_response_ok by (metis (full_types) old.unit.exhaust)
qed

subsection \<open>Honest requests\<close>

lemma visible_hex: "list_all is_lower_hex s \<Longrightarrow> list_all is_visible s"
proof -
  have "list_all is_visible ''0123456789abcdef''" by (simp add: is_visible_def)
  then show "list_all is_lower_hex s \<Longrightarrow> list_all is_visible s"
    unfolding list_all_iff is_lower_hex_def by blast
qed

lemma visible_digits: "list_all is_digit s \<Longrightarrow> list_all is_visible s"
  by (auto simp: list_all_iff is_digit_def is_visible_def Let_def)

lemma visible_show_int: "list_all is_visible (show_int i)"
  using visible_digits [OF show_nat_digits] by (simp add: show_int_def is_visible_def)

text \<open>The metadata a node puts on a request (\<open>signature\<close> and \<open>timestamp\<close>).\<close>

definition request_metadata :: "'y crates_scheme \<Rightarrow> bytes \<Rightarrow> i64 \<Rightarrow> metadata" where
  "request_metadata L sig ts =
     hm_insert ''timestamp'' (show_int (sint ts)) (hm_insert ''signature'' (hex_encode L sig) hm_empty)"

lemma parse_request_metadata:
  assumes "hex_ok L" "length sig = 65"
  shows "parse_metadata L (request_metadata L sig ts) = Inr (sig, ts)"
proof -
  have "list_all is_visible (hex_encode L sig)"
    using assms(1) by (intro visible_hex) (simp add: hex_ok_def)
  with assms visible_show_int [of "sint ts"] show ?thesis
    by (simp add: parse_metadata_def metadata_str_def request_metadata_def to_str_def
        hex_ok_trim_0x hex_ok_roundtrip parse_i64_show)
qed

lemma recover_signed:
  assumes "k256_ok L" "sign_bytes L sk m = Inr sig"
  shows "length sig = 65 \<and> (\<exists>pk. k256_verifying_key L sk = Inr pk \<and> recover_pubkey L m sig = Inr pk)"
proof -
  from assms obtain rs v pk parsed where sig: "sig = rs @ [v]" "length rs = 64" and v: "v \<in> {0, 1}"
    and pk: "k256_verifying_key L sk = Inr pk" "k256_parse_sig L rs = Inr parsed"
      "k256_recover L (keccak256 L m) parsed v = Inr pk"
    by (rule sign_bytes_shape)
  from v have "v mod 2 = v" by auto
  with sig pk show ?thesis by (simp add: recover_pubkey_def Let_def nth_append)
qed

subsection \<open>The timestamp window\<close>

lemma sint_diff_exact:
  fixes a b :: i64
  assumes "\<bar>sint a - sint b\<bar> < 2 ^ 63"
  shows "sint (a - b) = sint a - sint b"
proof -
  have "sint (word_of_int (sint a - sint b) :: i64)
      = signed_take_bit (LENGTH(64) - Suc 0) (sint a - sint b)"
    by (simp only: signed_of_int of_int_eq_id id_apply)
  moreover have "word_of_int (sint a - sint b) = a - b" by simp
  ultimately have "sint (a - b) = signed_take_bit (LENGTH(64) - Suc 0) (sint a - sint b)"
    by (simp only:)
  also have "\<dots> = sint a - sint b"
    by (rule signed_take_bit_int_eq_self) (use assms in \<open>simp_all add: abs_less_iff\<close>)
  finally show ?thesis .
qed

lemma sint_abs_exact:
  fixes x :: i64
  assumes "\<bar>sint x\<bar> < 2 ^ 63"
  shows "sint (i64_abs x) = \<bar>sint x\<bar>"
  using sint_diff_exact [of 0 x] assms by (simp add: i64_abs_def)

lemma authenticate_honest:
  assumes ok: "hex_ok E" "k256_ok E" and sig: "sign_request E sk rpc ts = Inr sig"
    and pk: "k256_verifying_key E sk = Inr pk"
    and fresh: "\<not> too_far (utc_now E (clock s)) ts (timestamp_tolerance_secs (server cfg))"
    and listed: "own_node_list E cfg (eth_address_from_pubkey E pk) s = (Inr a, s1)"
      "eth_address_from_pubkey E pk \<in> set a"
    and gate: "require_verified E (app_id (tapp cfg)) (eth_address_from_pubkey E pk) 0 s1 = (Inr (), s2)"
  shows "authenticate E cfg rpc (request_metadata E sig ts) s
    = (Inr \<lparr> caller_pubkey = pk, caller_eth_addr = eth_address_from_pubkey E pk \<rparr>, s2)"
proof -
  from recover_signed [OF ok(2) sig [unfolded sign_request_def]] pk
  have "length sig = 65" and rec: "recover_pubkey E (as_bytes (request_text rpc ts)) sig = Inr pk"
    by auto
  then have "parse_metadata E (request_metadata E sig ts) = Inr (sig, ts)"
    using ok(1) by (simp add: parse_request_metadata)
  moreover have "verify_on_chain E cfg (eth_address_from_pubkey E pk) s = (Inr (), s1)"
    using listed by (auto simp: verify_on_chain_def sbind_def smap_err_def)
  ultimately show ?thesis
    using fresh rec gate by (simp add: authenticate_def sbind_def smap_err_def Let_def)
qed

section \<open>A concrete request\<close>

definition demo_gate_open :: gate_proc where
  "demo_gate_open = demo_gate_proc\<lparr>VERIFIER := None\<rparr>"

lemma demo_gate_crates:
  "hex_ok demo_gate" "b64_ok demo_gate" "ecies_ok demo_gate" "ecies_binds_key demo_gate"
  "k256_ok demo_gate" "bare_ok demo_gate"
proof -
  have "seal_crates.truncate demo_gate = demo_seal"
    by (simp add: demo_gate_def demo_chain_def seal_crates.defs chain_env.defs gate_env.defs)
  then show "hex_ok demo_gate" "b64_ok demo_gate" "ecies_ok demo_gate" "ecies_binds_key demo_gate"
    "k256_ok demo_gate" "bare_ok demo_gate" by (rule seal_crates_ok_demo)+
qed

lemma demo_gate_simps:
  "k256_verifying_key demo_gate = (\<lambda>sk. if length sk = 32 then Inr (demo_pk sk) else Inl ''bad scalar'')"
  "k256_sign_prehash demo_gate = (\<lambda>sk h. if length sk = 32 \<and> length h = 32 then Inr (sk @ h, 0) else Inl ''sign'')"
  "keccak256 demo_gate = demo_hash"
  "utc_now demo_gate t = word_of_nat (t div 1000000000)"
  "provider_try_from demo_gate url = Inr ()"
  "parse_address demo_gate a = Some [1]"
  "rpc_node_list demo_gate t url c app = (Inr [demo_addr1, demo_addr2], 1000000000)"
  by (simp_all add: demo_gate_def demo_chain_def demo_seal_def demo_crates_def crates.defs seal_crates.defs
      chain_env.defs gate_env.defs)

lemma demo_address: "eth_address_from_pubkey demo_gate (demo_pk demo_sk) = demo_addr1"
  by (simp add: eth_address_from_pubkey_def demo_gate_simps demo_hash_def demo_pk_def demo_sk_def
      demo_addr1_def)

lemma demo_open_inv: "proc_inv E cfg demo_gate_open"
  by (simp add: proc_inv_def chain_inv_def gate_inv_def demo_gate_open_def demo_gate_proc_def)

lemma demo_signs: "\<exists>sig. sign_request demo_gate demo_sk rpc ts = Inr sig"
  by (simp add: sign_request_def sign_bytes_def Let_def demo_gate_simps demo_sk_def demo_hash_def)

lemma demo_own_list: "\<exists>s1. own_node_list demo_gate demo_config demo_addr1 demo_gate_open
    = (Inr [demo_addr1, demo_addr2], s1) \<and> VERIFIER s1 = None"
  by (simp add: own_node_list_def demo_lookup_defs demo_gate_simps demo_gate_open_def demo_gate_proc_def
      hm_empty_def)

lemma demo_authenticates:
  "\<exists>sig s'. sign_request demo_gate demo_sk ''Gossip'' 0 = Inr sig \<and>
     authenticate demo_gate demo_config ''Gossip'' (request_metadata demo_gate sig 0) demo_gate_open
       = (Inr \<lparr> caller_pubkey = demo_pk demo_sk, caller_eth_addr = demo_addr1 \<rparr>, s')"
proof -
  obtain sig where sig: "sign_request demo_gate demo_sk ''Gossip'' 0 = Inr sig" using demo_signs by blast
  obtain s1 where s1: "own_node_list demo_gate demo_config demo_addr1 demo_gate_open
      = (Inr [demo_addr1, demo_addr2], s1)" "VERIFIER s1 = None" using demo_own_list by blast
  have pk: "k256_verifying_key demo_gate demo_sk = Inr (demo_pk demo_sk)"
    by (simp add: demo_gate_simps demo_sk_def)
  have "\<not> too_far (utc_now demo_gate (clock demo_gate_open)) 0 (timestamp_tolerance_secs (server demo_config))"
    by (simp add: demo_gate_simps demo_gate_open_def demo_gate_proc_def demo_config_def too_far_def i64_abs_def)
  from authenticate_honest [OF demo_gate_crates(1,5) sig pk this, unfolded demo_address, OF s1(1)] sig s1(2)
  show ?thesis by (auto simp: require_verified_def)
qed

section \<open>Properties\<close>

text \<open>C9. An authenticated call comes from a cluster member: if \<open>authenticate\<close> accepts, the timestamp
  was inside the window, the signature over \<open>kms:{method}:{timestamp}\<close> recovers to the public
  key that is returned, and the address of that key was in a list the chain gave for the node's
  own app and is attested (when a verifier is configured).\<close>

theorem authenticate_sound:
  assumes "proc_inv E cfg s" "authenticate E cfg rpc m s = (Inr ctx, s')"
  shows "authenticated E cfg rpc m (utc_now E (clock s)) ctx \<and>
    member E cfg (caller_eth_addr ctx) s' \<and> proc_inv E cfg s'"
  using authenticate_ok [OF assms] by blast

theorem authenticate_sound_witness:
  "\<exists>sig s'. authenticate demo_gate demo_config ''Gossip'' (request_metadata demo_gate sig 0) demo_gate_open
      = (Inr \<lparr> caller_pubkey = demo_pk demo_sk, caller_eth_addr = demo_addr1 \<rparr>, s') \<and>
     member demo_gate demo_config demo_addr1 s'"
proof -
  obtain sig s' where c: "authenticate demo_gate demo_config ''Gossip'' (request_metadata demo_gate sig 0)
      demo_gate_open = (Inr \<lparr> caller_pubkey = demo_pk demo_sk, caller_eth_addr = demo_addr1 \<rparr>, s')"
    using demo_authenticates by blast
  from authenticate_sound [OF demo_open_inv c] c show ?thesis by auto
qed

text \<open>Honest calls get through: what \<open>sign_request\<close> signs with a registered, attested node's key is
  accepted for the same method while the timestamp is in the window, and the handler sees that
  node's public key and address.\<close>

theorem authenticate_complete:
  assumes "hex_ok E" "k256_ok E" "sign_request E sk rpc ts = Inr sig"
    and "k256_verifying_key E sk = Inr pk" "addr = eth_address_from_pubkey E pk"
    and "\<not> too_far (utc_now E (clock s)) ts (timestamp_tolerance_secs (server cfg))"
    and "own_node_list E cfg addr s = (Inr a, s1)" "addr \<in> set a"
    and "require_verified E (app_id (tapp cfg)) addr 0 s1 = (Inr (), s2)"
  shows "authenticate E cfg rpc (request_metadata E sig ts) s
    = (Inr \<lparr> caller_pubkey = pk, caller_eth_addr = addr \<rparr>, s2)"
  using assms(6-9) unfolding assms(5) by (rule authenticate_honest [OF assms(1-4)])

theorem authenticate_complete_witness:
  "\<exists>sig s2. sign_request demo_gate demo_sk ''Gossip'' 100 = Inr sig \<and>
     authenticate demo_gate demo_config ''Gossip'' (request_metadata demo_gate sig 100) demo_gate_open
       = (Inr \<lparr> caller_pubkey = demo_pk demo_sk, caller_eth_addr = demo_addr1 \<rparr>, s2)"
proof -
  obtain sig where sig: "sign_request demo_gate demo_sk ''Gossip'' 100 = Inr sig" using demo_signs by blast
  obtain s1 where s1: "own_node_list demo_gate demo_config demo_addr1 demo_gate_open
      = (Inr [demo_addr1, demo_addr2], s1)" "VERIFIER s1 = None" using demo_own_list by blast
  have pk: "k256_verifying_key demo_gate demo_sk = Inr (demo_pk demo_sk)"
    by (simp add: demo_gate_simps demo_sk_def)
  have "\<not> too_far (utc_now demo_gate (clock demo_gate_open)) 100 (timestamp_tolerance_secs (server demo_config))"
    by (simp add: demo_gate_simps demo_gate_open_def demo_gate_proc_def demo_config_def too_far_def i64_abs_def)
  from authenticate_complete [OF demo_gate_crates(1,5) sig pk demo_address [symmetric] this s1(1)] sig s1(2)
  show ?thesis by (auto simp: require_verified_def)
qed

text \<open>A response is used only if a cluster member signed it: when \<open>verify_cluster_response\<close> accepts, the
  signature over exactly this message recovers to an address the chain listed for the node's own
  app and that is attested.\<close>

theorem cluster_response_sound:
  assumes "proc_inv E cfg s" "verify_cluster_response E cfg message sig s = (Inr (), s')"
  shows "proc_inv E cfg s' \<and> length sig = 65 \<and>
    (\<exists>signer. recover_signer_address E message sig = Inr signer \<and> member E cfg signer s')"
  using verify_cluster_response_ok [OF assms]
  by (auto simp: recover_signer_address_def split: if_splits)

theorem cluster_response_sound_witness:
  "\<exists>sig s'. sign_bytes demo_gate demo_sk [1, 2, 3] = Inr sig \<and>
     verify_cluster_response demo_gate demo_config [1, 2, 3] sig demo_gate_open = (Inr (), s') \<and>
     length sig = 65"
proof -
  have "\<exists>sig. sign_bytes demo_gate demo_sk [1, 2, 3] = Inr sig"
    by (simp add: sign_bytes_def Let_def demo_gate_simps demo_sk_def demo_hash_def)
  then obtain sig where sig: "sign_bytes demo_gate demo_sk [1, 2, 3] = Inr sig" ..
  from recover_signed [OF demo_gate_crates(5) sig]
  have "recover_signer_address demo_gate [1, 2, 3] sig = Inr demo_addr1"
    by (auto simp: recover_signer_address_def demo_gate_simps(1) intro: demo_address split: if_splits)
  moreover obtain s1 where "own_node_list demo_gate demo_config demo_addr1 demo_gate_open
      = (Inr [demo_addr1, demo_addr2], s1)" "VERIFIER s1 = None" using demo_own_list by blast
  ultimately have c: "verify_cluster_response demo_gate demo_config [1, 2, 3] sig demo_gate_open = (Inr (), s1)"
    by (simp add: verify_cluster_response_def sbind_def smap_err_def require_verified_def)
  from cluster_response_sound [OF demo_open_inv c] sig c show ?thesis by blast
qed

text \<open>The timestamp window: as long as the two times are less than \<open>2^63\<close> seconds apart, a timestamp is
  refused exactly when it is further from now than the tolerance.\<close>

theorem timestamp_window:
  assumes "\<bar>sint now - sint ts\<bar> < 2 ^ 63"
  shows "too_far now ts tol \<longleftrightarrow> sint tol < \<bar>sint now - sint ts\<bar>"
  using assms sint_diff_exact [OF assms] sint_abs_exact [of "now - ts"] by (simp add: too_far_def)

theorem timestamp_window_witness:
  "too_far 1000 699 300 \<and> \<not> too_far 1000 700 300 \<and> \<not> too_far 1000 1300 300 \<and> too_far 1000 1301 300"
  using timestamp_window [of 1000 699 300] timestamp_window [of 1000 700 300]
    timestamp_window [of 1000 1300 300] timestamp_window [of 1000 1301 300]
  by simp

text \<open>The window has a hole (in a release build): the timestamp exactly \<open>2^63\<close> seconds away from now
  passes for every non-negative tolerance, because \<open>abs\<close> of the least \<open>i64\<close> is negative.\<close>

theorem timestamp_hole:
  assumes "0 \<le> sint tol"
  shows "\<not> too_far now (now - 0x8000000000000000) tol"
proof -
  have "sint (i64_abs 0x8000000000000000) < 0" by (simp add: i64_abs_def)
  with assms show ?thesis by (simp add: too_far_def)
qed

theorem timestamp_hole_witness:
  "\<not> too_far 1700000000 (1700000000 - 0x8000000000000000) 300"
  by (rule timestamp_hole) simp

end
