(* ===== verification/Node.thy ===== *)
theory Node
  imports Auth
begin

text \<open>
  \<open>AppState\<close> of \<open>src/server.rs\<close> with the tables it holds (the node's share, the peer table, the DKG
  buffers), and the functions that only read it. The record \<open>node\<close> extends the process state of
  the chain cache and the attestation gate, so that one value is the whole state of a running
  node; the disk and the environment variables belong to it.
\<close>

record peer_info =
  grpc_url :: string
  last_seen :: i64
  pubkey :: bytes
  epoch :: u64
  peer_group_pubkey :: bytes

record shard_state =
  shard_index :: u32
  shard_bytes :: bytes
  shard_epoch :: u64

record dkg_session =
  rounds :: "(u32, (u32, bytes \<times> bytes) hash_map) hash_map"

record node = gate_proc +
  node_cfg :: config
  signing_key :: node_key
  shard :: "shard_state option"
  pending_shards :: "(u32 \<times> bytes) list option"
  peer_table :: "(address, peer_info) hash_map"
  dkg_sessions :: "(string, dkg_session) hash_map"
  group_pubkey :: "bytes option"
  sealed_blob :: "string option"
  disk :: file_system
  env_vars :: "string \<Rightarrow> string option"

section \<open>Definitions\<close>

definition PEER_LIVENESS_WINDOW_SECS :: i64 where
  "PEER_LIVENESS_WINDOW_SECS = 90"

definition is_live :: "peer_info \<Rightarrow> i64 \<Rightarrow> bool" where
  "is_live p now \<longleftrightarrow> sint (now - last_seen p) \<le> sint PEER_LIVENESS_WINDOW_SECS"

text \<open>\<open>AppState::new\<close>, on top of the process tables, the disk and the environment it starts with.\<close>

definition app_state_new ::
    "config \<Rightarrow> node_key \<Rightarrow> gate_proc \<Rightarrow> file_system \<Rightarrow> (string \<Rightarrow> string option) \<Rightarrow> node" where
  "app_state_new c k p d vars =
     gate_proc.extend p (node.fields c k None None hm_empty hm_empty None None d vars)"

definition is_initialized :: "node \<Rightarrow> bool" where
  "is_initialized s \<longleftrightarrow> shard s \<noteq> None"

definition own_epoch :: "node \<Rightarrow> u64" where
  "own_epoch s = (case shard s of Some x \<Rightarrow> shard_epoch x | None \<Rightarrow> 0)"

definition known_epoch :: "node \<Rightarrow> u64" where
  "known_epoch s = max (own_epoch s) (max_or_0 (map epoch (hm_values (peer_table s))))"

text \<open>\<open>peer_urls\<close>: sorted, without repetitions.\<close>

definition peer_urls :: "node \<Rightarrow> string list" where
  "peer_urls s = remdups_adj (sort (map grpc_url (hm_values (peer_table s))))"

text \<open>\<open>DkgSession::record\<close>; the waiters it wakes are not part of the data.\<close>

definition record_round :: "u32 \<Rightarrow> u32 \<Rightarrow> bytes \<Rightarrow> bytes \<Rightarrow> dkg_session \<Rightarrow> dkg_session" where
  "record_round r from_index broadcast p2p ses =
     (let m = (case hm_get (rounds ses) r of Some x \<Rightarrow> x | None \<Rightarrow> hm_empty)
      in ses\<lparr>rounds := hm_insert r (hm_insert from_index (broadcast, p2p) m) (rounds ses)\<rparr>)"

definition empty_session :: dkg_session where
  "empty_session = \<lparr> rounds = hm_empty \<rparr>"

section \<open>Lemmas\<close>

lemma known_epoch_ge_own: "own_epoch s \<le> known_epoch s"
  by (simp add: known_epoch_def)

lemma known_epoch_ge_peer: "p \<in> set (hm_values (peer_table s)) \<Longrightarrow> epoch p \<le> known_epoch s"
  using max_or_0_ge [of "epoch p" "map epoch (hm_values (peer_table s))"]
  by (auto simp: known_epoch_def le_max_iff_disj)

lemma known_epoch_attained:
  assumes "known_epoch s \<noteq> 0"
  shows "own_epoch s = known_epoch s \<or> (\<exists>p \<in> set (hm_values (peer_table s)). epoch p = known_epoch s)"
proof (cases "max_or_0 (map epoch (hm_values (peer_table s))) \<le> own_epoch s")
  case True
  then show ?thesis by (simp add: known_epoch_def max_def)
next
  case False
  then have eq: "known_epoch s = max_or_0 (map epoch (hm_values (peer_table s)))"
    by (simp add: known_epoch_def max.absorb2)
  with assms have "max_or_0 (map epoch (hm_values (peer_table s))) \<in> set (map epoch (hm_values (peer_table s)))"
    by (intro max_or_0_pos) (simp add: word_greater_zero_iff)
  with eq show ?thesis by auto
qed

lemma known_epoch_le:
  assumes "own_epoch s \<le> b" "\<And>p. p \<in> set (hm_values (peer_table s)) \<Longrightarrow> epoch p \<le> b"
  shows "known_epoch s \<le> b"
proof -
  have "max_or_0 (map epoch (hm_values (peer_table s))) \<le> b"
    by (rule max_or_0_le) (auto intro: assms(2))
  with assms(1) show ?thesis by (simp add: known_epoch_def)
qed

lemma set_peer_urls: "set (peer_urls s) = grpc_url ` set (hm_values (peer_table s))"
  by (simp add: peer_urls_def)

lemma sorted_distinct_adj: "sorted xs \<Longrightarrow> distinct_adj xs \<Longrightarrow> distinct xs" for xs :: "'a::linorder list"
proof (induction xs)
  case Nil
  then show ?case by simp
next
  case (Cons x xs)
  then have "distinct xs" by (cases xs) auto
  moreover have "x \<notin> set xs"
  proof
    assume "x \<in> set xs"
    then obtain y ys where xs: "xs = y # ys" by (cases xs) auto
    with Cons.prems have "x \<noteq> y" "x \<le> y" "\<forall>z \<in> set ys. y \<le> z" by auto
    with \<open>x \<in> set xs\<close> xs show False by auto
  qed
  ultimately show ?case by simp
qed

lemma distinct_peer_urls: "distinct (peer_urls s)"
  unfolding peer_urls_def by (rule sorted_distinct_adj) simp_all

lemma record_round_get:
  "hm_get (rounds (record_round r i b p ses)) r' =
     (if r' = r then Some (hm_insert i (b, p) (case hm_get (rounds ses) r of Some x \<Rightarrow> x | None \<Rightarrow> hm_empty))
      else hm_get (rounds ses) r')"
  by (simp add: record_round_def Let_def)

text \<open>A peer seen at \<open>t\<close> is live for 90 s; a peer that was never seen is not, after 1970.\<close>

lemma is_live_iff:
  assumes "\<bar>sint now - sint (last_seen p)\<bar> < 2 ^ 63"
  shows "is_live p now \<longleftrightarrow> sint now - sint (last_seen p) \<le> 90"
  using sint_diff_exact [OF assms] by (simp add: is_live_def PEER_LIVENESS_WINDOW_SECS_def)

end
