(* ===== verification/Derive.thy ===== *)
theory Derive
  imports Node
begin

text \<open>
  The derivation path of \<open>src/grpc.rs\<close>: the responder of \<open>GetDprfPartial\<close>, its client, and the
  coordinator \<open>collect_and_dprf\<close>. What the network returns for a request is a field of
  \<open>derive_env\<close>, and so is the order in which the concurrent requests complete
  (\<open>FuturesUnordered\<close> yields them in any order); the responses are processed in that order.
\<close>

record encrypted_partial =
  ep_ciphertext :: bytes
  ep_shard_index :: u32
  ep_epoch :: u64
  ep_signature :: bytes

record derive_trace =
  coordinator :: u32
  trace_epoch :: u64
  servers :: "u32 list"

record ('sc, 'pa, 'sg, 'pk) derive_env = gate_env +
  blsful :: "('sc, 'pa, 'sg, 'pk) bls"
  net_dprf_partial :: "instant \<Rightarrow> string \<Rightarrow> metadata \<Rightarrow> string \<Rightarrow> bytes \<Rightarrow> encrypted_partial anyhow \<times> nat"
  completion_order :: "string list \<Rightarrow> string list"

section \<open>Definitions\<close>

subsection \<open>The responder\<close>

definition partial_response ::
    "('sc, 'pa, 'sg, 'pk, 'y) derive_env_scheme \<Rightarrow> string \<Rightarrow> bytes \<Rightarrow> auth_context \<Rightarrow> node
       \<Rightarrow> status + encrypted_partial" where
  "partial_response E app material ctx s =
     rbind (ok_or (Unavailable, ''node not initialized'') (shard s)) (\<lambda>sh.
     rbind (map_err (\<lambda>_. (Internal, ''local shard unavailable''))
              (share_from_bytes (blsful E) (shard_bytes sh))) (\<lambda>share.
     rbind (map_err (\<lambda>_. (Internal, ''partial signing failed''))
              (dprf_partial (blsful E) share (dprf_message app material))) (\<lambda>p.
     rbind (map_err (\<lambda>_. (Internal, ''encryption failed''))
              (ecies_encrypt E (caller_pubkey ctx) (partial_to_bytes (blsful E) p))) (\<lambda>ct.
     rbind (map_err (\<lambda>_. (Internal, ''response signing failed''))
              (sign_bytes E (private_key (signing_key s))
                (dprf_partial_signing_msg (caller_eth_addr ctx) (shard_index sh) (shard_epoch sh) ct))) (\<lambda>sig.
     Inr \<lparr> ep_ciphertext = ct, ep_shard_index = shard_index sh, ep_epoch = shard_epoch sh,
           ep_signature = sig \<rparr>)))))"

definition get_dprf_partial_handler ::
    "('sc, 'pa, 'sg, 'pk, 'y) derive_env_scheme \<Rightarrow> metadata \<Rightarrow> string \<Rightarrow> bytes \<Rightarrow> node
       \<Rightarrow> (status + encrypted_partial) \<times> node" where
  "get_dprf_partial_handler E m app material s =
     sbind (authenticate E (node_cfg s) ''GetDprfPartial'' m) (\<lambda>ctx s'.
       (partial_response E app material ctx s', s')) s"

subsection \<open>The client\<close>

definition get_dprf_partial ::
    "('sc, 'pa, 'sg, 'pk, 'y) derive_env_scheme \<Rightarrow> string \<Rightarrow> string \<Rightarrow> bytes \<Rightarrow> bytes \<Rightarrow> i64 \<Rightarrow> node
       \<Rightarrow> (u32 \<times> bytes \<times> u64) anyhow \<times> node" where
  "get_dprf_partial E url app material sig timestamp =
     sbind (\<lambda>s. let (reply, d) = net_dprf_partial E (clock s) url (request_metadata E sig timestamp) app material
                in (reply, tick d s)) (\<lambda>resp.
     sbind (\<lambda>s. smap_err (\<lambda>e. ''partial response verification failed: '' @ e)
              (verify_cluster_response E (node_cfg s)
                (dprf_partial_signing_msg (eth_address (signing_key s)) (ep_shard_index resp) (ep_epoch resp)
                   (ep_ciphertext resp)) (ep_signature resp)) s) (\<lambda>_ s.
       (rbind (map_err (\<lambda>e. ''ECIES decrypt failed: '' @ kms_error_to_string e)
                 (ecies_decrypt E (private_key (signing_key s)) (ep_ciphertext resp))) (\<lambda>b.
          Inr (ep_shard_index resp, b, ep_epoch resp)), s)))"

subsection \<open>The coordinator\<close>

text \<open>\<open>entry(k).or_default()\<close> of a map of vectors, and pushing to it.\<close>

definition hm_list :: "('k, 'v list) hash_map \<Rightarrow> 'k \<Rightarrow> 'v list" where
  "hm_list m k = (case hm_get m k of Some l \<Rightarrow> l | None \<Rightarrow> [])"

definition hm_push :: "'k \<Rightarrow> 'v \<Rightarrow> ('k, 'v list) hash_map \<Rightarrow> ('k, 'v list) hash_map" where
  "hm_push k v m = hm_insert k (hm_list m k @ [v]) m"

record 'pa collector =
  buckets :: "(u64, 'pa list) hash_map"
  seen :: "(u64, u32 list) hash_map"
  contributors :: "(u64, u32 list) hash_map"
  ready :: "u64 option"

definition collector_start :: "'pa collector" where
  "collector_start = \<lparr> buckets = hm_empty, seen = hm_empty, contributors = hm_empty, ready = None \<rparr>"

text \<open>A partial enters the bucket of its epoch.\<close>

definition add_partial :: "nat \<Rightarrow> u64 \<Rightarrow> u32 \<Rightarrow> 'pa \<Rightarrow> 'pa collector \<Rightarrow> 'pa collector" where
  "add_partial thr ep idx p c =
     (let c' = c\<lparr>buckets := hm_push ep p (buckets c), contributors := hm_push ep idx (contributors c)\<rparr>
      in if length (hm_list (buckets c') ep) \<ge> thr then c'\<lparr>ready := Some ep\<rparr> else c')"

fun collect_partials ::
    "('sc, 'pa, 'sg, 'pk, 'y) derive_env_scheme \<Rightarrow> nat \<Rightarrow> string \<Rightarrow> bytes \<Rightarrow> bytes \<Rightarrow> i64 \<Rightarrow> string list
       \<Rightarrow> 'pa collector \<Rightarrow> node \<Rightarrow> 'pa collector \<times> node" where
  "collect_partials E thr app material sig ts [] c s = (c, s)"
| "collect_partials E thr app material sig ts (url # urls) c s =
     (if ready c \<noteq> None then (c, s)
      else case get_dprf_partial E url app material sig ts s of
             (Inr (idx, b, ep), s1) \<Rightarrow>
               (if idx \<in> set (hm_list (seen c) ep)
                then collect_partials E thr app material sig ts urls c s1
                else let c1 = c\<lparr>seen := hm_push ep idx (seen c)\<rparr> in
                     case partial_from_bytes (blsful E) b of
                       Inr p \<Rightarrow> collect_partials E thr app material sig ts urls (add_partial thr ep idx p c1) s1
                     | Inl e \<Rightarrow> collect_partials E thr app material sig ts urls c1
                                  (bump dprf_discarded_malformed_update s1))
           | (Inl e, s1) \<Rightarrow> collect_partials E thr app material sig ts urls c
                              (bump dprf_discarded_peer_error_update s1))"

text \<open>What the coordinator does with the collected partials: combine one epoch, verify, derive.\<close>

definition finish_derive ::
    "('sc, 'pa, 'sg, 'pk, 'y) derive_env_scheme \<Rightarrow> nat \<Rightarrow> bytes \<Rightarrow> shard_state \<Rightarrow> 'pa collector \<Rightarrow> node
       \<Rightarrow> (kms_error + bytes \<times> derive_trace) \<times> node" where
  "finish_derive E thr msg own c s =
     (case ready c of
        None \<Rightarrow> (Inl (CryptoError (''not enough valid partials in any single epoch: best '' @
                   show_nat (foldr max (map length (hm_values (buckets c))) 0) @ '', need '' @ show_nat thr)),
                 bump dprf_short_update s)
      | Some ep \<Rightarrow>
          (rbind (map_err CryptoError (dprf_sigma (blsful E) (hm_list (buckets c) ep))) (\<lambda>sigma.
           rbind (ok_or (CryptoError ''no group public key to verify against'') (group_pubkey s)) (\<lambda>gpk.
           rbind (map_err CryptoError (dprf_verify (blsful E) sigma gpk msg)) (\<lambda>_.
           Inr (sigma_to_app_key (blsful E) sigma,
                \<lparr> coordinator = shard_index own, trace_epoch = ep,
                  servers = sort (hm_list (contributors c) ep) \<rparr>)))), s))"

definition collect_and_dprf ::
    "('sc, 'pa, 'sg, 'pk, 'y) derive_env_scheme \<Rightarrow> string \<Rightarrow> bytes \<Rightarrow> node
       \<Rightarrow> (kms_error + bytes \<times> derive_trace) \<times> node" where
  "collect_and_dprf E app material =
     sbind (\<lambda>s. (ok_or (ConfigError ''node not initialized'') (shard s), s)) (\<lambda>own.
     sbind (\<lambda>s. (map_err CryptoError (share_from_bytes (blsful E) (shard_bytes own)), s)) (\<lambda>own_share.
     let msg = dprf_message app material in
     sbind (\<lambda>s. (map_err CryptoError (dprf_partial (blsful E) own_share msg), s)) (\<lambda>own_partial s.
     let timestamp = utc_now E (clock s) in
     sbind (\<lambda>s. (map_err CryptoError (sign_request E (private_key (signing_key s)) ''GetDprfPartial'' timestamp), s))
       (\<lambda>sig s.
         let thr = unat (threshold (cluster (node_cfg s)));
             c0 = add_partial thr (shard_epoch own) (shard_index own) own_partial
                    (collector_start\<lparr>seen := hm_push (shard_epoch own) (shard_index own) hm_empty\<rparr>);
             (c, s1) = collect_partials E thr app material sig timestamp
                         (completion_order E (peer_urls s)) c0 s
         in finish_derive E thr msg own c s1) s)))"

section \<open>Specification\<close>

text \<open>Attested at some time: scan vouched for the signer no later than \<open>now\<close> (when a verifier is set).\<close>

definition attested :: "'y gate_env_scheme \<Rightarrow> verifier option option \<Rightarrow> string \<Rightarrow> address \<Rightarrow> instant \<Rightarrow> bool" where
  "attested E ver app signer now \<longleftrightarrow>
     (\<forall>v. ver = Some (Some v) \<longrightarrow> (\<exists>t t'. vouched E v app signer t t' \<and> t' \<le> now))"

text \<open>
  Where a partial of the combination comes from: the node's own share, or a response that a
  listed and attested node signed for this very caller, index, epoch and ciphertext.
\<close>

definition own_origin ::
    "('sc, 'pa, 'sg, 'pk, 'y) derive_env_scheme \<Rightarrow> bytes \<Rightarrow> shard_state \<Rightarrow> u64 \<Rightarrow> u32 \<Rightarrow> 'pa \<Rightarrow> bool" where
  "own_origin E msg own ep idx p \<longleftrightarrow> ep = shard_epoch own \<and> idx = shard_index own \<and>
     (\<exists>share. share_from_bytes (blsful E) (shard_bytes own) = Inr share \<and>
        dprf_partial (blsful E) share msg = Inr p)"

definition peer_origin ::
    "('sc, 'pa, 'sg, 'pk, 'y) derive_env_scheme \<Rightarrow> node \<Rightarrow> instant \<Rightarrow> u64 \<Rightarrow> u32 \<Rightarrow> 'pa \<Rightarrow> bool" where
  "peer_origin E s now ep idx p \<longleftrightarrow>
     (\<exists>ct sig signer b.
        recover_signer_address E (dprf_partial_signing_msg (eth_address (signing_key s)) idx ep ct) sig = Inr signer \<and>
        listed_for E (node_cfg s) (app_id (tapp (node_cfg s))) signer now \<and>
        attested E (VERIFIER s) (app_id (tapp (node_cfg s))) signer now \<and>
        ecies_decrypt E (private_key (signing_key s)) ct = Inr b \<and>
        partial_from_bytes (blsful E) b = Inr p)"

text \<open>The invariant of the collection, for the threshold and an origin predicate.\<close>

definition coll_inv :: "nat \<Rightarrow> (u64 \<Rightarrow> u32 \<Rightarrow> 'pa \<Rightarrow> bool) \<Rightarrow> 'pa collector \<Rightarrow> bool" where
  "coll_inv thr P c \<longleftrightarrow>
     (\<forall>ep. length (hm_list (buckets c) ep) = length (hm_list (contributors c) ep)) \<and>
     (\<forall>ep. distinct (hm_list (contributors c) ep)) \<and>
     (\<forall>ep. set (hm_list (contributors c) ep) \<subseteq> set (hm_list (seen c) ep)) \<and>
     (\<forall>ep idx p. (idx, p) \<in> set (zip (hm_list (contributors c) ep) (hm_list (buckets c) ep)) \<longrightarrow> P ep idx p) \<and>
     (case ready c of
        None \<Rightarrow> (\<forall>ep. length (hm_list (buckets c) ep) < max 1 thr)
      | Some e \<Rightarrow> length (hm_list (buckets c) e) = max 1 thr)"

section \<open>Lemmas\<close>

lemma gate_more_node:
  fixes s s' :: node
  assumes "gate_proc.more s' = gate_proc.more s"
  shows "node_cfg s' = node_cfg s" "signing_key s' = signing_key s" "shard s' = shard s"
    "pending_shards s' = pending_shards s" "peer_table s' = peer_table s" "dkg_sessions s' = dkg_sessions s"
    "group_pubkey s' = group_pubkey s" "sealed_blob s' = sealed_blob s" "disk s' = disk s"
    "env_vars s' = env_vars s"
  using assms by (cases s; cases s'; simp)+

lemma hm_list_push [simp]: "hm_list (hm_push k v m) k' = (if k' = k then hm_list m k @ [v] else hm_list m k')"
  by (simp add: hm_list_def hm_push_def)

lemma hm_list_empty [simp]: "hm_list hm_empty k = []"
  by (simp add: hm_list_def)

lemma attested_mono: "attested E ver app x t \<Longrightarrow> t \<le> t' \<Longrightarrow> attested E ver app x t'"
  unfolding attested_def by (blast intro: order_trans)

lemma member_attested:
  "member E cfg x s \<Longrightarrow> attested E (VERIFIER s) (app_id (tapp cfg)) x (clock s)"
  unfolding member_def gate_good_def admitted_def backed_def attested_def fst_conv snd_conv by blast

lemma verify_cluster_response_VERIFIER:
  assumes "proc_inv E cfg s" "verify_cluster_response E cfg msg sig s = (r, s')"
  shows "VERIFIER s' = VERIFIER s"
proof (cases "recover_signer_address E msg sig")
  case (Inl e)
  with assms(2) show ?thesis by (auto simp: verify_cluster_response_def sbind_def)
next
  case (Inr signer)
  obtain q s1 where q: "own_node_list E cfg signer s = (q, s1)" by force
  from lookup_ok [OF assms(1) q [unfolded own_node_list_def]]
  have inv1: "proc_inv E cfg s1" and v1: "VERIFIER s1 = VERIFIER s"
    using chain_frame_gate(1) by blast+
  obtain q2 s2 where q2: "require_verified E (app_id (tapp cfg)) signer 0 s1 = (q2, s2)" by force
  from gate_ok [OF inv1 q2] v1 have "VERIFIER s2 = VERIFIER s" by (simp add: gate_frame_def)
  with assms(2) Inr q q2 v1 show ?thesis
    by (cases q) (auto simp: verify_cluster_response_def sbind_def smap_err_def split: if_splits)
qed

lemma get_dprf_partial_ok:
  assumes inv: "proc_inv E (node_cfg s) s" and call: "get_dprf_partial E url app material sig ts s = (r, s')"
  shows "proc_inv E (node_cfg s) s' \<and> gate_proc.more s' = gate_proc.more s \<and> VERIFIER s' = VERIFIER s \<and>
    clock s \<le> clock s' \<and>
    (\<forall>idx b ep p. r = Inr (idx, b, ep) \<longrightarrow> partial_from_bytes (blsful E) b = Inr p \<longrightarrow>
       peer_origin E s (clock s') ep idx p)"
proof -
  obtain reply d where net: "net_dprf_partial E (clock s) url (request_metadata E sig ts) app material = (reply, d)"
    by force
  have inv1: "proc_inv E (node_cfg s) (tick d s)" using inv by (rule proc_inv_tick)
  have more1: "gate_proc.more (tick d s) = gate_proc.more s" by simp
  note same1 = gate_more_node [OF more1]
  show ?thesis
  proof (cases reply)
    case (Inl e)
    with call net have "s' = tick d s" "r = Inl e" by (simp_all add: get_dprf_partial_def sbind_def)
    with inv1 show ?thesis by simp
  next
    case (Inr resp)
    let ?msg = "dprf_partial_signing_msg (eth_address (signing_key s)) (ep_shard_index resp) (ep_epoch resp) (ep_ciphertext resp)"
    obtain q s1 where q: "verify_cluster_response E (node_cfg s) ?msg (ep_signature resp) (tick d s) = (q, s1)"
      by force
    note ok = verify_cluster_response_ok [OF inv1 q] and ver = verify_cluster_response_VERIFIER [OF inv1 q]
    note same = gate_more_node [of s1 s]
    have more: "gate_proc.more s1 = gate_proc.more s" using ok by simp
    have s': "s' = s1" and r: "r = (case q of Inl e \<Rightarrow> Inl (''partial response verification failed: '' @ e)
      | Inr _ \<Rightarrow> rbind (map_err (\<lambda>e. ''ECIES decrypt failed: '' @ kms_error_to_string e)
          (ecies_decrypt E (private_key (signing_key s1)) (ep_ciphertext resp))) (\<lambda>b.
            Inr (ep_shard_index resp, b, ep_epoch resp)))"
      using call net Inr q same1 by (cases q; simp add: get_dprf_partial_def sbind_def smap_err_def)+
    have "peer_origin E s (clock s') ep idx p"
      if "r = Inr (idx, b, ep)" "partial_from_bytes (blsful E) b = Inr p" for idx b ep p
    proof -
      from that r have q1: "q = Inr ()" and dec: "ecies_decrypt E (private_key (signing_key s1)) (ep_ciphertext resp) = Inr b"
        and idx: "idx = ep_shard_index resp" "ep = ep_epoch resp"
        by (auto simp: rbind_Inr_iff split: sum.splits)
      from q1 ok obtain signer where signer: "recover_signer_address E ?msg (ep_signature resp) = Inr signer"
        and mem: "member E (node_cfg s) signer s1" by auto
      have "listed_for E (node_cfg s) (app_id (tapp (node_cfg s))) signer (clock s')"
        using mem s' by (simp add: member_def)
      moreover have "attested E (VERIFIER s) (app_id (tapp (node_cfg s))) signer (clock s')"
        using member_attested [OF mem] ver s' by simp
      moreover have "ecies_decrypt E (private_key (signing_key s)) (ep_ciphertext resp) = Inr b"
        using dec same(2) [OF more] by simp
      ultimately show ?thesis
        unfolding peer_origin_def idx using signer that(2) by blast
    qed
    then show ?thesis using ok ver s' more by auto
  qed
qed

lemma coll_inv_mono:
  assumes "coll_inv thr P c" "\<And>ep idx p. P ep idx p \<Longrightarrow> Q ep idx p"
  shows "coll_inv thr Q c"
  using assms unfolding coll_inv_def by blast

lemma coll_inv_start:
  assumes "P ep idx p"
  shows "coll_inv thr P (add_partial thr ep idx p (collector_start\<lparr>seen := hm_push ep idx hm_empty\<rparr>))"
  using assms by (auto simp: coll_inv_def add_partial_def collector_start_def Let_def split: if_splits)

lemma coll_inv_add:
  assumes inv: "coll_inv thr P c" and r: "ready c = None" and new: "idx \<notin> set (hm_list (seen c) ep)" and P: "P ep idx p"
  shows "coll_inv thr P (add_partial thr ep idx p (c\<lparr>seen := hm_push ep idx (seen c)\<rparr>))"
proof -
  have len: "length (hm_list (buckets c) e) = length (hm_list (contributors c) e)"
    and lt: "length (hm_list (buckets c) e) < max 1 thr"
    and dis: "distinct (hm_list (contributors c) e)"
    and sub: "x \<in> set (hm_list (contributors c) e) \<Longrightarrow> x \<in> set (hm_list (seen c) e)"
    and org: "(i, q) \<in> set (zip (hm_list (contributors c) e) (hm_list (buckets c) e)) \<Longrightarrow> P e i q" for e i q x
    using inv r by (auto simp: coll_inv_def)
  have "idx \<notin> set (hm_list (contributors c) ep)" using new sub by blast
  moreover have "1 < thr \<Longrightarrow> length (hm_list (contributors c) e) < thr" for e
    using lt [of e] len [of e] by simp
  ultimately show ?thesis
    using len lt [of ep] dis sub org P unfolding coll_inv_def add_partial_def Let_def
    by (auto simp: r split: if_splits)
qed

lemma coll_inv_seen:
  assumes "coll_inv thr P c"
  shows "coll_inv thr P (c\<lparr>seen := hm_push ep idx (seen c)\<rparr>)"
  using assms unfolding coll_inv_def by (auto split: option.splits)

lemma bump_more [simp]: "gate_proc.more (bump f s) = gate_proc.more s"
  by simp

lemma proc_inv_bump: "proc_inv E cfg s \<Longrightarrow> proc_inv E cfg (bump f s)"
proof -
  have "gate_frame s (bump f s)" by (simp add: gate_frame_def)
  then show "proc_inv E cfg s \<Longrightarrow> proc_inv E cfg (bump f s)"
    unfolding proc_inv_def gate_inv_def
    by (auto intro: chain_inv_gate_frame gate_since_mono)
qed

lemma peer_origin_mono:
  "peer_origin E s t ep idx p \<Longrightarrow> t \<le> t' \<Longrightarrow> peer_origin E s t' ep idx p"
  unfolding peer_origin_def by (blast intro: listed_for_mono attested_mono)

lemma peer_origin_cong:
  "gate_proc.more s' = gate_proc.more s \<Longrightarrow> VERIFIER s' = VERIFIER s \<Longrightarrow>
     peer_origin E s' t ep idx p = peer_origin E s t ep idx p"
  using gate_more_node [of s' s] by (simp add: peer_origin_def)

text \<open>One answer: it is skipped, at most noting the index, or it is added.\<close>

lemma collect_partials_next:
  assumes "ready c = None" "get_dprf_partial E url app material sig ts s = (q, s1)"
  obtains (skipped) c2 s2 where "s2 = s1 \<or> (\<exists>f. s2 = bump f s1)" "c2 = c \<or> (\<exists>ep idx. c2 = c\<lparr>seen := hm_push ep idx (seen c)\<rparr>)"
      "collect_partials E thr app material sig ts (url # urls) c s = collect_partials E thr app material sig ts urls c2 s2"
  | (added) idx b ep p where "q = Inr (idx, b, ep)" "idx \<notin> set (hm_list (seen c) ep)" "partial_from_bytes (blsful E) b = Inr p"
      "collect_partials E thr app material sig ts (url # urls) c s =
         collect_partials E thr app material sig ts urls (add_partial thr ep idx p (c\<lparr>seen := hm_push ep idx (seen c)\<rparr>)) s1"
proof -
  consider (failed) e where "q = Inl e" | (again) idx b ep where "q = Inr (idx, b, ep)" "idx \<in> set (hm_list (seen c) ep)"
    | (malformed) idx b ep e where "q = Inr (idx, b, ep)" "idx \<notin> set (hm_list (seen c) ep)" "partial_from_bytes (blsful E) b = Inl e"
    | (good) idx b ep p where "q = Inr (idx, b, ep)" "idx \<notin> set (hm_list (seen c) ep)" "partial_from_bytes (blsful E) b = Inr p"
    by (metis sumE surj_pair)
  then show thesis
  proof cases
    case failed
    with assms show thesis by (intro skipped [of "bump dprf_discarded_peer_error_update s1" c]) auto
  next
    case again
    with assms show thesis by (intro skipped [of s1 c]) auto
  next
    case malformed
    with assms show thesis
      by (intro skipped [of "bump dprf_discarded_malformed_update s1" "c\<lparr>seen := hm_push ep idx (seen c)\<rparr>"]) (auto simp: Let_def)
  next
    case good
    with assms show thesis by (intro added) (auto simp: Let_def)
  qed
qed

text \<open>What the collection keeps: the invariant, the node's own fields, and the origin of partials.\<close>

lemma collect_partials_ok:
  assumes "proc_inv E (node_cfg s0) s" "gate_proc.more s = gate_proc.more s0" "VERIFIER s = VERIFIER s0"
    and "coll_inv thr (\<lambda>ep idx p. own_origin E msg own ep idx p \<or> peer_origin E s0 (clock s) ep idx p) c"
    and "collect_partials E thr app material sig ts urls c s = (c', s')"
  shows "proc_inv E (node_cfg s0) s' \<and> gate_proc.more s' = gate_proc.more s0 \<and> VERIFIER s' = VERIFIER s0 \<and>
    clock s \<le> clock s' \<and>
    coll_inv thr (\<lambda>ep idx p. own_origin E msg own ep idx p \<or> peer_origin E s0 (clock s') ep idx p) c'"
  using assms
proof (induction urls arbitrary: c s)
  case Nil
  then show ?case by simp
next
  case (Cons url urls)
  show ?case
  proof (cases "ready c")
    case (Some e)
    with Cons.prems show ?thesis by simp
  next
    case r: None
    note cfg = gate_more_node(1) [OF Cons.prems(2)]
    obtain q s1 where q: "get_dprf_partial E url app material sig ts s = (q, s1)" by force
    note ok = get_dprf_partial_ok [OF Cons.prems(1) [folded cfg] q, unfolded cfg]
    let ?P = "\<lambda>ep idx p. own_origin E msg own ep idx p \<or> peer_origin E s0 (clock s1) ep idx p"
    have inv1: "coll_inv thr ?P c"
      by (rule coll_inv_mono [OF Cons.prems(4)]) (use ok in \<open>auto intro: peer_origin_mono\<close>)
    have step: ?thesis if run: "collect_partials E thr app material sig ts urls c2 s2 = (c', s')"
      and s2: "s2 = s1 \<or> (\<exists>f. s2 = bump f s1)" and c2: "coll_inv thr ?P c2" for c2 s2
    proof -
      have "proc_inv E (node_cfg s0) s2" "gate_proc.more s2 = gate_proc.more s0" "VERIFIER s2 = VERIFIER s0"
        "clock s2 = clock s1"
        using s2 ok Cons.prems(2,3) proc_inv_bump by auto
      with Cons.IH [of s2 c2] run c2 ok show ?thesis by (auto intro: order_trans)
    qed
    from r q show ?thesis
    proof (cases rule: collect_partials_next [where thr = thr and urls = urls])
      case (skipped c2 s2)
      with inv1 have "coll_inv thr ?P c2" using coll_inv_seen by blast
      then show ?thesis by (rule step [OF Cons.prems(5) [unfolded skipped(3)] skipped(1)])
    next
      case (added idx b ep p)
      then have "peer_origin E s (clock s1) ep idx p" using ok by simp
      then have "?P ep idx p" by (simp add: peer_origin_cong [OF Cons.prems(2,3)])
      from step [OF Cons.prems(5) [unfolded added(4)] _ coll_inv_add [OF inv1 r added(2) this]] show ?thesis by blast
    qed
  qed
qed

text \<open>Everything a successful derivation has done.\<close>

lemma collect_and_dprf_ok:
  assumes inv: "proc_inv E (node_cfg s) s"
    and call: "collect_and_dprf E app material s = (Inr (key, tr), s')"
  obtains own c sigma gpk where "shard s = Some own" "group_pubkey s = Some gpk"
    "ready c = Some (trace_epoch tr)" "coordinator tr = shard_index own"
    "servers tr = sort (hm_list (contributors c) (trace_epoch tr))"
    "coll_inv (unat (threshold (cluster (node_cfg s))))
       (\<lambda>ep idx p. own_origin E (dprf_message app material) own ep idx p \<or> peer_origin E s (clock s') ep idx p) c"
    "dprf_sigma (blsful E) (hm_list (buckets c) (trace_epoch tr)) = Inr sigma"
    "dprf_verify (blsful E) sigma gpk (dprf_message app material) = Inr ()"
    "key = sigma_to_app_key (blsful E) sigma"
    "proc_inv E (node_cfg s) s'" "gate_proc.more s' = gate_proc.more s"
proof -
  let ?thr = "unat (threshold (cluster (node_cfg s)))" and ?msg = "dprf_message app material"
  from call obtain own share p sig where own: "shard s = Some own"
    and share: "share_from_bytes (blsful E) (shard_bytes own) = Inr share"
    and p: "dprf_partial (blsful E) share ?msg = Inr p"
    and sig: "sign_request E (private_key (signing_key s)) ''GetDprfPartial'' (utc_now E (clock s)) = Inr sig"
    by (auto simp: collect_and_dprf_def sbind_Inr_iff Let_def)
  define c0 where "c0 = add_partial ?thr (shard_epoch own) (shard_index own) p
    (collector_start\<lparr>seen := hm_push (shard_epoch own) (shard_index own) hm_empty\<rparr>)"
  obtain c s1 where col: "collect_partials E ?thr app material sig (utc_now E (clock s))
      (completion_order E (peer_urls s)) c0 s = (c, s1)" by force
  have fin: "finish_derive E ?thr ?msg own c s1 = (Inr (key, tr), s')"
    using call own share p sig col by (simp add: collect_and_dprf_def sbind_def Let_def c0_def)
  have "own_origin E ?msg own (shard_epoch own) (shard_index own) p"
    using share p by (simp add: own_origin_def)
  then have c0: "coll_inv ?thr (\<lambda>ep idx p. own_origin E ?msg own ep idx p \<or> peer_origin E s (clock s) ep idx p) c0"
    unfolding c0_def by (intro coll_inv_start) simp
  note ok = collect_partials_ok [OF inv refl refl c0 col]
  from fin have s': "s' = s1" and "\<exists>ep. ready c = Some ep"
    by (auto simp: finish_derive_def split: option.splits)
  then obtain ep where ep: "ready c = Some ep" by blast
  from fin ep obtain sigma gpk where res: "dprf_sigma (blsful E) (hm_list (buckets c) ep) = Inr sigma"
    "group_pubkey s1 = Some gpk" "dprf_verify (blsful E) sigma gpk ?msg = Inr ()"
    "key = sigma_to_app_key (blsful E) sigma"
    "tr = \<lparr> coordinator = shard_index own, trace_epoch = ep, servers = sort (hm_list (contributors c) ep) \<rparr>"
    by (auto simp: finish_derive_def result_iffs)
  have more: "gate_proc.more s1 = gate_proc.more s" using ok by simp
  show thesis
    by (rule that [of own gpk c sigma])
      (use own res ep ok s' gate_more_node(7) [OF more] in simp_all)
qed

text \<open>\<open>blsful\<close>: a BLS signature is unique, at most one value verifies for a key and a message. The library's
  signature type also has variants for other schemes; the code makes and combines signatures of one scheme
  only, and the values of the model are those.\<close>

definition bls_unique :: "('sc, 'pa, 'sg, 'pk) bls \<Rightarrow> bool" where
  "bls_unique B \<longleftrightarrow>
     (\<forall>pk m x y. sig_verify B x pk m = Inr () \<longrightarrow> sig_verify B y pk m = Inr () \<longrightarrow> x = y)"

lemma dprf_verify_unique:
  assumes "bls_unique B" "dprf_verify B x gpk m = Inr ()" "dprf_verify B y gpk m = Inr ()"
  shows "x = y"
  using assms unfolding bls_unique_def dprf_verify_def by (auto simp: rbind_Inr_iff)

subsection \<open>Responder and client together\<close>

lemma partial_response_cases:
  assumes "partial_response E app material ctx s = Inr resp"
  obtains sh share p ct where "shard s = Some sh" "share_from_bytes (blsful E) (shard_bytes sh) = Inr share"
    "dprf_partial (blsful E) share (dprf_message app material) = Inr p"
    "ecies_encrypt E (caller_pubkey ctx) (partial_to_bytes (blsful E) p) = Inr ct"
    "sign_bytes E (private_key (signing_key s))
       (dprf_partial_signing_msg (caller_eth_addr ctx) (shard_index sh) (shard_epoch sh) ct) = Inr (ep_signature resp)"
    "ep_ciphertext resp = ct" "ep_shard_index resp = shard_index sh" "ep_epoch resp = shard_epoch sh"
  using assms by (auto simp: partial_response_def result_iffs)

lemma recover_signer_signed:
  assumes "k256_ok L" "sign_bytes L sk m = Inr sig" "k256_verifying_key L sk = Inr pk"
  shows "recover_signer_address L m sig = Inr (eth_address_from_pubkey L pk)"
  using recover_signed [OF assms(1,2)] assms(3) by (auto simp: recover_signer_address_def)

lemma verify_cluster_response_honest:
  assumes "recover_signer_address E m sig = Inr signer"
    and "own_node_list E cfg signer s = (Inr a, s1)" "signer \<in> set a"
    and "require_verified E (app_id (tapp cfg)) signer 0 s1 = (Inr (), s2)"
  shows "verify_cluster_response E cfg m sig s = (Inr (), s2)"
  using assms by (simp add: verify_cluster_response_def sbind_def smap_err_def)

lemma exchange_partial:
  assumes ok: "k256_ok E" "ecies_ok E"
    and resp: "partial_response E app material ctx sB = Inr resp"
    and net: "net_dprf_partial E (clock s) url (request_metadata E sig ts) app material = (Inr resp, d)"
    and ctx: "k256_verifying_key E (private_key (signing_key s)) = Inr (caller_pubkey ctx)"
      "caller_eth_addr ctx = eth_address (signing_key s)"
    and pkB: "k256_verifying_key E (private_key (signing_key sB)) = Inr pkB"
    and listed: "own_node_list E (node_cfg s) (eth_address_from_pubkey E pkB) (tick d s) = (Inr a, s1)"
      "eth_address_from_pubkey E pkB \<in> set a"
    and gate: "require_verified E (app_id (tapp (node_cfg s))) (eth_address_from_pubkey E pkB) 0 s1 = (Inr (), s2)"
    and more: "gate_proc.more s2 = gate_proc.more s"
  shows "\<exists>sh share p. shard sB = Some sh \<and> share_from_bytes (blsful E) (shard_bytes sh) = Inr share \<and>
    dprf_partial (blsful E) share (dprf_message app material) = Inr p \<and>
    get_dprf_partial E url app material sig ts s
      = (Inr (shard_index sh, partial_to_bytes (blsful E) p, shard_epoch sh), s2)"
proof -
  from resp obtain sh share p ct where sh: "shard sB = Some sh"
    "share_from_bytes (blsful E) (shard_bytes sh) = Inr share"
    "dprf_partial (blsful E) share (dprf_message app material) = Inr p"
    and enc: "ecies_encrypt E (caller_pubkey ctx) (partial_to_bytes (blsful E) p) = Inr ct"
    and sg: "sign_bytes E (private_key (signing_key sB))
       (dprf_partial_signing_msg (caller_eth_addr ctx) (shard_index sh) (shard_epoch sh) ct) = Inr (ep_signature resp)"
    and fields: "ep_ciphertext resp = ct" "ep_shard_index resp = shard_index sh" "ep_epoch resp = shard_epoch sh"
    by (rule partial_response_cases)
  note rec = recover_signer_signed [OF ok(1) sg pkB]
  have ver: "verify_cluster_response E (node_cfg s) (dprf_partial_signing_msg (eth_address (signing_key s))
      (shard_index sh) (shard_epoch sh) ct) (ep_signature resp) (tick d s) = (Inr (), s2)"
    using rec listed gate unfolding ctx(2) by (intro verify_cluster_response_honest)
  have "ecies_enc E (caller_pubkey ctx) (partial_to_bytes (blsful E) p) = Inr ct"
    using enc by (simp add: ecies_encrypt_def)
  then have "ecies_decrypt E (private_key (signing_key s)) ct = Inr (partial_to_bytes (blsful E) p)"
    using ecies_okD [OF ok(2) ctx(1)] by (simp add: ecies_decrypt_def)
  then have "get_dprf_partial E url app material sig ts s
      = (Inr (shard_index sh, partial_to_bytes (blsful E) p, shard_epoch sh), s2)"
    using net fields ver gate_more_node(1,2) [of "tick d s" s] gate_more_node(2) [OF more]
    by (simp add: get_dprf_partial_def sbind_def smap_err_def)
  with sh show ?thesis by blast
qed

section \<open>A concrete cluster\<close>

text \<open>A threshold scheme with constant polynomials: it is not secure, but it has shares, partials,
  combination and unique signatures.\<close>

definition demo_bls :: "(u8, u8 \<times> u8 \<times> bytes, u8 \<times> bytes, u8) bls" where
  "demo_bls =
     \<lparr> scalar_from = word_of_nat,
       sks_split_new = (\<lambda>t n. Inr (map (\<lambda>i. (word_of_nat (i + 1), 7)) [0..<n])),
       sks_sign = (\<lambda>(i, v) m. Inr (i, v, m)),
       sks_to_vec = (\<lambda>(i, v). [i, v]),
       sks_try_from = (\<lambda>b. case b of [i, v] \<Rightarrow> Inr (i, v) | _ \<Rightarrow> Inl ''bad share''),
       part_to_vec = (\<lambda>(i, v, m). i # v # m),
       part_try_from = (\<lambda>b. case b of i # v # m \<Rightarrow> Inr (i, v, m) | _ \<Rightarrow> Inl ''bad partial''),
       sig_from_shares = (\<lambda>ps. case ps of [] \<Rightarrow> Inl ''empty''
          | (i, v, m) # _ \<Rightarrow> if list_all (\<lambda>(_, v', m'). v' = v \<and> m' = m) ps then Inr (v, m) else Inl ''mixed''),
       pk_try_from = (\<lambda>b. case b of [v] \<Rightarrow> Inr v | _ \<Rightarrow> Inl ''bad key''),
       sig_verify = (\<lambda>(v, m) pk msg. if v = pk \<and> m = msg then Inr () else Inl ''invalid''),
       sig_to_vec = (\<lambda>(v, m). v # m),
       hkdf_sha256 = (\<lambda>ikm info n. take n (ikm @ replicate n 0)) \<rparr>"

lemma demo_bls_unique: "bls_unique demo_bls"
  by (auto simp: bls_unique_def demo_bls_def split: if_splits)

definition demo_sk2 :: bytes where
  "demo_sk2 = replicate 32 9"

definition demo_node :: "bytes \<Rightarrow> address \<Rightarrow> u32 \<Rightarrow> bytes \<Rightarrow> node" where
  "demo_node sk addr idx share = gate_proc.extend demo_gate_open
     (node.fields demo_config \<lparr> private_key = sk, eth_address = addr \<rparr>
       (Some \<lparr> shard_index = idx, shard_bytes = share, shard_epoch = 5 \<rparr>) None
       [(demo_addr2, \<lparr> grpc_url = ''http://b'', last_seen = 0, pubkey = demo_pk demo_sk2, epoch = 5,
          peer_group_pubkey = [7] \<rparr>)] hm_empty (Some [7]) None demo_fs (\<lambda>_. None))"

definition demo_node1 :: node where
  "demo_node1 = demo_node demo_sk demo_addr1 1 [1, 7]"

definition demo_node2 :: node where
  "demo_node2 = demo_node demo_sk2 demo_addr2 2 [2, 7]"

text \<open>The network: the second node answers.\<close>

definition demo_derive0 :: "(u8, u8 \<times> u8 \<times> bytes, u8 \<times> bytes, u8) derive_env" where
  "demo_derive0 = gate_env.extend demo_gate (derive_env.fields demo_bls
     (\<lambda>t url m app material. (Inl ''unreachable'', 0)) (\<lambda>urls. urls))"

definition demo_ctx :: auth_context where
  "demo_ctx = \<lparr> caller_pubkey = demo_pk demo_sk, caller_eth_addr = demo_addr1 \<rparr>"

definition demo_derive :: "(u8, u8 \<times> u8 \<times> bytes, u8 \<times> bytes, u8) derive_env" where
  "demo_derive = demo_derive0\<lparr>net_dprf_partial := (\<lambda>t url m app material.
     (map_err snd (partial_response demo_derive0 app material demo_ctx demo_node2), 1000000000))\<rparr>"

lemma demo_derive_gate: "gate_env.truncate demo_derive = demo_gate"
  by (simp add: demo_derive_def demo_derive0_def gate_env.defs)

lemma demo_derive_crates:
  "hex_ok demo_derive" "b64_ok demo_derive" "ecies_ok demo_derive" "ecies_binds_key demo_derive"
  "k256_ok demo_derive" "bare_ok demo_derive"
proof -
  have "seal_crates.truncate demo_derive = demo_seal"
    by (simp add: demo_derive_def demo_derive0_def demo_gate_def demo_chain_def seal_crates.defs chain_env.defs
        gate_env.defs)
  then show "hex_ok demo_derive" "b64_ok demo_derive" "ecies_ok demo_derive" "ecies_binds_key demo_derive"
    "k256_ok demo_derive" "bare_ok demo_derive" by (rule seal_crates_ok_demo)+
qed

lemma demo_derive_simps:
  "k256_verifying_key demo_derive = (\<lambda>sk. if length sk = 32 then Inr (demo_pk sk) else Inl ''bad scalar'')"
  "k256_sign_prehash demo_derive = (\<lambda>sk h. if length sk = 32 \<and> length h = 32 then Inr (sk @ h, 0) else Inl ''sign'')"
  "keccak256 demo_derive = demo_hash"
  "utc_now demo_derive t = word_of_nat (t div 1000000000)"
  "provider_try_from demo_derive url = Inr ()"
  "parse_address demo_derive a = Some [1]"
  "rpc_node_list demo_derive t url c app = (Inr [demo_addr1, demo_addr2], 1000000000)"
  "blsful demo_derive = demo_bls"
  "completion_order demo_derive urls = urls"
  "net_dprf_partial demo_derive t url m app material =
     (map_err snd (partial_response demo_derive0 app material demo_ctx demo_node2), 1000000000)"
  by (simp_all add: demo_derive_def demo_derive0_def demo_gate_def demo_chain_def demo_seal_def demo_crates_def
      crates.defs seal_crates.defs chain_env.defs gate_env.defs derive_env.defs)

lemma demo_ecies: "ecies_enc demo_derive (demo_pk demo_sk) m = Inr (demo_pk demo_sk @ m)"
  by (simp add: demo_derive_def demo_derive0_def demo_gate_def demo_chain_def demo_seal_def demo_crates_def
      crates.defs seal_crates.defs chain_env.defs gate_env.defs demo_pk_def demo_sk_def)

lemma demo_node_simps:
  "clock (demo_node sk addr idx sh) = 0" "VERIFIER (demo_node sk addr idx sh) = None"
  "providers (demo_node sk addr idx sh) = hm_empty" "node_list_cache (demo_node sk addr idx sh) = hm_empty"
  "node_cfg (demo_node sk addr idx sh) = demo_config"
  "signing_key (demo_node sk addr idx sh) = \<lparr> private_key = sk, eth_address = addr \<rparr>"
  "shard (demo_node sk addr idx sh) = Some \<lparr> shard_index = idx, shard_bytes = sh, shard_epoch = 5 \<rparr>"
  "peer_urls (demo_node sk addr idx sh) = [''http://b'']"
  "group_pubkey (demo_node sk addr idx sh) = Some [7]"
  by (simp_all add: demo_node_def demo_gate_open_def demo_gate_proc_def gate_proc.defs node.defs
      peer_urls_def hm_values_def)

lemma demo_node_inv: "proc_inv E cfg (demo_node sk addr idx sh)"
  by (simp add: proc_inv_def chain_inv_def gate_inv_def demo_node_simps)

lemma demo_response: "\<exists>resp. partial_response demo_derive app material demo_ctx demo_node2 = Inr resp \<and>
    map_err snd (partial_response demo_derive0 app material demo_ctx demo_node2) = Inr resp"
proof -
  have eq: "partial_response demo_derive = partial_response demo_derive0"
    by (intro ext) (simp add: partial_response_def demo_derive_def ecies_encrypt_def sign_bytes_def)
  have "\<exists>resp. partial_response demo_derive app material demo_ctx demo_node2 = Inr resp"
    by (simp add: partial_response_def demo_node2_def demo_node_simps share_from_bytes_def dprf_partial_def
        demo_bls_def demo_derive_simps ecies_encrypt_def demo_ctx_def sign_bytes_def Let_def demo_sk2_def
        demo_hash_def demo_ecies)
  with eq show ?thesis by auto
qed

lemma demo_list: "\<exists>s1. own_node_list demo_derive demo_config demo_addr2 (tick 1000000000 demo_node1)
    = (Inr [demo_addr1, demo_addr2], s1) \<and> VERIFIER s1 = None \<and> gate_proc.more s1 = gate_proc.more demo_node1"
proof -
  have "\<exists>s1. own_node_list demo_derive demo_config demo_addr2 (tick 1000000000 demo_node1)
      = (Inr [demo_addr1, demo_addr2], s1)"
    by (simp add: own_node_list_def get_signer_addresses_for_def get_signer_addresses_def refresh_locked_def
        fresh_hit_def fetch_node_list_def provider_for_def parse_contract_def sbind_def Let_def
        demo_derive_simps demo_node1_def demo_node_simps)
  then obtain s1 where s1: "own_node_list demo_derive demo_config demo_addr2 (tick 1000000000 demo_node1)
      = (Inr [demo_addr1, demo_addr2], s1)" ..
  have "proc_inv demo_derive demo_config (tick 1000000000 demo_node1)"
    unfolding demo_node1_def by (rule proc_inv_tick [OF demo_node_inv])
  from lookup_ok [OF this s1 [unfolded own_node_list_def]] have "chain_frame (tick 1000000000 demo_node1) s1" by simp
  with chain_frame_gate [OF this] s1 show ?thesis by (simp add: demo_node1_def demo_node_simps)
qed

lemma demo_address2: "eth_address_from_pubkey demo_derive (demo_pk demo_sk2) = demo_addr2"
  by (simp add: eth_address_from_pubkey_def demo_derive_simps demo_hash_def demo_pk_def demo_sk2_def
      demo_addr2_def)

lemma demo_keys:
  "k256_verifying_key demo_derive (private_key (signing_key demo_node1)) = Inr (caller_pubkey demo_ctx)"
  "caller_eth_addr demo_ctx = eth_address (signing_key demo_node1)"
  "k256_verifying_key demo_derive (private_key (signing_key demo_node2)) = Inr (demo_pk demo_sk2)"
  by (simp_all add: demo_derive_simps demo_node1_def demo_node2_def demo_node_simps demo_ctx_def demo_sk_def
      demo_sk2_def)

lemma demo_exchange: "\<exists>s2. get_dprf_partial demo_derive url app material sig ts demo_node1
    = (Inr (2, 2 # 7 # dprf_message app material, 5), s2) \<and> gate_proc.more s2 = gate_proc.more demo_node1"
proof -
  obtain resp where resp: "partial_response demo_derive app material demo_ctx demo_node2 = Inr resp"
    "map_err snd (partial_response demo_derive0 app material demo_ctx demo_node2) = Inr resp"
    using demo_response by blast
  have net: "net_dprf_partial demo_derive (clock demo_node1) url (request_metadata demo_derive sig ts) app material
      = (Inr resp, 1000000000)" by (simp add: demo_derive_simps resp(2))
  obtain s1 where s1: "own_node_list demo_derive demo_config demo_addr2 (tick 1000000000 demo_node1)
      = (Inr [demo_addr1, demo_addr2], s1)" "VERIFIER s1 = None" "gate_proc.more s1 = gate_proc.more demo_node1"
    using demo_list by blast
  have "\<exists>sh share p. shard demo_node2 = Some sh \<and> share_from_bytes (blsful demo_derive) (shard_bytes sh) = Inr share \<and>
    dprf_partial (blsful demo_derive) share (dprf_message app material) = Inr p \<and>
    get_dprf_partial demo_derive url app material sig ts demo_node1
      = (Inr (shard_index sh, partial_to_bytes (blsful demo_derive) p, shard_epoch sh), s1)"
  proof (rule exchange_partial [OF demo_derive_crates(5,3) resp(1) net demo_keys, unfolded demo_address2])
    show "own_node_list demo_derive (node_cfg demo_node1) demo_addr2 (tick 1000000000 demo_node1)
        = (Inr [demo_addr1, demo_addr2], s1)"
      using s1(1) by (simp add: demo_node1_def demo_node_simps)
    show "require_verified demo_derive (app_id (tapp (node_cfg demo_node1))) demo_addr2 0 s1 = (Inr (), s1)"
      by (simp add: require_verified_def s1(2))
  qed (simp_all add: s1(3))
  with s1(3) show ?thesis
    by (auto simp: demo_node2_def demo_node_simps share_from_bytes_def dprf_partial_def partial_to_bytes_def
        demo_derive_simps demo_bls_def)
qed

lemma demo_derives: "\<exists>s'. collect_and_dprf demo_derive app material demo_node1 =
    (Inr (take 32 ((7 # dprf_message app material) @ replicate 32 0),
       \<lparr> coordinator = 1, trace_epoch = 5, servers = [1, 2] \<rparr>), s')"
proof -
  let ?msg = "dprf_message app material"
  have "\<exists>sig. sign_request demo_derive (private_key (signing_key demo_node1)) ''GetDprfPartial'' 0 = Inr sig"
    by (simp add: sign_request_def sign_bytes_def Let_def demo_derive_simps demo_sk_def demo_hash_def
        demo_node1_def demo_node_simps)
  then obtain sig where sig: "sign_request demo_derive demo_sk ''GetDprfPartial'' 0 = Inr sig"
    by (auto simp: demo_node1_def demo_node_simps)
  obtain s2 where s2: "get_dprf_partial demo_derive ''http://b'' app material sig 0 demo_node1
      = (Inr (2, 2 # 7 # ?msg, 5), s2)" "gate_proc.more s2 = gate_proc.more demo_node1"
    using demo_exchange by blast
  have gpk: "group_pubkey s2 = Some [7]"
    using gate_more_node(7) [OF s2(2)] by (simp add: demo_node1_def demo_node_simps)
  show ?thesis
    using s2(1) gpk unfolding collect_and_dprf_def
    by (simp add: sbind_def Let_def demo_node1_def demo_node_simps demo_derive_simps share_from_bytes_def
        dprf_partial_def demo_bls_def sig demo_config_def add_partial_def collector_start_def hm_list_def
        hm_push_def partial_from_bytes_def finish_derive_def dprf_sigma_def dprf_verify_def
        sigma_to_app_key_def)
qed

lemma demo_list2: "\<exists>s1. own_node_list demo_derive demo_config demo_addr1 demo_node2
    = (Inr [demo_addr1, demo_addr2], s1) \<and> VERIFIER s1 = None \<and> gate_proc.more s1 = gate_proc.more demo_node2"
proof -
  have "\<exists>s1. own_node_list demo_derive demo_config demo_addr1 demo_node2 = (Inr [demo_addr1, demo_addr2], s1)"
    by (simp add: own_node_list_def get_signer_addresses_for_def get_signer_addresses_def refresh_locked_def
        fresh_hit_def fetch_node_list_def provider_for_def parse_contract_def sbind_def Let_def
        demo_derive_simps demo_node2_def demo_node_simps)
  then obtain s1 where s1: "own_node_list demo_derive demo_config demo_addr1 demo_node2
      = (Inr [demo_addr1, demo_addr2], s1)" ..
  have "proc_inv demo_derive demo_config demo_node2"
    unfolding demo_node2_def by (rule demo_node_inv)
  from lookup_ok [OF this s1 [unfolded own_node_list_def]] have "chain_frame demo_node2 s1" by simp
  with chain_frame_gate [OF this] s1 show ?thesis by (simp add: demo_node2_def demo_node_simps)
qed

lemma demo_authenticates2: "\<exists>sig s1. authenticate demo_derive demo_config rpc (request_metadata demo_derive sig 0) demo_node2
    = (Inr demo_ctx, s1) \<and> gate_proc.more s1 = gate_proc.more demo_node2"
proof -
  have "\<exists>sig. sign_request demo_derive demo_sk rpc 0 = Inr sig"
    by (simp add: sign_request_def sign_bytes_def Let_def demo_derive_simps demo_sk_def demo_hash_def)
  then obtain sig where sig: "sign_request demo_derive demo_sk rpc 0 = Inr sig" ..
  obtain s1 where s1: "own_node_list demo_derive demo_config demo_addr1 demo_node2
      = (Inr [demo_addr1, demo_addr2], s1)" "VERIFIER s1 = None" "gate_proc.more s1 = gate_proc.more demo_node2"
    using demo_list2 by blast
  have pk: "k256_verifying_key demo_derive demo_sk = Inr (demo_pk demo_sk)"
    by (simp add: demo_derive_simps demo_sk_def)
  have addr: "eth_address_from_pubkey demo_derive (demo_pk demo_sk) = demo_addr1"
    by (simp add: eth_address_from_pubkey_def demo_derive_simps demo_hash_def demo_pk_def demo_sk_def demo_addr1_def)
  have "authenticate demo_derive demo_config rpc (request_metadata demo_derive sig 0) demo_node2
      = (Inr demo_ctx, s1)"
    unfolding demo_ctx_def
  proof (rule authenticate_honest [OF demo_derive_crates(1,5) sig pk, unfolded addr])
    show "own_node_list demo_derive demo_config demo_addr1 demo_node2 = (Inr [demo_addr1, demo_addr2], s1)"
      by (rule s1(1))
    show "require_verified demo_derive (app_id (tapp demo_config)) demo_addr1 0 s1 = (Inr (), s1)"
      by (simp add: require_verified_def s1(2))
  qed (simp_all add: demo_derive_simps demo_node2_def demo_node_simps demo_config_def too_far_def i64_abs_def)
  with s1(3) show ?thesis by blast
qed

lemma demo_handler: "\<exists>sig resp s'. get_dprf_partial_handler demo_derive (request_metadata demo_derive sig 0) app material
    demo_node2 = (Inr resp, s')"
proof -
  obtain sig s1 where a: "authenticate demo_derive demo_config ''GetDprfPartial'' (request_metadata demo_derive sig 0) demo_node2
    = (Inr demo_ctx, s1)" "gate_proc.more s1 = gate_proc.more demo_node2" using demo_authenticates2 by blast
  moreover obtain resp where "partial_response demo_derive app material demo_ctx demo_node2 = Inr resp"
    using demo_response by blast
  moreover have "partial_response demo_derive app material demo_ctx s1
      = partial_response demo_derive app material demo_ctx demo_node2"
    using gate_more_node(2,3) [OF a(2)] by (simp add: partial_response_def)
  ultimately have "get_dprf_partial_handler demo_derive (request_metadata demo_derive sig 0) app material
      demo_node2 = (Inr resp, s1)"
    by (simp add: get_dprf_partial_handler_def sbind_def demo_node2_def demo_node_simps)
  then show ?thesis by blast
qed

section \<open>Properties\<close>

text \<open>C3. A derived key depends on the master, the app and the material only: two successful derivations of
  the same app and material, coordinated by any two nodes that know the same group public key,
  over any networks, with any peers (some of them malicious), at any epochs and from any subset
  of nodes, return the same key.\<close>

theorem derived_key_consistent:
  assumes "bls_unique B" "blsful E1 = B" "blsful E2 = B"
    and "proc_inv E1 (node_cfg s1) s1" "proc_inv E2 (node_cfg s2) s2" "group_pubkey s1 = group_pubkey s2"
    and "collect_and_dprf E1 app material s1 = (Inr (key1, tr1), s1')"
    and "collect_and_dprf E2 app material s2 = (Inr (key2, tr2), s2')"
  shows "key1 = key2"
proof -
  from assms(4,7) obtain sigma1 gpk1 where 1: "group_pubkey s1 = Some gpk1"
    "dprf_verify B sigma1 gpk1 (dprf_message app material) = Inr ()" "key1 = sigma_to_app_key B sigma1"
    by (rule collect_and_dprf_ok) (simp add: assms(2))
  from assms(5,8) obtain sigma2 gpk2 where 2: "group_pubkey s2 = Some gpk2"
    "dprf_verify B sigma2 gpk2 (dprf_message app material) = Inr ()" "key2 = sigma_to_app_key B sigma2"
    by (rule collect_and_dprf_ok) (simp add: assms(3))
  from 1 2 assms(6) have "gpk1 = gpk2" by simp
  with dprf_verify_unique [OF assms(1) 1(2)] 2(2) have "sigma1 = sigma2" by simp
  with 1 2 show ?thesis by simp
qed

theorem derived_key_consistent_witness:
  "\<exists>key tr s'. collect_and_dprf demo_derive ''app'' [1] demo_node1 = (Inr (key, tr), s') \<and>
     (\<forall>tr2 s2 key2. collect_and_dprf demo_derive ''app'' [1] demo_node1 = (Inr (key2, tr2), s2) \<longrightarrow> key = key2)"
proof -
  have inv: "proc_inv demo_derive (node_cfg demo_node1) demo_node1"
    unfolding demo_node1_def by (rule demo_node_inv)
  obtain key tr s' where c: "collect_and_dprf demo_derive ''app'' [1] demo_node1 = (Inr (key, tr), s')"
    using demo_derives by blast
  from derived_key_consistent [OF demo_bls_unique demo_derive_simps(8) demo_derive_simps(8) inv inv refl c] c
  show ?thesis by blast
qed

text \<open>C10. Exactly one polynomial is used, by exactly the threshold: a successful derivation combines partials
  of a single epoch from pairwise different shard indices, as many as the threshold, each the
  node's own or signed for this coordinator, index and epoch by a listed and attested node, and
  the combined signature verifies under the group public key; the trace names those indices.\<close>

theorem derivation_well_formed:
  assumes "proc_inv E (node_cfg s) s" "collect_and_dprf E app material s = (Inr (key, tr), s')"
  shows "\<exists>own gpk ids parts sigma. shard s = Some own \<and> group_pubkey s = Some gpk \<and>
    length parts = max 1 (unat (threshold (cluster (node_cfg s)))) \<and> length ids = length parts \<and>
    distinct ids \<and> servers tr = sort ids \<and>
    (\<forall>idx p. (idx, p) \<in> set (zip ids parts) \<longrightarrow>
       own_origin E (dprf_message app material) own (trace_epoch tr) idx p \<or>
       peer_origin E s (clock s') (trace_epoch tr) idx p) \<and>
    sig_from_shares (blsful E) parts = Inr sigma \<and>
    dprf_verify (blsful E) sigma gpk (dprf_message app material) = Inr () \<and>
    key = sigma_to_app_key (blsful E) sigma"
  using assms
proof (rule collect_and_dprf_ok)
  fix own c sigma gpk
  assume a: "shard s = Some own" "group_pubkey s = Some gpk" "ready c = Some (trace_epoch tr)"
    "servers tr = sort (hm_list (contributors c) (trace_epoch tr))"
    "coll_inv (unat (threshold (cluster (node_cfg s))))
       (\<lambda>ep idx p. own_origin E (dprf_message app material) own ep idx p \<or> peer_origin E s (clock s') ep idx p) c"
    "dprf_sigma (blsful E) (hm_list (buckets c) (trace_epoch tr)) = Inr sigma"
    "dprf_verify (blsful E) sigma gpk (dprf_message app material) = Inr ()"
    "key = sigma_to_app_key (blsful E) sigma"
  from a(5) have "\<forall>ep. length (hm_list (contributors c) ep) = length (hm_list (buckets c) ep)"
    unfolding coll_inv_def by simp
  with a(3,5) have inv: "length (hm_list (buckets c) (trace_epoch tr)) = max 1 (unat (threshold (cluster (node_cfg s))))"
    "length (hm_list (contributors c) (trace_epoch tr)) = length (hm_list (buckets c) (trace_epoch tr))"
    "distinct (hm_list (contributors c) (trace_epoch tr))"
    "\<forall>idx p. (idx, p) \<in> set (zip (hm_list (contributors c) (trace_epoch tr)) (hm_list (buckets c) (trace_epoch tr))) \<longrightarrow>
       own_origin E (dprf_message app material) own (trace_epoch tr) idx p \<or>
       peer_origin E s (clock s') (trace_epoch tr) idx p"
    unfolding coll_inv_def by auto
  from a(6) have "sig_from_shares (blsful E) (hm_list (buckets c) (trace_epoch tr)) = Inr sigma"
    by (simp add: dprf_sigma_def)
  with a inv show ?thesis by blast
qed

theorem derivation_well_formed_witness:
  "\<exists>key tr s'. collect_and_dprf demo_derive ''app'' [1] demo_node1 = (Inr (key, tr), s') \<and>
     servers tr = [1, 2] \<and> (\<exists>ids. distinct ids \<and> servers tr = sort ids \<and> length ids = 2)"
proof -
  have inv: "proc_inv demo_derive (node_cfg demo_node1) demo_node1"
    unfolding demo_node1_def by (rule demo_node_inv)
  obtain s' where c: "collect_and_dprf demo_derive ''app'' [1] demo_node1 =
    (Inr (take 32 ((7 # dprf_message ''app'' [1]) @ replicate 32 0),
       \<lparr> coordinator = 1, trace_epoch = 5, servers = [1, 2] \<rparr>), s')" using demo_derives by blast
  have "unat (threshold (cluster (node_cfg demo_node1))) = 2"
    by (simp add: demo_node1_def demo_node_simps demo_config_def)
  with derivation_well_formed [OF inv c] c show ?thesis by fastforce
qed

text \<open>C18. A share leaves a node only as a partial for a member: \<open>GetDprfPartial\<close> answers only authenticated
  members, and then with the partial of the node's own share on the requested message, encrypted
  to the key the caller signed with, under the node's index and epoch; the share is unchanged.\<close>

theorem partial_only_to_members:
  assumes "proc_inv E (node_cfg s) s" "get_dprf_partial_handler E m app material s = (Inr resp, s')"
  shows "\<exists>ctx sh share p. authenticated E (node_cfg s) ''GetDprfPartial'' m (utc_now E (clock s)) ctx \<and>
    member E (node_cfg s) (caller_eth_addr ctx) s' \<and> shard s = Some sh \<and> shard s' = shard s \<and>
    share_from_bytes (blsful E) (shard_bytes sh) = Inr share \<and>
    dprf_partial (blsful E) share (dprf_message app material) = Inr p \<and>
    ecies_encrypt E (caller_pubkey ctx) (partial_to_bytes (blsful E) p) = Inr (ep_ciphertext resp) \<and>
    ep_shard_index resp = shard_index sh \<and> ep_epoch resp = shard_epoch sh"
proof -
  from assms(2) obtain ctx where auth: "authenticate E (node_cfg s) ''GetDprfPartial'' m s = (Inr ctx, s')"
    and resp: "partial_response E app material ctx s' = Inr resp"
    by (auto simp: get_dprf_partial_handler_def sbind_Inr_iff)
  note ok = authenticate_ok [OF assms(1) auth]
  then have same: "shard s' = shard s" using gate_more_node(3) by blast
  from resp obtain sh share p ct where "shard s' = Some sh" "share_from_bytes (blsful E) (shard_bytes sh) = Inr share"
    "dprf_partial (blsful E) share (dprf_message app material) = Inr p"
    "ecies_encrypt E (caller_pubkey ctx) (partial_to_bytes (blsful E) p) = Inr (ep_ciphertext resp)"
    "ep_shard_index resp = shard_index sh" "ep_epoch resp = shard_epoch sh"
    by (rule partial_response_cases) simp
  with ok same show ?thesis by metis
qed

theorem partial_only_to_members_witness:
  "\<exists>sig resp s' (ctx :: auth_context).
     get_dprf_partial_handler demo_derive (request_metadata demo_derive sig 0) ''app'' [1] demo_node2
       = (Inr resp, s') \<and> member demo_derive demo_config (caller_eth_addr ctx) s' \<and> ep_shard_index resp = 2"
proof -
  obtain sig resp s' where c: "get_dprf_partial_handler demo_derive (request_metadata demo_derive sig 0) ''app'' [1]
      demo_node2 = (Inr resp, s')" using demo_handler by blast
  have "proc_inv demo_derive (node_cfg demo_node2) demo_node2"
    unfolding demo_node2_def by (rule demo_node_inv)
  from partial_only_to_members [OF this c] obtain ctx :: auth_context and sh where
    "member demo_derive (node_cfg demo_node2) (caller_eth_addr ctx) s'" "shard demo_node2 = Some sh"
    "ep_shard_index resp = shard_index sh" by blast
  then have "member demo_derive demo_config (caller_eth_addr ctx) s'" "ep_shard_index resp = 2"
    by (auto simp: demo_node2_def demo_node_simps)
  with c show ?thesis by blast
qed

end
