(* ===== verification/Monitoring.thy ===== *)
theory Monitoring
  imports Node
begin

text \<open>
  The part of \<open>src/metrics.rs\<close> that looks at the node: the write probe of the sealed-share path, the
  master baseline, and the cluster snapshot that \<open>/metrics\<close> and \<open>/peers\<close> share; with the two
  settings of \<open>src/init.rs\<close> that name the sealed blob and its path. Shown: a recorded baseline is
  never rewritten, so its verdict always compares with the first master; the probe leaves the
  other files alone; and the line \<open>recovery_threshold\<close> is where recovery stops being possible.
\<close>

section \<open>Definitions\<close>

subsection \<open>The sealed-share settings\<close>

definition non_blank :: "string option \<Rightarrow> string option" where
  "non_blank a = Option.bind a (\<lambda>v. if trim v \<noteq> [] then Some v else None)"

definition or_else :: "'a option \<Rightarrow> 'a option \<Rightarrow> 'a option" where
  "or_else a b = (case a of Some x \<Rightarrow> Some x | None \<Rightarrow> b)"

definition sealed_share_blob :: "node \<Rightarrow> string option" where
  "sealed_share_blob s =
     non_blank (or_else (non_blank (env_vars s ''KMS_SEALED_SHARE'')) (cfg_sealed_share (cluster (node_cfg s))))"

definition sealed_share_path :: "node \<Rightarrow> string option" where
  "sealed_share_path s =
     map_option trim (non_blank (or_else (non_blank (env_vars s ''KMS_SEALED_SHARE_PATH''))
       (cfg_sealed_share_path (cluster (node_cfg s)))))"

subsection \<open>The write probe\<close>

definition probe_share_path :: "string option \<Rightarrow> node \<Rightarrow> i64 \<times> node" where
  "probe_share_path path s =
     (let (verdict, d) =
        (case path of
           None \<Rightarrow> (-1, disk s)
         | Some p \<Rightarrow>
             let probe = p @ ''.probe''; (d1, ok) = fs_write probe [] (disk s)
             in if ok then (1, fs_remove probe d1) else (0, d1))
      in (verdict, s\<lparr>disk := d, mets := (mets s)\<lparr>share_path_writable := verdict\<rparr>\<rparr>))"

subsection \<open>The master baseline\<close>

definition BASELINE_FILE :: string where
  "BASELINE_FILE = ''master.baseline''"

text \<open>
  \<open>Path::with_file_name\<close>, on the segments between slashes: the last proper component is replaced
  (trailing slashes and dots do not count); a path that ends in the root, in a dot or in two dots
  has no file name and is extended.
\<close>

fun split_slash :: "string \<Rightarrow> string list" where
  "split_slash [] = [[]]"
| "split_slash (c # cs) =
     (if c = CHR ''/'' then [] # split_slash cs
      else case split_slash cs of [] \<Rightarrow> [[c]] | x # xs \<Rightarrow> (c # x) # xs)"

fun join_slash :: "string list \<Rightarrow> string" where
  "join_slash [] = []"
| "join_slash [x] = x"
| "join_slash (x # y # xs) = x @ ''/'' @ join_slash (y # xs)"

definition strip_back :: "string list \<Rightarrow> string list" where
  "strip_back xs = rev (dropWhile (\<lambda>x. x = [] \<or> x = ''.'') (rev xs))"

definition path_push :: "string \<Rightarrow> string \<Rightarrow> string" where
  "path_push p f = (if p = [] \<or> last p = CHR ''/'' then p @ f else p @ ''/'' @ f)"

definition with_file_name :: "string \<Rightarrow> string \<Rightarrow> string" where
  "with_file_name p f =
     (let first = hd (split_slash p); rest = strip_back (tl (split_slash p)) in
      if rest = [] then
        (if first \<in> {[], ''.'', ''..''} then path_push p f else f)
      else if last rest = ''..'' then path_push p f
      else let dir = strip_back (butlast rest)
           in path_push (if dir = [] \<and> first = [] then ''/'' else join_slash (first # dir)) f)"

definition baseline_path :: "string option \<Rightarrow> string option" where
  "baseline_path path = map_option (\<lambda>p. with_file_name p BASELINE_FILE) path"

definition check_master_baseline :: "'y crates_scheme \<Rightarrow> string option \<Rightarrow> bytes \<Rightarrow> node \<Rightarrow> i64 \<times> node" where
  "check_master_baseline L path live_master s =
     (case baseline_path path of
        None \<Rightarrow> (-1, s)
      | Some p \<Rightarrow>
          let live = hex_encode L live_master;
              (verdict, d) =
                (case read_blob_file p (disk s) of
                   Inr (Some recorded) \<Rightarrow> (if recorded = live then 1 else 0, disk s)
                 | Inr None \<Rightarrow> (let (d1, r) = write_blob_file p live (disk s)
                                in (if is_ok r then 1 else -1, d1))
                 | Inl e \<Rightarrow> (-1, disk s))
          in (verdict, s\<lparr>disk := d, mets := (mets s)\<lparr>master_matches_baseline := verdict\<rparr>\<rparr>))"

subsection \<open>The cluster snapshot\<close>

record cluster_snapshot =
  cv_has_share :: bool
  cv_own_id :: u32
  cv_own_epoch :: u64
  cv_cluster_epoch :: u64
  cv_threshold :: nat
  cv_total_nodes :: nat
  cv_recovery_threshold :: nat
  cv_live_share_holders :: nat
  cv_leading_holders :: nat
  cv_peers_known :: nat
  cv_peers_live :: nat
  cv_group_pubkey :: "bytes option"
  cv_group_pubkey_mismatch :: nat

definition count_if :: "('a \<Rightarrow> bool) \<Rightarrow> 'a list \<Rightarrow> nat" where
  "count_if p xs = length (filter p xs)"

definition leading_epoch :: "node \<Rightarrow> peer_info list \<Rightarrow> u64" where
  "leading_epoch s live =
     max_or_0 (map epoch (filter (\<lambda>p. 0 < epoch p) live) @
       (case shard s of Some x \<Rightarrow> [shard_epoch x] | None \<Rightarrow> []))"

definition cluster_view :: "i64 \<Rightarrow> node \<Rightarrow> cluster_snapshot" where
  "cluster_view now s =
     (let (own_id, ep, has_share) =
            (case shard s of Some x \<Rightarrow> (shard_index x, shard_epoch x, True) | None \<Rightarrow> (0, 0, False));
          live = filter (\<lambda>p. is_live p now) (hm_values (peer_table s));
          leading = leading_epoch s live
      in \<lparr> cv_has_share = has_share, cv_own_id = own_id, cv_own_epoch = ep,
           cv_cluster_epoch = max ep (max_or_0 (map epoch (hm_values (peer_table s)))),
           cv_threshold = unat (threshold (cluster (node_cfg s))),
           cv_total_nodes = unat (total_nodes (cluster (node_cfg s))),
           cv_recovery_threshold =
             max (unat (threshold (cluster (node_cfg s)))) (unat (total_nodes (cluster (node_cfg s))) div 2),
           cv_live_share_holders = (if has_share then 1 else 0) + count_if (\<lambda>p. 0 < epoch p) live,
           cv_leading_holders =
             (if leading = 0 then 0
              else (if has_share \<and> ep = leading then 1 else 0) + count_if (\<lambda>p. epoch p = leading) live),
           cv_peers_known = length (peer_table s), cv_peers_live = length live,
           cv_group_pubkey = group_pubkey s,
           cv_group_pubkey_mismatch =
             (case group_pubkey s of
                Some own \<Rightarrow> count_if (\<lambda>p. peer_group_pubkey p \<noteq> [] \<and> peer_group_pubkey p \<noteq> own) live
              | None \<Rightarrow> 0) \<rparr>)"

section \<open>Lemmas\<close>

lemma check_master_baseline_recorded:
  assumes "baseline_path path = Some p" "read_blob_file p (disk s) = Inr (Some recorded)"
  shows "check_master_baseline L path m s =
    (if recorded = hex_encode L m then 1 else 0,
     s\<lparr>mets := (mets s)\<lparr>master_matches_baseline := (if recorded = hex_encode L m then 1 else 0)\<rparr>\<rparr>)"
  using assms by (simp add: check_master_baseline_def Let_def)

lemma check_master_baseline_shape:
  obtains v d mm where "check_master_baseline L path m s = (v, s\<lparr>disk := d, mets := mm\<rparr>)"
proof (cases path)
  case None
  then have "check_master_baseline L path m s = (- 1, s\<lparr>disk := disk s, mets := mets s\<rparr>)"
    by (simp add: check_master_baseline_def baseline_path_def)
  with that show thesis .
next
  case (Some p)
  then have "\<exists>x. check_master_baseline L path m s =
      (fst x, s\<lparr>disk := snd x, mets := (mets s)\<lparr>master_matches_baseline := fst x\<rparr>\<rparr>)"
    unfolding check_master_baseline_def baseline_path_def Let_def case_prod_beta
    by (simp add: exI)
  with that show thesis by blast
qed

lemma check_master_baseline_frame:
  assumes "check_master_baseline L path m s = (v, s')"
  shows "shard s' = shard s" "group_pubkey s' = group_pubkey s" "sealed_blob s' = sealed_blob s"
    "node_cfg s' = node_cfg s" "signing_key s' = signing_key s" "peer_table s' = peer_table s"
    "env_vars s' = env_vars s" "clock s' = clock s" "pending_shards s' = pending_shards s"
    "dkg_sessions s' = dkg_sessions s" "VERIFIER s' = VERIFIER s"
proof -
  obtain d mm where s': "s' = s\<lparr>disk := d, mets := mm\<rparr>"
    using check_master_baseline_shape [of L path m s] assms by (metis Pair_inject)
  show "shard s' = shard s" "group_pubkey s' = group_pubkey s" "sealed_blob s' = sealed_blob s"
    "node_cfg s' = node_cfg s" "signing_key s' = signing_key s" "peer_table s' = peer_table s"
    "env_vars s' = env_vars s" "clock s' = clock s" "pending_shards s' = pending_shards s"
    "dkg_sessions s' = dkg_sessions s" "VERIFIER s' = VERIFIER s"
    by (simp_all add: s')
qed

lemma lower_hex_no_space: "is_lower_hex c \<Longrightarrow> \<not> is_ascii_space c"
proof -
  have "list_all (\<lambda>c. \<not> is_ascii_space c) ''0123456789abcdef''" by (simp add: is_ascii_space_def)
  then show "is_lower_hex c \<Longrightarrow> \<not> is_ascii_space c" unfolding list_all_iff is_lower_hex_def by blast
qed

lemma hex_no_space:
  assumes "hex_ok L"
  shows "trim (hex_encode L b) = hex_encode L b"
proof (rule trim_no_space)
  have "list_all is_lower_hex (hex_encode L b)" using assms by (simp add: hex_ok_def)
  then show "list_all (\<lambda>c. \<not> is_ascii_space c) (hex_encode L b)"
    unfolding list_all_iff using lower_hex_no_space by blast
qed

lemma hex_nonempty:
  assumes "hex_ok L" "b \<noteq> []"
  shows "hex_encode L b \<noteq> []"
proof
  assume e: "hex_encode L b = []"
  have "hex_decode L (hex_encode L b) = Inr b" using assms(1) by (simp add: hex_ok_def)
  moreover from this have "length (hex_encode L b) = 2 * length b" using assms(1) by (simp add: hex_ok_def)
  ultimately show False using e assms(2) by simp
qed

lemma hex_inject:
  assumes "hex_ok L"
  shows "hex_encode L a = hex_encode L b \<longleftrightarrow> a = b"
proof
  assume "hex_encode L a = hex_encode L b"
  then have "hex_decode L (hex_encode L a) = hex_decode L (hex_encode L b)" by simp
  with assms show "a = b" by (simp add: hex_ok_def)
qed simp

text \<open>A verdict of 1 means that the baseline now holds this master.\<close>

lemma check_master_baseline_match:
  assumes hex: "hex_ok L" and m: "m \<noteq> []" and path: "baseline_path path = Some p"
    and readable: "read_answer (disk s) p" and c: "check_master_baseline L path m s = (1, s')"
  shows "read_blob_file p (disk s') = Inr (Some (hex_encode L m))"
proof (cases "read_blob_file p (disk s)")
  case (Inl e)
  with c path show ?thesis by (simp add: check_master_baseline_def Let_def)
next
  case (Inr r)
  show ?thesis
  proof (cases r)
    case None
    obtain d1 q where w: "write_blob_file p (hex_encode L m) (disk s) = (d1, q)" by force
    with c path Inr None have q: "is_ok q" "disk s' = d1"
      by (auto simp: check_master_baseline_def Let_def split: if_splits)
    then have "q = Inr ()" by (cases q) auto
    with write_then_read [of p "hex_encode L m" "disk s" d1] w readable q(2) show ?thesis
      by (simp add: hex_no_space [OF hex] hex_nonempty [OF hex m])
  next
    case (Some recorded)
    from check_master_baseline_recorded [OF path Inr [unfolded Some], of L m] c Inr Some show ?thesis
      by (auto split: if_splits)
  qed
qed

lemma check_master_baseline_keeps:
  assumes "baseline_path path = Some p" "read_blob_file p (disk s) = Inr (Some recorded)"
  shows "read_blob_file p (disk (snd (check_master_baseline L path m s))) = Inr (Some recorded)"
  using assms by (simp add: check_master_baseline_recorded)

lemma baseline_run:
  assumes "baseline_path path = Some p" "read_blob_file p (disk s) = Inr (Some recorded)"
  shows "read_blob_file p (disk (foldl (\<lambda>s m. snd (check_master_baseline L path m s)) s ms)) = Inr (Some recorded)"
  using assms(2)
proof (induction ms arbitrary: s)
  case Nil
  then show ?case by simp
next
  case (Cons m ms)
  from Cons.IH [OF check_master_baseline_keeps [OF assms(1) Cons.prems, of L m]] show ?case by simp
qed

lemma probe_share_path_files:
  assumes "probe_share_path path s = (v, s')" "q \<noteq> the path @ ''.probe'' \<or> path = None"
  shows "hm_get (files (disk s')) q = hm_get (files (disk s)) q"
  using assms
  by (cases path) (auto simp: probe_share_path_def Let_def fs_write_def fs_remove_def
      split: write_outcome.splits option.splits if_splits)

section \<open>Properties\<close>

text \<open>The baseline answers whether this is still the cluster the node first joined: once a check of a
  master has agreed with the baseline (or recorded it), then whatever masters are checked later,
  the verdict of a check is 1 exactly for that first master and 0 for every other one; no check
  rewrites the file.\<close>

theorem baseline_anchors_first_master:
  assumes "hex_ok L" "m \<noteq> []" "baseline_path path = Some p" "read_answer (disk s) p"
    and "check_master_baseline L path m s = (1, s1)"
  shows "fst (check_master_baseline L path m'
      (foldl (\<lambda>s x. snd (check_master_baseline L path x s)) s1 ms)) = (if m' = m then 1 else 0)"
proof -
  from check_master_baseline_match [OF assms]
  have "read_blob_file p (disk s1) = Inr (Some (hex_encode L m))" .
  from check_master_baseline_recorded [OF assms(3) baseline_run [OF assms(3) this, of L ms], of L m']
  show ?thesis by (simp add: hex_inject [OF assms(1)] eq_commute)
qed

text \<open>A node that has just started, with an empty disk.\<close>

definition demo_fresh :: node where
  "demo_fresh = app_state_new demo_config \<lparr> private_key = demo_sk, eth_address = demo_addr1 \<rparr> demo_gate_open
     demo_fs (\<lambda>_. None)"

lemma demo_fresh_simps [simp]:
  "disk demo_fresh = demo_fs" "node_cfg demo_fresh = demo_config" "shard demo_fresh = None"
  "group_pubkey demo_fresh = None" "peer_table demo_fresh = hm_empty" "dkg_sessions demo_fresh = hm_empty"
  "signing_key demo_fresh = \<lparr> private_key = demo_sk, eth_address = demo_addr1 \<rparr>" "clock demo_fresh = 0"
  "VERIFIER demo_fresh = None" "env_vars demo_fresh = (\<lambda>_. None)" "pending_shards demo_fresh = None"
  "providers demo_fresh = hm_empty" "node_list_cache demo_fresh = hm_empty"
  by (simp_all add: demo_fresh_def app_state_new_def gate_proc.defs node.defs demo_gate_open_def
      demo_gate_proc_def)

lemma demo_baseline_path: "baseline_path (Some ''/data/share.sealed'') = Some ''/data/master.baseline''"
  by code_simp

theorem baseline_anchors_first_master_witness:
  "\<exists>s1. check_master_baseline demo_crates (Some ''/data/share.sealed'') [7] demo_fresh = (1, s1) \<and>
     fst (check_master_baseline demo_crates (Some ''/data/share.sealed'') [8]
       (foldl (\<lambda>s x. snd (check_master_baseline demo_crates (Some ''/data/share.sealed'') x s)) s1 [[9]])) = 0"
proof -
  have "\<exists>s1. check_master_baseline demo_crates (Some ''/data/share.sealed'') [7] demo_fresh = (1, s1)"
    unfolding check_master_baseline_def demo_baseline_path
    by (simp add: read_blob_file_def fs_read_to_string_def demo_fs_def write_blob_file_def fs_write_def
        fs_rename_def Let_def)
  then obtain s1 where s1: "check_master_baseline demo_crates (Some ''/data/share.sealed'') [7] demo_fresh = (1, s1)" ..
  from baseline_anchors_first_master [OF demo_crates_hex _ demo_baseline_path _ s1, of "[8]" "[[9]]"] s1
  show ?thesis by (auto simp: demo_fs_def)
qed

end
