(* ===== verification/Gossip.thy ===== *)
theory Gossip
  imports Derive Monitoring
begin

text \<open>
  The gossip protocol of \<open>src/grpc.rs\<close>: the handler of \<open>Gossip\<close>, the client \<open>push_gossip\<close> and the
  periodic \<open>gossip_round\<close>. What the network returns for a push is a field of \<open>gossip_env\<close>.
  Shown: a caller changes only its own entry; a round never forgets a peer and never lowers an
  epoch, and refreshes liveness only through a push that succeeded; what one node knows reaches
  the node that pushes to it.
\<close>

record node_info =
  ni_grpc_url :: string
  ni_eth_addr :: string
  ni_pubkey :: bytes
  ni_epoch :: u64
  ni_group_pubkey :: bytes

record ('sc, 'pa, 'sg, 'pk) gossip_env = "('sc, 'pa, 'sg, 'pk) derive_env" +
  net_gossip :: "instant \<Rightarrow> string \<Rightarrow> metadata \<Rightarrow> node_info option \<Rightarrow> node_info list anyhow \<times> nat"

section \<open>Definitions\<close>

subsection \<open>The handler\<close>

definition register_caller :: "i64 \<Rightarrow> auth_context \<Rightarrow> node_info option \<Rightarrow> node \<Rightarrow> node" where
  "register_caller now ctx self_info s =
     (case self_info of
        Some info \<Rightarrow>
          if ni_grpc_url info \<noteq> [] then
            s\<lparr>peer_table := hm_insert (caller_eth_addr ctx)
                \<lparr> grpc_url = ni_grpc_url info, last_seen = now, pubkey = caller_pubkey ctx,
                  epoch = ni_epoch info, peer_group_pubkey = ni_group_pubkey info \<rparr> (peer_table s)\<rparr>
          else s
      | None \<Rightarrow> s)"

definition known_peers :: "'y crates_scheme \<Rightarrow> node \<Rightarrow> node_info list" where
  "known_peers L s =
     map (\<lambda>(addr, p). \<lparr> ni_grpc_url = grpc_url p, ni_eth_addr = hex_encode L addr, ni_pubkey = pubkey p,
                        ni_epoch = epoch p, ni_group_pubkey = peer_group_pubkey p \<rparr>) (peer_table s)"

definition gossip_handler ::
    "'y gate_env_scheme \<Rightarrow> metadata \<Rightarrow> node_info option \<Rightarrow> node \<Rightarrow> (status + node_info list) \<times> node" where
  "gossip_handler E m self_info s =
     sbind (authenticate E (node_cfg s) ''Gossip'' m) (\<lambda>ctx s1.
       let s2 = register_caller (utc_now E (clock s1)) ctx self_info s1
       in (Inr (known_peers E s2), s2)) s"

subsection \<open>The periodic round\<close>

text \<open>One relayed entry: it updates what is known of a peer, never its liveness.\<close>

definition merge_entry :: "node_info \<Rightarrow> peer_info \<Rightarrow> peer_info" where
  "merge_entry peer e =
     e\<lparr>grpc_url := ni_grpc_url peer,
       pubkey := (if ni_pubkey peer \<noteq> [] then ni_pubkey peer else pubkey e),
       epoch := max (epoch e) (ni_epoch peer),
       peer_group_pubkey := (if ni_group_pubkey peer \<noteq> [] then ni_group_pubkey peer else peer_group_pubkey e)\<rparr>"

definition relayed_entry :: "node_info \<Rightarrow> peer_info" where
  "relayed_entry peer =
     \<lparr> grpc_url = ni_grpc_url peer, last_seen = 0, pubkey = ni_pubkey peer, epoch = ni_epoch peer,
       peer_group_pubkey = ni_group_pubkey peer \<rparr>"

definition merge_peer ::
    "'y crates_scheme \<Rightarrow> string \<Rightarrow> node_info \<Rightarrow> (address, peer_info) hash_map \<Rightarrow> (address, peer_info) hash_map" where
  "merge_peer L self peer table =
     (if ni_grpc_url peer = self \<or> ni_grpc_url peer = [] then table
      else case hex_decode L (ni_eth_addr peer) of
             Inr key \<Rightarrow>
               if length key = 20 then
                 (case hm_get table key of
                    Some e \<Rightarrow> hm_insert key (merge_entry peer e) table
                  | None \<Rightarrow> hm_insert key (relayed_entry peer) table)
               else table
           | Inl _ \<Rightarrow> table)"

text \<open>A push that succeeded shows that its target is alive.\<close>

definition mark_seen :: "string \<Rightarrow> i64 \<Rightarrow> (address, peer_info) hash_map \<Rightarrow> (address, peer_info) hash_map" where
  "mark_seen target now table =
     hm_map_values (\<lambda>e. if grpc_url e = target then e\<lparr>last_seen := now\<rparr> else e) table"

definition push_gossip ::
    "('sc, 'pa, 'sg, 'pk, 'y) gossip_env_scheme \<Rightarrow> string \<Rightarrow> node_info \<Rightarrow> bytes \<Rightarrow> i64 \<Rightarrow> node
       \<Rightarrow> node_info list anyhow \<times> node" where
  "push_gossip E url self_info sig ts s =
     (let (reply, d) = net_gossip E (clock s) url (request_metadata E sig ts) (Some self_info)
      in (reply, tick d s))"

definition gossip_target ::
    "('sc, 'pa, 'sg, 'pk, 'y) gossip_env_scheme \<Rightarrow> node_info \<Rightarrow> bytes \<Rightarrow> i64 \<Rightarrow> string \<Rightarrow> node \<Rightarrow> node" where
  "gossip_target E self_info sig ts target s =
     (case push_gossip E target self_info sig ts s of
        (Inr received, s1) \<Rightarrow>
          let now = utc_now E (clock s1);
              s2 = (bump gossip_push_ok_update s1);
              s3 = s2\<lparr>mets := (mets s2)\<lparr>gossip_last_success := now\<rparr>\<rparr>
          in s3\<lparr>peer_table := foldl (\<lambda>t peer. merge_peer E (ni_grpc_url self_info) peer t)
                  (mark_seen target now (peer_table s3)) received\<rparr>
      | (Inl _, s1) \<Rightarrow> bump gossip_push_fail_update s1)"

definition gossip_targets :: "node \<Rightarrow> string list" where
  "gossip_targets s =
     (let known = map grpc_url (hm_values (peer_table s));
          self = self_url (cluster (node_cfg s))
      in filter (\<lambda>u. u \<noteq> self) (if known = [] then seeds (cluster (node_cfg s)) else known))"

definition self_node_info :: "'y crates_scheme \<Rightarrow> node \<Rightarrow> node_info" where
  "self_node_info L s =
     \<lparr> ni_grpc_url = self_url (cluster (node_cfg s)), ni_eth_addr = hex_encode L (eth_address (signing_key s)),
       ni_pubkey = [], ni_epoch = own_epoch s,
       ni_group_pubkey = (case group_pubkey s of Some g \<Rightarrow> g | None \<Rightarrow> []) \<rparr>"

definition gossip_round :: "('sc, 'pa, 'sg, 'pk, 'y) gossip_env_scheme \<Rightarrow> node \<Rightarrow> node" where
  "gossip_round E s =
     (if self_url (cluster (node_cfg s)) = [] then s
      else if gossip_targets s = [] then s
      else let ts = utc_now E (clock s) in
           case sign_request E (private_key (signing_key s)) ''Gossip'' ts of
             Inl _ \<Rightarrow> s
           | Inr sig \<Rightarrow> let info = self_node_info E s
                        in foldl (\<lambda>s target. gossip_target E info sig ts target s) s (gossip_targets s))"

text \<open>One turn of the loop of \<open>start_gossip_task\<close>, up to its sleep.\<close>

definition gossip_tick :: "('sc, 'pa, 'sg, 'pk, 'y) gossip_env_scheme \<Rightarrow> node \<Rightarrow> node" where
  "gossip_tick E s = gossip_round E (snd (probe_share_path (sealed_share_path s) s))"

section \<open>Specification\<close>

text \<open>What is known of the peers only grows: no entry, key or group key is lost and no epoch is lowered.\<close>

definition knows_le :: "(address, peer_info) hash_map \<Rightarrow> (address, peer_info) hash_map \<Rightarrow> bool" where
  "knows_le t t' \<longleftrightarrow> (\<forall>k p. hm_get t k = Some p \<longrightarrow>
     (\<exists>p'. hm_get t' k = Some p' \<and> epoch p \<le> epoch p' \<and> (pubkey p \<noteq> [] \<longrightarrow> pubkey p' \<noteq> []) \<and>
        (peer_group_pubkey p \<noteq> [] \<longrightarrow> peer_group_pubkey p' \<noteq> [])))"

text \<open>When an entry was last seen, 0 for an unknown peer.\<close>

definition seen_at :: "(address, peer_info) hash_map \<Rightarrow> address \<Rightarrow> i64" where
  "seen_at t k = (case hm_get t k of Some p \<Rightarrow> last_seen p | None \<Rightarrow> 0)"

text \<open>
  Of the pushes to \<open>targets\<close>, one after the other from \<open>s\<close>, one whose target was at that moment the URL of the
  entry \<open>k\<close> was answered, and the answer came at the time \<open>now\<close>.
\<close>

definition contacted ::
    "('sc, 'pa, 'sg, 'pk, 'y) gossip_env_scheme \<Rightarrow> node_info \<Rightarrow> bytes \<Rightarrow> i64 \<Rightarrow> string list \<Rightarrow> node \<Rightarrow> address \<Rightarrow> i64 \<Rightarrow> bool" where
  "contacted E info sig ts targets s k now \<longleftrightarrow>
     (\<exists>before target after p received s1 s2. targets = before @ target # after \<and>
        s1 = foldl (\<lambda>s target. gossip_target E info sig ts target s) s before \<and>
        hm_get (peer_table s1) k = Some p \<and> grpc_url p = target \<and>
        push_gossip E target info sig ts s1 = (Inr received, s2) \<and> now = utc_now E (clock s2))"

section \<open>Lemmas\<close>

text \<open>Steps that only move up in a preorder: so does any sequence of them.\<close>

locale growing =
  fixes le :: "'s \<Rightarrow> 's \<Rightarrow> bool" and step :: "'q \<Rightarrow> 's \<Rightarrow> 's"
  assumes le_refl: "le s s"
    and le_trans: "le s s1 \<Longrightarrow> le s1 s2 \<Longrightarrow> le s s2"
    and step_le: "le s (step q s)"
begin

lemma run_le: "le s (foldl (\<lambda>s q. step q s) s qs)"
proof (induction qs arbitrary: s)
  case Nil
  show ?case by (simp add: le_refl)
next
  case (Cons q qs)
  show ?case using le_trans [OF step_le [of s q] Cons.IH [of "step q s"]] by simp
qed

lemma step_in_run: "q \<in> set qs \<Longrightarrow> \<exists>s1. le s s1 \<and> le (step q s1) (foldl (\<lambda>s q. step q s) s qs)"
proof (induction qs arbitrary: s)
  case (Cons x qs)
  show ?case
  proof (cases "q = x")
    case True
    then show ?thesis using le_refl run_le [of "step x s" qs] by auto
  next
    case False
    with Cons obtain s1 where "le (step x s) s1" "le (step q s1) (foldl (\<lambda>s q. step q s) (step x s) qs)"
      by (metis set_ConsD)
    then show ?thesis using le_trans [OF step_le] by auto
  qed
qed simp

end

lemma knows_le_refl: "knows_le t t"
  by (auto simp: knows_le_def)

lemma knows_le_trans: "knows_le t t1 \<Longrightarrow> knows_le t1 t2 \<Longrightarrow> knows_le t t2"
  unfolding knows_le_def by (meson order_trans)

lemma knows_le_insert:
  assumes "\<And>e. hm_get t k = Some e \<Longrightarrow> epoch e \<le> epoch p \<and> (pubkey e \<noteq> [] \<longrightarrow> pubkey p \<noteq> []) \<and>
    (peer_group_pubkey e \<noteq> [] \<longrightarrow> peer_group_pubkey p \<noteq> [])"
  shows "knows_le t (hm_insert k p t)"
  using assms unfolding knows_le_def by auto

lemma merge_peer_cases:
  obtains (skip) "merge_peer L self peer t = t"
    | (merge) key e where "hex_decode L (ni_eth_addr peer) = Inr key" "hm_get t key = Some e"
        "merge_peer L self peer t = hm_insert key (merge_entry peer e) t"
    | (new) key where "hex_decode L (ni_eth_addr peer) = Inr key" "hm_get t key = None"
        "merge_peer L self peer t = hm_insert key (relayed_entry peer) t"
proof (cases "hex_decode L (ni_eth_addr peer)")
  case (Inl e)
  then have "merge_peer L self peer t = t" by (simp add: merge_peer_def)
  with skip show thesis .
next
  case (Inr key)
  show thesis
  proof (cases "ni_grpc_url peer = self \<or> ni_grpc_url peer = [] \<or> length key \<noteq> 20")
    case True
    with Inr have "merge_peer L self peer t = t" by (auto simp: merge_peer_def)
    with skip show thesis .
  next
    case False
    with Inr merge new show thesis by (cases "hm_get t key") (auto simp: merge_peer_def)
  qed
qed

lemma merge_peer_le: "knows_le t (merge_peer L self peer t)"
proof (cases rule: merge_peer_cases [of L self peer t])
  case skip
  then show ?thesis by (simp add: knows_le_refl)
next
  case (merge key e)
  then show ?thesis by (auto simp: merge_entry_def intro!: knows_le_insert)
next
  case (new key)
  then show ?thesis by (auto intro!: knows_le_insert)
qed

interpretation merging: growing knows_le "merge_peer L self"
  using knows_le_refl knows_le_trans merge_peer_le by unfold_locales

lemma mark_seen_le: "knows_le t (mark_seen target now t)"
  by (auto simp: knows_le_def mark_seen_def)

lemma merge_peer_seen: "seen_at (merge_peer L self peer t) k = seen_at t k"
  by (cases rule: merge_peer_cases [of L self peer t])
    (auto simp: seen_at_def merge_entry_def relayed_entry_def)

lemma merge_run_seen: "seen_at (foldl (\<lambda>t p. merge_peer L self p t) t ps) k = seen_at t k"
  by (induction ps arbitrary: t) (simp_all add: merge_peer_seen)

lemma merge_peer_wf: "hm_wf t \<Longrightarrow> hm_wf (merge_peer L self peer t)"
  by (cases rule: merge_peer_cases [of L self peer t]) auto

lemma merge_run_wf: "hm_wf t \<Longrightarrow> hm_wf (foldl (\<lambda>t p. merge_peer L self p t) t ps)"
  by (induction ps arbitrary: t) (simp_all add: merge_peer_wf)

text \<open>The state of a node but for its peer table, its counters and its clock.\<close>

definition node_rest :: "node \<Rightarrow> node" where
  "node_rest s = s\<lparr>clock := 0, mets := metrics_new 0, peer_table := hm_empty\<rparr>"

lemma node_rest_simps:
  assumes "node_rest s' = node_rest s"
  shows "node_cfg s' = node_cfg s" "signing_key s' = signing_key s" "shard s' = shard s"
    "pending_shards s' = pending_shards s" "dkg_sessions s' = dkg_sessions s"
    "group_pubkey s' = group_pubkey s" "sealed_blob s' = sealed_blob s" "disk s' = disk s"
    "env_vars s' = env_vars s" "VERIFIER s' = VERIFIER s"
  using assms by (cases s; cases s'; simp add: node_rest_def)+

definition contact_le :: "node \<Rightarrow> node \<Rightarrow> bool" where
  "contact_le s s' \<longleftrightarrow>
     node_rest s' = node_rest s \<and> clock s \<le> clock s' \<and> knows_le (peer_table s) (peer_table s') \<and>
     (hm_wf (peer_table s) \<longrightarrow> hm_wf (peer_table s'))"

lemma contact_le_refl: "contact_le s s"
  by (simp add: contact_le_def knows_le_refl)

lemma contact_le_trans: "contact_le s s1 \<Longrightarrow> contact_le s1 s2 \<Longrightarrow> contact_le s s2"
  unfolding contact_le_def by (auto intro: knows_le_trans)

text \<open>A push to one target that answered, and one that did not.\<close>

lemma gossip_target_cases:
  obtains (failed) e s1 where "push_gossip E target info sig ts s = (Inl e, s1)"
    "gossip_target E info sig ts target s = bump gossip_push_fail_update s1" "\<exists>d. s1 = tick d s"
  | (ok) received s1 m where "push_gossip E target info sig ts s = (Inr received, s1)" "\<exists>d. s1 = tick d s"
    "gossip_target E info sig ts target s = s1\<lparr>mets := m, peer_table :=
       foldl (\<lambda>t peer. merge_peer E (ni_grpc_url info) peer t) (mark_seen target (utc_now E (clock s1)) (peer_table s)) received\<rparr>"
proof -
  obtain reply d where net: "net_gossip E (clock s) target (request_metadata E sig ts) (Some info) = (reply, d)" by force
  then have push: "push_gossip E target info sig ts s = (reply, tick d s)" by (simp add: push_gossip_def)
  show thesis
  proof (cases reply)
    case (Inl e)
    with push failed [of e "tick d s"] show thesis by (auto simp: gossip_target_def)
  next
    case (Inr received)
    with push have "gossip_target E info sig ts target s =
        (tick d s)\<lparr>mets := (gossip_push_ok_update inc (mets s))\<lparr>gossip_last_success := utc_now E (clock (tick d s))\<rparr>,
          peer_table := foldl (\<lambda>t peer. merge_peer E (ni_grpc_url info) peer t)
            (mark_seen target (utc_now E (clock (tick d s))) (peer_table s)) received\<rparr>"
      by (simp add: gossip_target_def Let_def bump_def tick_def)
    with push Inr ok show thesis by blast
  qed
qed

lemma gossip_target_le: "contact_le s (gossip_target E info sig ts target s)"
proof (cases rule: gossip_target_cases [of E target info sig ts s])
  case (failed e s1)
  then show ?thesis by (auto simp: contact_le_def knows_le_refl node_rest_def bump_def tick_def)
next
  case (ok received s1 m)
  let ?t = "foldl (\<lambda>t peer. merge_peer E (ni_grpc_url info) peer t) (mark_seen target (utc_now E (clock s1)) (peer_table s)) received"
  have "knows_le (peer_table s) ?t" using knows_le_trans [OF mark_seen_le merging.run_le] .
  moreover have "hm_wf (peer_table s) \<longrightarrow> hm_wf ?t" by (auto simp: mark_seen_def intro: merge_run_wf)
  ultimately show ?thesis using ok(2) unfolding contact_le_def ok(3) by (auto simp: node_rest_def tick_def)
qed

lemma gossip_run_le: "contact_le s (foldl (\<lambda>s target. gossip_target E info sig ts target s) s targets)"
proof (induction targets arbitrary: s)
  case (Cons target targets)
  from contact_le_trans [OF gossip_target_le Cons.IH] show ?case by simp
qed (simp add: contact_le_refl)

text \<open>The entries at the address of a target are refreshed if it answers, nothing else is.\<close>

lemma gossip_target_seen:
  assumes "seen_at (peer_table (gossip_target E info sig ts target s)) k \<noteq> seen_at (peer_table s) k"
  obtains p received s1 where "hm_get (peer_table s) k = Some p" "grpc_url p = target"
    "push_gossip E target info sig ts s = (Inr received, s1)"
    "seen_at (peer_table (gossip_target E info sig ts target s)) k = utc_now E (clock s1)"
proof (cases rule: gossip_target_cases [of E target info sig ts s])
  case (failed e s1)
  then have "peer_table (gossip_target E info sig ts target s) = peer_table s" by (auto simp: bump_def tick_def)
  with assms show thesis by simp
next
  case (ok received s1 m)
  have "seen_at (peer_table (gossip_target E info sig ts target s)) k =
      seen_at (mark_seen target (utc_now E (clock s1)) (peer_table s)) k"
    by (simp add: ok(3) merge_run_seen)
  with assms that [of _ received s1] ok(1) show thesis
    by (auto simp: seen_at_def mark_seen_def split: option.splits if_splits)
qed

lemma gossip_run_seen:
  assumes "seen_at (peer_table (foldl (\<lambda>s target. gossip_target E info sig ts target s) s targets)) k \<noteq> seen_at (peer_table s) k"
  shows "contacted E info sig ts targets s k
    (seen_at (peer_table (foldl (\<lambda>s target. gossip_target E info sig ts target s) s targets)) k)"
  using assms
proof (induction targets arbitrary: s)
  case Nil
  then show ?case by simp
next
  case (Cons target targets)
  let ?s1 = "gossip_target E info sig ts target s" and ?run = "foldl (\<lambda>s target. gossip_target E info sig ts target s)"
  have run: "?run s (target # targets) = ?run ?s1 targets" by simp
  show ?case
  proof (cases "seen_at (peer_table (?run ?s1 targets)) k = seen_at (peer_table ?s1) k")
    case True
    with Cons.prems have "seen_at (peer_table ?s1) k \<noteq> seen_at (peer_table s) k" by simp
    then obtain p received s2 where "hm_get (peer_table s) k = Some p" "grpc_url p = target"
      "push_gossip E target info sig ts s = (Inr received, s2)" "seen_at (peer_table ?s1) k = utc_now E (clock s2)"
      by (rule gossip_target_seen)
    with True show ?thesis unfolding contacted_def run
      by (intro exI [of _ "[]"] exI [of _ target] exI [of _ targets] exI [of _ p] exI [of _ received] exI [of _ s] exI [of _ s2])
        simp
  next
    case False
    from Cons.IH [OF this] obtain before target' after p received s1 s2 where c: "targets = before @ target' # after"
      "s1 = ?run ?s1 before" "hm_get (peer_table s1) k = Some p" "grpc_url p = target'"
      "push_gossip E target' info sig ts s1 = (Inr received, s2)" "seen_at (peer_table (?run ?s1 targets)) k = utc_now E (clock s2)"
      unfolding contacted_def by blast
    then show ?thesis unfolding contacted_def run
      by (intro exI [of _ "target # before"] exI [of _ target'] exI [of _ after] exI [of _ p] exI [of _ received] exI [of _ s1]
          exI [of _ s2]) simp
  qed
qed

lemma known_epoch_knows_le:
  assumes "knows_le (peer_table s) (peer_table s')" "hm_wf (peer_table s)" "hm_wf (peer_table s')" "shard s' = shard s"
  shows "known_epoch s \<le> known_epoch s'"
proof (rule known_epoch_le)
  show "own_epoch s \<le> known_epoch s'"
    using known_epoch_ge_own [of s'] assms(4) by (simp add: own_epoch_def)
next
  fix p assume "p \<in> set (hm_values (peer_table s))"
  then obtain k where "hm_get (peer_table s) k = Some p" using hm.vals_get [OF assms(2)] by blast
  with assms(1) obtain p' where "hm_get (peer_table s') k = Some p'" "epoch p \<le> epoch p'"
    unfolding knows_le_def by blast
  moreover from this have "p' \<in> set (hm_values (peer_table s'))" using hm.vals_get [OF assms(3)] by blast
  ultimately show "epoch p \<le> known_epoch s'" using known_epoch_ge_peer order_trans by blast
qed

lemma gossip_round_run:
  obtains (idle) "gossip_round E s = s"
  | (pushes) sig where "sign_request E (private_key (signing_key s)) ''Gossip'' (utc_now E (clock s)) = Inr sig"
    "gossip_round E s = foldl (\<lambda>t target. gossip_target E (self_node_info E s) sig (utc_now E (clock s)) target t) s (gossip_targets s)"
proof (cases "sign_request E (private_key (signing_key s)) ''Gossip'' (utc_now E (clock s))")
  case (Inl e)
  then have "gossip_round E s = s" by (simp add: gossip_round_def Let_def)
  with idle show thesis .
next
  case (Inr sig)
  let ?run = "foldl (\<lambda>t target. gossip_target E (self_node_info E s) sig (utc_now E (clock s)) target t) s (gossip_targets s)"
  have "gossip_round E s = s \<or> gossip_round E s = ?run" using Inr by (simp add: gossip_round_def Let_def)
  with idle pushes [OF Inr] show thesis by blast
qed

lemma gossip_round_contact: "contact_le s (gossip_round E s)"
  by (cases rule: gossip_round_run [of E s]) (simp_all add: contact_le_refl gossip_run_le)

lemma merge_peer_learns:
  assumes "hex_decode L (ni_eth_addr peer) = Inr key" "length key = 20" "ni_grpc_url peer \<noteq> self" "ni_grpc_url peer \<noteq> []"
  obtains p' where "hm_get (merge_peer L self peer t) key = Some p'" "ni_epoch peer \<le> epoch p'"
    "ni_pubkey peer \<noteq> [] \<longrightarrow> pubkey p' \<noteq> []"
  using assms by (cases "hm_get t key") (auto simp: merge_peer_def merge_entry_def relayed_entry_def)

lemma gossip_handler_cases:
  assumes "proc_inv E (node_cfg s) s" "gossip_handler E m self_info s = (r, s')"
  obtains (refused) e where "r = Inl e" "gate_proc.more s' = gate_proc.more s"
    | (accepted) ctx s1 where "authenticated E (node_cfg s) ''Gossip'' m (utc_now E (clock s)) ctx"
        "member E (node_cfg s) (caller_eth_addr ctx) s1" "gate_proc.more s1 = gate_proc.more s"
        "clock s \<le> clock s1" "s' = register_caller (utc_now E (clock s1)) ctx self_info s1"
        "r = Inr (known_peers E s')"
proof -
  obtain q s1 where a: "authenticate E (node_cfg s) ''Gossip'' m s = (q, s1)" by force
  note ok = authenticate_ok [OF assms(1) a]
  show thesis
  proof (cases q)
    case (Inl e)
    with a assms(2) have "r = Inl e" "s' = s1" by (simp_all add: gossip_handler_def sbind_def)
    with ok refused show thesis by blast
  next
    case (Inr ctx)
    with a assms(2) have "r = Inr (known_peers E s')" "s' = register_caller (utc_now E (clock s1)) ctx self_info s1"
      by (auto simp: gossip_handler_def sbind_def Let_def)
    with ok Inr accepted show thesis by blast
  qed
qed

lemma register_caller_other:
  "k \<noteq> caller_eth_addr ctx \<Longrightarrow> hm_get (peer_table (register_caller now ctx si s)) k = hm_get (peer_table s) k"
  by (simp add: register_caller_def split: option.split)

section \<open>A concrete exchange\<close>

definition demo_gossip ::
    "node_info list \<Rightarrow> (u8, u8 \<times> u8 \<times> bytes, u8 \<times> bytes, u8) gossip_env" where
  "demo_gossip reply = derive_env.extend demo_derive (gossip_env.fields (\<lambda>t url m si. (Inr reply, 0)))"

definition demo_info :: node_info where
  "demo_info = \<lparr> ni_grpc_url = ''http://a'', ni_eth_addr = demo_hex_encode demo_addr1, ni_pubkey = [],
     ni_epoch = 5, ni_group_pubkey = [7] \<rparr>"

lemma demo_gossip_simps [simp]:
  "hex_encode (demo_gossip reply) = demo_hex_encode" "hex_decode (demo_gossip reply) = demo_hex_decode"
  "net_gossip (demo_gossip reply) = (\<lambda>t url m si. (Inr reply, 0))"
  "k256_sign_prehash (demo_gossip reply) = k256_sign_prehash demo_derive"
  "keccak256 (demo_gossip reply) = keccak256 demo_derive"
  "k256_verifying_key (demo_gossip reply) = k256_verifying_key demo_derive" "utc_now (demo_gossip reply) = utc_now demo_derive"
  by (simp_all add: demo_gossip_def derive_env.defs gossip_env.defs demo_derive_def demo_derive0_def
      gate_env.defs demo_gate_def chain_env.defs demo_chain_def seal_crates.defs demo_seal_def crates.defs
      demo_crates_def)

lemma demo_gossip_call:
  obtains sig reply s' where "gossip_handler demo_derive (request_metadata demo_derive sig 0) (Some demo_info) demo_node2
      = (Inr reply, s')"
    "hm_get (peer_table s') demo_addr1 \<noteq> hm_get (peer_table demo_node2) demo_addr1"
    "hm_get (peer_table s') demo_addr2 = hm_get (peer_table demo_node2) demo_addr2"
proof -
  obtain sig s1 where a: "authenticate demo_derive demo_config ''Gossip'' (request_metadata demo_derive sig 0) demo_node2
    = (Inr demo_ctx, s1)" "gate_proc.more s1 = gate_proc.more demo_node2" using demo_authenticates2 by blast
  let ?s' = "register_caller (utc_now demo_derive (clock s1)) demo_ctx (Some demo_info) s1"
  have "gossip_handler demo_derive (request_metadata demo_derive sig 0) (Some demo_info) demo_node2
      = (Inr (known_peers demo_derive ?s'), ?s')"
    using a(1) by (simp add: gossip_handler_def sbind_def demo_node2_def demo_node_simps Let_def)
  moreover have "hm_get (peer_table demo_node2) demo_addr1 = None"
    by (simp add: demo_node2_def demo_node_def node.defs gate_proc.defs hm_get_def demo_addr1_def demo_addr2_def)
  moreover have "demo_addr1 \<noteq> demo_addr2" by (simp add: demo_addr1_def demo_addr2_def)
  ultimately show thesis
    using that gate_more_node(5) [OF a(2)]
    by (auto simp: register_caller_def demo_info_def demo_ctx_def)
qed

section \<open>Properties\<close>

text \<open>C25. A caller of \<open>Gossip\<close> changes at most its own entry of the peer table, under the address it signed
  with: any entry that differs after the call is the entry of an authenticated member, marked as
  seen now, with the key recovered from its signature and the address, epoch and group key it
  reported; the share and the group key of the node are not touched.\<close>

theorem gossip_own_entry_only:
  assumes "proc_inv E (node_cfg s) s" "gossip_handler E m self_info s = (r, s')"
    and "hm_get (peer_table s') k \<noteq> hm_get (peer_table s) k"
  shows "\<exists>ctx info t. authenticated E (node_cfg s) ''Gossip'' m (utc_now E (clock s)) ctx \<and>
    k = caller_eth_addr ctx \<and> self_info = Some info \<and> ni_grpc_url info \<noteq> [] \<and> clock s \<le> t \<and>
    hm_get (peer_table s') k = Some \<lparr> grpc_url = ni_grpc_url info, last_seen = utc_now E t,
      pubkey = caller_pubkey ctx, epoch = ni_epoch info, peer_group_pubkey = ni_group_pubkey info \<rparr> \<and>
    shard s' = shard s \<and> group_pubkey s' = group_pubkey s"
  using assms(1,2)
proof (cases rule: gossip_handler_cases)
  case (refused e)
  with assms(3) gate_more_node(5) show ?thesis by metis
next
  case (accepted ctx s1)
  note same = gate_more_node [OF accepted(3)]
  have k: "k = caller_eth_addr ctx"
    using register_caller_other assms(3) accepted(5) same(5) by metis
  with assms(3) accepted(5) same obtain info where info: "self_info = Some info" "ni_grpc_url info \<noteq> []"
    by (auto simp: register_caller_def split: option.splits if_splits)
  with accepted(5) same have "hm_get (peer_table s') k = Some \<lparr> grpc_url = ni_grpc_url info,
      last_seen = utc_now E (clock s1), pubkey = caller_pubkey ctx, epoch = ni_epoch info,
      peer_group_pubkey = ni_group_pubkey info \<rparr>" "shard s' = shard s" "group_pubkey s' = group_pubkey s"
    by (simp_all add: k register_caller_def)
  with accepted(1,4) k info show ?thesis by blast
qed

theorem gossip_own_entry_only_witness:
  "\<exists>sig r s' p. gossip_handler demo_derive (request_metadata demo_derive sig 0) (Some demo_info) demo_node2 = (r, s') \<and>
     hm_get (peer_table s') demo_addr1 = Some p \<and> epoch p = 5 \<and> grpc_url p = ''http://a''"
proof -
  obtain sig reply s' where c: "gossip_handler demo_derive (request_metadata demo_derive sig 0) (Some demo_info) demo_node2
      = (Inr reply, s')" "hm_get (peer_table s') demo_addr1 \<noteq> hm_get (peer_table demo_node2) demo_addr1"
    by (rule demo_gossip_call)
  have "proc_inv demo_derive (node_cfg demo_node2) demo_node2"
    unfolding demo_node2_def by (rule demo_node_inv)
  from gossip_own_entry_only [OF this c] c(1) show ?thesis by (fastforce simp: demo_info_def)
qed

text \<open>C24. A gossip round is safe for what the rest of the node decides on: it forgets no peer, erases no
  key, lowers no epoch (so the cluster epoch never goes back), changes neither the share nor the
  group key, and relayed entries never refresh liveness: the time an entry was last seen changes only
  to the time at which a push of this round, signed by this node, to the very URL the entry had at that moment was
  answered.\<close>

theorem gossip_round_safe:
  assumes "hm_wf (peer_table s)" "s' = gossip_round E s"
  shows "knows_le (peer_table s) (peer_table s') \<and> known_epoch s \<le> known_epoch s' \<and>
    shard s' = shard s \<and> group_pubkey s' = group_pubkey s \<and>
    (\<forall>k. seen_at (peer_table s') k \<noteq> seen_at (peer_table s) k \<longrightarrow>
       (\<exists>sig. sign_request E (private_key (signing_key s)) ''Gossip'' (utc_now E (clock s)) = Inr sig \<and>
          contacted E (self_node_info E s) sig (utc_now E (clock s)) (gossip_targets s) s k (seen_at (peer_table s') k)))"
proof -
  have c: "contact_le s s'" using gossip_round_contact assms(2) by simp
  then have rest: "node_rest s' = node_rest s" and le: "knows_le (peer_table s) (peer_table s')"
    and wf: "hm_wf (peer_table s')" using assms(1) by (simp_all add: contact_le_def)
  have "\<exists>sig. sign_request E (private_key (signing_key s)) ''Gossip'' (utc_now E (clock s)) = Inr sig \<and>
      contacted E (self_node_info E s) sig (utc_now E (clock s)) (gossip_targets s) s k (seen_at (peer_table s') k)"
    if "seen_at (peer_table s') k \<noteq> seen_at (peer_table s) k" for k
  proof (cases rule: gossip_round_run [of E s])
    case idle
    with that assms(2) show ?thesis by simp
  next
    case (pushes sig)
    with gossip_run_seen [of E "self_node_info E s" sig "utc_now E (clock s)" s "gossip_targets s" k] that assms(2)
    show ?thesis by simp
  qed
  with known_epoch_knows_le [OF le assms(1) wf node_rest_simps(3) [OF rest]] node_rest_simps(3,6) [OF rest] le
  show ?thesis by blast
qed

lemma demo_node1_peers:
  "peer_table demo_node1 = [(demo_addr2, \<lparr> grpc_url = ''http://b'', last_seen = 0,
     pubkey = demo_pk demo_sk2, epoch = 5, peer_group_pubkey = [7] \<rparr>)]"
  by (simp add: demo_node1_def demo_node_def node.defs gate_proc.defs)

lemma demo_round_seen:
  "seen_at (peer_table (gossip_round (demo_gossip []) (tick 5000000000 demo_node1))) demo_addr2 = 5"
proof -
  let ?s = "tick 5000000000 demo_node1"
  have s: "peer_table ?s = peer_table demo_node1" "private_key (signing_key ?s) = demo_sk" "self_url (cluster (node_cfg ?s)) = ''http://a''"
    "utc_now (demo_gossip []) (clock ?s) = 5"
    by (simp_all add: tick_def demo_node1_def demo_node_simps demo_config_def demo_derive_simps)
  then have targets: "gossip_targets ?s = [''http://b'']"
    by (simp add: gossip_targets_def demo_node1_peers hm_values_def)
  have "\<exists>sig. sign_request (demo_gossip []) demo_sk ''Gossip'' 5 = Inr sig"
    by (simp add: sign_request_def sign_bytes_def Let_def demo_derive_simps demo_sk_def demo_hash_def)
  then obtain sig where "sign_request (demo_gossip []) demo_sk ''Gossip'' 5 = Inr sig" ..
  with s targets have "gossip_round (demo_gossip []) ?s =
      gossip_target (demo_gossip []) (self_node_info (demo_gossip []) ?s) sig 5 ''http://b'' ?s"
    by (simp add: gossip_round_def)
  moreover have "push_gossip (demo_gossip []) ''http://b'' info sig 5 ?s = (Inr [], tick 0 ?s)" for info
    by (simp add: push_gossip_def)
  ultimately show ?thesis
    using s(4) by (simp add: gossip_target_def Let_def mark_seen_def seen_at_def demo_node1_peers hm_get_def hm_map_values_def
        tick_def bump_def)
qed

theorem gossip_round_safe_witness:
  "\<exists>s sig. seen_at (peer_table s) demo_addr2 = 0 \<and> seen_at (peer_table (gossip_round (demo_gossip []) s)) demo_addr2 = 5 \<and>
     known_epoch s \<le> known_epoch (gossip_round (demo_gossip []) s) \<and> known_epoch s = 5 \<and>
     contacted (demo_gossip []) (self_node_info (demo_gossip []) s) sig (utc_now (demo_gossip []) (clock s)) (gossip_targets s) s
       demo_addr2 5"
proof -
  let ?s = "tick 5000000000 demo_node1"
  have t: "peer_table ?s = [(demo_addr2, \<lparr> grpc_url = ''http://b'', last_seen = 0,
      pubkey = demo_pk demo_sk2, epoch = 5, peer_group_pubkey = [7] \<rparr>)]"
    by (simp add: demo_node1_peers tick_def)
  have wf: "hm_wf (peer_table ?s)" by (simp add: t hm_wf_def)
  have "known_epoch ?s = 5"
    unfolding known_epoch_def t
    by (simp add: own_epoch_def hm_values_def max_or_0_def demo_node1_def demo_node_simps tick_def)
  moreover have before: "seen_at (peer_table ?s) demo_addr2 = 0" by (simp add: t seen_at_def hm_get_def)
  note safe = gossip_round_safe [OF wf refl, of "demo_gossip []"]
  have "seen_at (peer_table (gossip_round (demo_gossip []) ?s)) demo_addr2 \<noteq> seen_at (peer_table ?s) demo_addr2"
    unfolding before demo_round_seen by simp
  with safe obtain sig where "contacted (demo_gossip []) (self_node_info (demo_gossip []) ?s) sig (utc_now (demo_gossip []) (clock ?s))
      (gossip_targets ?s) ?s demo_addr2 (seen_at (peer_table (gossip_round (demo_gossip []) ?s)) demo_addr2)" by blast
  ultimately show ?thesis
    using safe demo_round_seen before by (intro exI [of _ ?s] exI [of _ sig]) simp
qed

text \<open>Gossip spreads knowledge: when a push is answered by the other node's handler, the pushing node
  afterwards knows every peer in the other node's table that has an address of its own, at an
  epoch at least as high, and with a key if the other node had one.\<close>

theorem gossip_spreads:
  assumes "hex_ok E" "gossip_handler E2 m self_info sB = (Inr reply, sB')" "hex_encode E2 = hex_encode E"
    and "net_gossip E (clock s) target (request_metadata E sig ts) (Some info) = (Inr reply, d)"
    and "(addr, p) \<in> set (peer_table sB')" "length addr = 20" "grpc_url p \<notin> {[], ni_grpc_url info}"
  shows "\<exists>p'. hm_get (peer_table (gossip_target E info sig ts target s)) addr = Some p' \<and>
    epoch p \<le> epoch p' \<and> (pubkey p \<noteq> [] \<longrightarrow> pubkey p' \<noteq> [])"
proof -
  from assms(2) have reply: "reply = known_peers E2 sB'"
    by (auto simp: gossip_handler_def sbind_Inr_iff Let_def)
  let ?ni = "\<lparr> ni_grpc_url = grpc_url p, ni_eth_addr = hex_encode E addr, ni_pubkey = pubkey p,
    ni_epoch = epoch p, ni_group_pubkey = peer_group_pubkey p \<rparr>"
  let ?step = "merge_peer E (ni_grpc_url info)"
  have "?ni \<in> set reply"
    unfolding reply known_peers_def assms(3) using assms(5) by force
  from merging.step_in_run [OF this] obtain t1 where
    fin: "knows_le (?step ?ni t1) (peer_table (gossip_target E info sig ts target s))"
    using assms(4) by (fastforce simp: gossip_target_def push_gossip_def Let_def)
  obtain p1 where p1: "hm_get (?step ?ni t1) addr = Some p1" "epoch p \<le> epoch p1" "pubkey p \<noteq> [] \<longrightarrow> pubkey p1 \<noteq> []"
    by (rule merge_peer_learns [of E ?ni addr "ni_grpc_url info" t1])
      (use assms(1,6,7) in \<open>simp_all add: hex_ok_roundtrip\<close>)
  with fin show ?thesis unfolding knows_le_def by (meson order_trans)
qed

theorem gossip_spreads_witness:
  "\<exists>reply p'. hm_get (peer_table (gossip_target (demo_gossip reply) demo_info [] 0 ''http://b'' demo_fresh)) demo_addr2
     = Some p' \<and> 5 \<le> epoch p'"
proof -
  obtain sig reply s' where c: "gossip_handler demo_derive (request_metadata demo_derive sig 0) (Some demo_info) demo_node2
      = (Inr reply, s')" "hm_get (peer_table s') demo_addr2 = hm_get (peer_table demo_node2) demo_addr2"
    by (rule demo_gossip_call)
  define p where "p = \<lparr> grpc_url = ''http://b'', last_seen = 0, pubkey = demo_pk demo_sk2, epoch = 5, peer_group_pubkey = [7] \<rparr>"
  have "hm_get (peer_table demo_node2) demo_addr2 = Some p"
    by (simp add: demo_node2_def demo_node_def node.defs gate_proc.defs hm_get_def p_def)
  with c(2) have p: "(demo_addr2, p) \<in> set (peer_table s')" by (simp add: hm_get_def map_of_SomeD)
  have hex: "hex_ok (demo_gossip reply)"
    using demo_crates_hex by (simp add: hex_ok_def demo_crates_def)
  have enc: "hex_encode demo_derive = hex_encode (demo_gossip reply)"
    by (simp add: demo_derive_def demo_derive0_def gate_env.defs demo_gate_def chain_env.defs demo_chain_def
        seal_crates.defs demo_seal_def crates.defs demo_crates_def)
  have net: "net_gossip (demo_gossip reply) (clock demo_fresh) ''http://b'' (request_metadata (demo_gossip reply) [] 0)
      (Some demo_info) = (Inr reply, 0)" by simp
  have "length demo_addr2 = 20" "grpc_url p \<notin> {[], ni_grpc_url demo_info}"
    by (simp_all add: p_def demo_info_def demo_addr2_def)
  from gossip_spreads [OF hex c(1) enc net p this]
  show ?thesis by (auto simp: p_def)
qed

end
