(* ===== verification/Dkg.thy ===== *)
theory Dkg
  imports Gossip
begin

text \<open>
  \<open>src/dkg.rs\<close> and the \<open>DkgRound\<close> handler of \<open>src/grpc.rs\<close>: one participant of a DKG or reshare
  session driven through five rounds. The participant itself is gennaro-dkg's: its operations are
  the fields of \<open>gennaro\<close>, on a participant state and round data of any types; the group element is
  given by its encoding, the only form the sources use. While the driver waits at a round's
  barrier other tasks of the process run: \<open>wakeups\<close> lists what they do to the node between two
  wake-ups, up to the round's deadline.
\<close>

record session_peer =
  sp_id :: u32
  sp_grpc_url :: string
  sp_pubkey :: bytes
  sp_epoch :: u64

record dkg_round_msg =
  dm_session_id :: string
  dm_round :: u32
  dm_from_index :: u32
  dm_broadcast :: bytes
  dm_p2p :: bytes

record ('sc, 'st, 'd) gennaro =
  secret_new :: "nat \<Rightarrow> nat \<Rightarrow> nat \<Rightarrow> 'st anyhow"
  with_secret :: "nat \<Rightarrow> nat \<Rightarrow> nat \<Rightarrow> 'sc \<Rightarrow> 'sc list \<Rightarrow> nat \<Rightarrow> 'st anyhow"
  refresh_new :: "nat \<Rightarrow> nat \<Rightarrow> nat \<Rightarrow> 'st anyhow"
  get_id :: "'st \<Rightarrow> nat"
  round1 :: "'st \<Rightarrow> (('d \<times> (nat \<Rightarrow> 'd option)) \<times> 'st) anyhow"
  round2 :: "'st \<Rightarrow> (nat \<Rightarrow> 'd option) \<Rightarrow> (nat \<Rightarrow> 'd option) \<Rightarrow> ('d \<times> 'st) anyhow"
  round3 :: "'st \<Rightarrow> (nat \<Rightarrow> 'd option) \<Rightarrow> ('d \<times> 'st) anyhow"
  round4 :: "'st \<Rightarrow> (nat \<Rightarrow> 'd option) \<Rightarrow> ('d \<times> 'st) anyhow"
  round5 :: "'st \<Rightarrow> (nat \<Rightarrow> 'd option) \<Rightarrow> 'st anyhow"
  get_secret_share :: "'st \<Rightarrow> 'sc option"
  get_public_key :: "'st \<Rightarrow> bytes option"
  data_to_vec :: "'d \<Rightarrow> bytes anyhow"
  broadcast_from_slice :: "u32 \<Rightarrow> bytes \<Rightarrow> 'd anyhow"
  p2p_from_slice :: "bytes \<Rightarrow> 'd anyhow"

record ('sc, 'pa, 'sg, 'pk, 'st, 'd) dkg_env = "('sc, 'pa, 'sg, 'pk) gossip_env" +
  gennaro :: "('sc, 'st, 'd) gennaro"
  net_dkg_round :: "instant \<Rightarrow> string \<Rightarrow> metadata \<Rightarrow> dkg_round_msg \<Rightarrow> unit anyhow \<times> nat"
  wakeups :: "string \<Rightarrow> u32 \<Rightarrow> instant \<Rightarrow> (node \<Rightarrow> node) list"

section \<open>Definitions\<close>

subsection \<open>The handler\<close>

definition buffer_round :: "dkg_round_msg \<Rightarrow> bytes \<Rightarrow> node \<Rightarrow> node" where
  "buffer_round msg p2p s =
     (let ses = (case hm_get (dkg_sessions s) (dm_session_id msg) of Some x \<Rightarrow> x | None \<Rightarrow> empty_session)
      in s\<lparr>dkg_sessions := hm_insert (dm_session_id msg)
             (record_round (dm_round msg) (dm_from_index msg) (dm_broadcast msg) p2p ses) (dkg_sessions s)\<rparr>)"

definition dkg_round_handler ::
    "'y gate_env_scheme \<Rightarrow> metadata \<Rightarrow> dkg_round_msg \<Rightarrow> node \<Rightarrow> (status + unit) \<times> node" where
  "dkg_round_handler E m msg s =
     sbind (authenticate E (node_cfg s) ''DkgRound'' m) (\<lambda>_.
     sbind (\<lambda>s. (if dm_p2p msg = [] then Inr []
                 else map_err (\<lambda>_. (Internal, ''p2p decrypt failed''))
                        (ecies_decrypt E (private_key (signing_key s)) (dm_p2p msg)), s)) (\<lambda>p2p s.
       (Inr (), buffer_round msg p2p s))) s"

subsection \<open>The driver\<close>

definition dkg_ser :: "('sc, 'st, 'd) gennaro \<Rightarrow> 'd \<Rightarrow> bytes anyhow" where
  "dkg_ser G v = map_err (\<lambda>e. ''dkg serialize failed: '' @ e) (data_to_vec G v)"

definition dkg_de :: "(bytes \<Rightarrow> 'd anyhow) \<Rightarrow> bytes \<Rightarrow> 'd anyhow" where
  "dkg_de from_slice b = map_err (\<lambda>e. ''dkg deserialize failed: '' @ e) (from_slice b)"

definition session_msgs :: "string \<Rightarrow> u32 \<Rightarrow> node \<Rightarrow> (u32, bytes \<times> bytes) hash_map option" where
  "session_msgs sid r s = Option.bind (hm_get (dkg_sessions s) sid) (\<lambda>ses. hm_get (rounds ses) r)"

definition round_full :: "u32 list \<Rightarrow> (u32, bytes \<times> bytes) hash_map \<Rightarrow> bool" where
  "round_full expected msgs \<longleftrightarrow> list_all (\<lambda>i. hm_get msgs i \<noteq> None) expected"

definition round_ready :: "string \<Rightarrow> u32 \<Rightarrow> u32 list \<Rightarrow> node \<Rightarrow> (u32, bytes \<times> bytes) hash_map option" where
  "round_ready sid r expected s =
     (case session_msgs sid r s of
        Some msgs \<Rightarrow> if round_full expected msgs then Some msgs else None
      | None \<Rightarrow> None)"

text \<open>The loop of \<open>await_round\<close>, over the wake-ups before its deadline.\<close>

fun await_loop ::
    "string \<Rightarrow> u32 \<Rightarrow> u32 list \<Rightarrow> (node \<Rightarrow> node) list \<Rightarrow> node \<Rightarrow> (u32, bytes \<times> bytes) hash_map option \<times> node" where
  "await_loop sid r expected [] s = (round_ready sid r expected s, s)"
| "await_loop sid r expected (f # fs) s =
     (case round_ready sid r expected s of
        Some msgs \<Rightarrow> (Some msgs, s)
      | None \<Rightarrow> await_loop sid r expected fs (f s))"

definition open_session :: "string \<Rightarrow> node \<Rightarrow> node" where
  "open_session sid s =
     (case hm_get (dkg_sessions s) sid of
        Some _ \<Rightarrow> s
      | None \<Rightarrow> s\<lparr>dkg_sessions := hm_insert sid empty_session (dkg_sessions s)\<rparr>)"

definition await_round ::
    "('sc, 'pa, 'sg, 'pk, 'st, 'd, 'y) dkg_env_scheme \<Rightarrow> string \<Rightarrow> u32 \<Rightarrow> u32 list \<Rightarrow> nat \<Rightarrow> node
       \<Rightarrow> (u32, bytes \<times> bytes) hash_map anyhow \<times> node" where
  "await_round E sid r expected timeout s =
     (let deadline = clock s + timeout in
      case await_loop sid r expected (wakeups E sid r (clock s)) (open_session sid s) of
        (Some msgs, s1) \<Rightarrow> (Inr msgs, s1)
      | (None, s1) \<Rightarrow>
          (Inl (''DKG session '' @ squoted sid @ '' round '' @ show_nat (unat r) @
                '' timed out waiting for peers''),
           tick (deadline - clock s1) s1))"

definition round_message ::
    "string \<Rightarrow> u32 \<Rightarrow> u32 \<Rightarrow> bytes \<Rightarrow> (u32, bytes) hash_map \<Rightarrow> session_peer \<Rightarrow> dkg_round_msg" where
  "round_message sid r own_id bcast p2p_per_peer peer =
     \<lparr> dm_session_id = sid, dm_round = r, dm_from_index = own_id, dm_broadcast = bcast,
       dm_p2p = (case hm_get p2p_per_peer (sp_id peer) of Some b \<Rightarrow> b | None \<Rightarrow> []) \<rparr>"

text \<open>\<open>send_dkg_round\<close>: its outcome and how long it took.\<close>

definition send_dkg_round ::
    "('sc, 'pa, 'sg, 'pk, 'st, 'd, 'y) dkg_env_scheme \<Rightarrow> string \<Rightarrow> dkg_round_msg \<Rightarrow> bytes \<Rightarrow> i64 \<Rightarrow> instant
       \<Rightarrow> unit anyhow \<times> nat" where
  "send_dkg_round E url msg sig ts now = net_dkg_round E now url (request_metadata E sig ts) msg"

text \<open>The sends run concurrently and their failures are only logged.\<close>

definition broadcast_round ::
    "('sc, 'pa, 'sg, 'pk, 'st, 'd, 'y) dkg_env_scheme \<Rightarrow> string \<Rightarrow> u32 \<Rightarrow> u32 \<Rightarrow> bytes \<Rightarrow> (u32, bytes) hash_map
       \<Rightarrow> session_peer list \<Rightarrow> node \<Rightarrow> unit anyhow \<times> node" where
  "broadcast_round E sid r own_id bcast p2p_per_peer peers s =
     (let ts = utc_now E (clock s) in
      case sign_request E (private_key (signing_key s)) ''DkgRound'' ts of
        Inl e \<Rightarrow> (Inl e, s)
      | Inr sig \<Rightarrow>
          (let sends = map (\<lambda>peer. send_dkg_round E (sp_grpc_url peer)
                         (round_message sid r own_id bcast p2p_per_peer peer) sig ts (clock s)) peers
           in (Inr (), tick (foldr max (map snd sends) 0) s)))"

fun encrypt_p2p ::
    "('sc, 'pa, 'sg, 'pk, 'st, 'd, 'y) dkg_env_scheme \<Rightarrow> (nat \<Rightarrow> 'd option) \<Rightarrow> session_peer list
       \<Rightarrow> (u32, bytes) hash_map \<Rightarrow> (u32, bytes) hash_map anyhow" where
  "encrypt_p2p E p2p [] enc = Inr enc"
| "encrypt_p2p E p2p (peer # peers) enc =
     rbind (ok_or (''missing round1 p2p for peer '' @ show_nat (unat (sp_id peer))) (p2p (unat (sp_id peer)))) (\<lambda>share.
     rbind (dkg_ser (gennaro E) share) (\<lambda>b.
     rbind (map_err (\<lambda>e. ''round1 p2p ecies for peer '' @ show_nat (unat (sp_id peer)) @ '': '' @ kms_error_to_string e)
              (ecies_encrypt E (sp_pubkey peer) b)) (\<lambda>ct.
       encrypt_p2p E p2p peers (hm_insert (sp_id peer) ct enc))))"

fun decode_round1 ::
    "('sc, 'st, 'd) gennaro \<Rightarrow> (u32, bytes \<times> bytes) hash_map \<Rightarrow> (nat \<Rightarrow> 'd option) \<times> (nat \<Rightarrow> 'd option)
       \<Rightarrow> ((nat \<Rightarrow> 'd option) \<times> (nat \<Rightarrow> 'd option)) anyhow" where
  "decode_round1 G [] maps = Inr maps"
| "decode_round1 G ((from, bcast, p2p) # msgs) (bmap, pmap) =
     rbind (dkg_de (broadcast_from_slice G 1) bcast) (\<lambda>b.
     rbind (dkg_de (p2p_from_slice G) p2p) (\<lambda>p.
       decode_round1 G msgs (bmap(unat from := Some b), pmap(unat from := Some p))))"

fun decode_echo ::
    "('sc, 'st, 'd) gennaro \<Rightarrow> u32 \<Rightarrow> (u32, bytes \<times> bytes) hash_map \<Rightarrow> (nat \<Rightarrow> 'd option) \<Rightarrow> (nat \<Rightarrow> 'd option) anyhow" where
  "decode_echo G r [] bmap = Inr bmap"
| "decode_echo G r ((from, bcast, _) # msgs) bmap =
     rbind (dkg_de (broadcast_from_slice G r) bcast) (\<lambda>b. decode_echo G r msgs (bmap(unat from := Some b)))"

text \<open>Rounds 2 to 4: broadcast, wait for every peer, collect with the own broadcast included.\<close>

definition echo_round ::
    "('sc, 'pa, 'sg, 'pk, 'st, 'd, 'y) dkg_env_scheme \<Rightarrow> string \<Rightarrow> u32 \<Rightarrow> u32 \<Rightarrow> 'd \<Rightarrow> session_peer list \<Rightarrow> nat \<Rightarrow> node
       \<Rightarrow> (nat \<Rightarrow> 'd option) anyhow \<times> node" where
  "echo_round E sid r own_id b peers timeout =
     sbind (\<lambda>s. (dkg_ser (gennaro E) b, s)) (\<lambda>bytes.
     sbind (broadcast_round E sid r own_id bytes hm_empty peers) (\<lambda>_.
     sbind (await_round E sid r (map sp_id peers) timeout) (\<lambda>msgs s.
       (decode_echo (gennaro E) r msgs ((\<lambda>_. None)(unat own_id := Some b)), s))))"

definition step_err :: "string \<Rightarrow> 'a anyhow \<Rightarrow> node \<Rightarrow> 'a anyhow \<times> node" where
  "step_err what r s = (map_err (\<lambda>e. what @ '': '' @ e) r, s)"

definition run_round1 ::
    "('sc, 'pa, 'sg, 'pk, 'st, 'd, 'y) dkg_env_scheme \<Rightarrow> string \<Rightarrow> 'st \<Rightarrow> session_peer list \<Rightarrow> nat \<Rightarrow> node
       \<Rightarrow> ('d \<times> 'st) anyhow \<times> node" where
  "run_round1 E sid participant peers timeout =
     (let own_id = word_of_nat (get_id (gennaro E) participant) in
      sbind (step_err ''round1'' (round1 (gennaro E) participant)) (\<lambda>((b1, p2p1), part1).
      sbind (\<lambda>s. (dkg_ser (gennaro E) b1, s)) (\<lambda>b1_bytes.
      sbind (\<lambda>s. (encrypt_p2p E p2p1 peers hm_empty, s)) (\<lambda>p2p_enc.
      sbind (broadcast_round E sid 1 own_id b1_bytes p2p_enc peers) (\<lambda>_.
      sbind (await_round E sid 1 (map sp_id peers) timeout) (\<lambda>r1.
      sbind (\<lambda>s. (decode_round1 (gennaro E) r1 (\<lambda>_. None, \<lambda>_. None), s)) (\<lambda>(bmap1, pmap1).
        step_err ''round2'' (round2 (gennaro E) part1 bmap1 pmap1))))))))"

definition run_session ::
    "('sc, 'pa, 'sg, 'pk, 'st, 'd, 'y) dkg_env_scheme \<Rightarrow> string \<Rightarrow> 'st \<Rightarrow> session_peer list \<Rightarrow> nat \<Rightarrow> node
       \<Rightarrow> ('sc \<times> bytes) anyhow \<times> node" where
  "run_session E sid participant peers timeout =
     (let own_id = word_of_nat (get_id (gennaro E) participant); G = gennaro E in
      sbind (run_round1 E sid participant peers timeout) (\<lambda>(b2, part2).
      sbind (echo_round E sid 2 own_id b2 peers timeout) (\<lambda>bmap2.
      sbind (step_err ''round3'' (round3 G part2 bmap2)) (\<lambda>(b3, part3).
      sbind (echo_round E sid 3 own_id b3 peers timeout) (\<lambda>bmap3.
      sbind (step_err ''round4'' (round4 G part3 bmap3)) (\<lambda>(b4, part4).
      sbind (echo_round E sid 4 own_id b4 peers timeout) (\<lambda>bmap4.
      sbind (step_err ''round5'' (round5 G part4 bmap4)) (\<lambda>part5.
      sbind (\<lambda>s. (ok_or ''no secret share after round5'' (get_secret_share G part5), s)) (\<lambda>share.
      sbind (\<lambda>s. (ok_or ''no public key after round5'' (get_public_key G part5), s)) (\<lambda>pk s.
        (Inr (share, pk), s\<lparr>dkg_sessions := hm_remove sid (dkg_sessions s)\<rparr>)))))))))))"

section \<open>Specification\<close>

text \<open>The five rounds on given message maps, without a network.\<close>

definition session_run ::
    "('sc, 'st, 'd) gennaro \<Rightarrow> 'st \<Rightarrow> (u32, bytes \<times> bytes) hash_map \<Rightarrow> (u32, bytes \<times> bytes) hash_map
       \<Rightarrow> (u32, bytes \<times> bytes) hash_map \<Rightarrow> (u32, bytes \<times> bytes) hash_map \<Rightarrow> ('sc \<times> bytes) anyhow" where
  "session_run G part m1 m2 m3 m4 =
     (let own = unat (word_of_nat (get_id G part) :: u32) in
      rbind (round1 G part) (\<lambda>((b1, _), part1).
      rbind (decode_round1 G m1 (\<lambda>_. None, \<lambda>_. None)) (\<lambda>(bmap, pmap).
      rbind (round2 G part1 bmap pmap) (\<lambda>(b2, part2).
      rbind (decode_echo G 2 m2 ((\<lambda>_. None)(own := Some b2))) (\<lambda>bmap2.
      rbind (round3 G part2 bmap2) (\<lambda>(b3, part3).
      rbind (decode_echo G 3 m3 ((\<lambda>_. None)(own := Some b3))) (\<lambda>bmap3.
      rbind (round4 G part3 bmap3) (\<lambda>(b4, part4).
      rbind (decode_echo G 4 m4 ((\<lambda>_. None)(own := Some b4))) (\<lambda>bmap4.
      rbind (round5 G part4 bmap4) (\<lambda>part5.
      rbind (ok_or [] (get_secret_share G part5)) (\<lambda>share.
      rbind (ok_or [] (get_public_key G part5)) (\<lambda>pk. Inr (share, pk)))))))))))))"

text \<open>An operation that takes at most a given time, and wake-ups that all come before the deadline of the round.\<close>

definition takes :: "nat \<Rightarrow> (node \<Rightarrow> 'a anyhow \<times> node) \<Rightarrow> bool" where
  "takes d m \<longleftrightarrow> (\<forall>s. clock (snd (m s)) \<le> clock s + d)"

definition wakes_by :: "('sc, 'pa, 'sg, 'pk, 'st, 'd, 'y) dkg_env_scheme \<Rightarrow> nat \<Rightarrow> bool" where
  "wakes_by E timeout \<longleftrightarrow> (\<forall>sid r t. \<forall>f \<in> set (wakeups E sid r t). \<forall>s. clock s \<le> t + timeout \<longrightarrow> clock (f s) \<le> t + timeout)"

section \<open>Lemmas\<close>

lemma step_err_Inr_iff: "step_err what r s = (Inr a, s') \<longleftrightarrow> r = Inr a \<and> s' = s"
  by (auto simp: step_err_def)

lemma round_ready_Some: "round_ready sid r expected s = Some msgs \<Longrightarrow>
    session_msgs sid r s = Some msgs \<and> round_full expected msgs"
  by (auto simp: round_ready_def split: option.splits if_splits)

lemma await_loop_full: "await_loop sid r expected fs s = (Some msgs, s') \<Longrightarrow> round_full expected msgs"
  by (induction sid r expected fs s rule: await_loop.induct)
    (auto dest: round_ready_Some split: option.splits)

lemma await_round_full:
  assumes "await_round E sid r expected timeout s = (Inr msgs, s')"
  shows "round_full expected msgs"
  using assms by (auto simp: await_round_def Let_def dest: await_loop_full split: prod.splits option.splits)

lemma echo_round_Inr:
  assumes "echo_round E sid r own b peers timeout s = (Inr bmap, s')"
  obtains msgs where "round_full (map sp_id peers) msgs"
    "decode_echo (gennaro E) r msgs ((\<lambda>_. None)(unat own := Some b)) = Inr bmap"
  using assms unfolding echo_round_def sbind_Inr_iff by (auto dest: await_round_full)

lemma run_round1_Inr:
  assumes "run_round1 E sid part peers timeout s = (Inr (b2, part2), s')"
  obtains b1 p2p1 part1 msgs bmap pmap where "round1 (gennaro E) part = Inr ((b1, p2p1), part1)"
    "round_full (map sp_id peers) msgs" "decode_round1 (gennaro E) msgs (\<lambda>_. None, \<lambda>_. None) = Inr (bmap, pmap)"
    "round2 (gennaro E) part1 bmap pmap = Inr (b2, part2)"
  using assms unfolding run_round1_def Let_def sbind_Inr_iff
  by (auto simp: step_err_Inr_iff sbind_Inr_iff dest!: await_round_full)

text \<open>
  What other tasks do while a session waits: any relation between node states that they respect,
  and that the driver's own bookkeeping respects, holds across a whole session.
\<close>

locale interference =
  fixes others :: "(node \<Rightarrow> node) set" and R :: "node \<Rightarrow> node \<Rightarrow> bool"
  assumes R_refl: "R s s"
    and R_trans: "R s s1 \<Longrightarrow> R s1 s2 \<Longrightarrow> R s s2"
    and others_R: "f \<in> others \<Longrightarrow> R s (f s)"
    and sessions_R: "R s (s\<lparr>dkg_sessions := x\<rparr>)"
    and tick_R: "R s (tick d s)"
begin

lemma sbind_R:
  assumes "R s (snd (m s))" "\<And>a s1. m s = (Inr a, s1) \<Longrightarrow> R s1 (snd (f a s1))"
  shows "R s (snd (sbind m f s))"
proof (cases "m s")
  case (Pair r s1)
  with assms show ?thesis by (cases r) (auto simp: sbind_def intro: R_trans)
qed

lemma await_loop_R: "set fs \<subseteq> others \<Longrightarrow> R s (snd (await_loop sid r expected fs s))"
proof (induction sid r expected fs s rule: await_loop.induct)
  case (2 sid r expected f fs s)
  then show ?case
    by (cases "round_ready sid r expected s") (auto intro: R_refl R_trans [OF others_R])
qed (simp add: R_refl)

lemma await_round_R:
  assumes "\<And>sid r t. set (wakeups E sid r t) \<subseteq> others"
  shows "R s (snd (await_round E sid r expected timeout s))"
proof -
  have "R s (open_session sid s)" by (simp add: open_session_def R_refl sessions_R split: option.split)
  with await_loop_R [OF assms]
  have R: "R s (snd (await_loop sid r expected (wakeups E sid r (clock s)) (open_session sid s)))"
    by (blast intro: R_trans)
  obtain q s1 where "await_loop sid r expected (wakeups E sid r (clock s)) (open_session sid s) = (q, s1)" by force
  with R show ?thesis
    by (cases q) (auto simp: await_round_def Let_def intro: R_trans [OF _ tick_R])
qed

lemma broadcast_round_R: "R s (snd (broadcast_round E sid r own b p peers s))"
  by (simp add: broadcast_round_def Let_def R_refl tick_R split: sum.split)

lemma echo_round_R:
  assumes "\<And>sid r t. set (wakeups E sid r t) \<subseteq> others"
  shows "R s (snd (echo_round E sid r own b peers timeout s))"
  unfolding echo_round_def
  by (intro sbind_R) (simp_all add: R_refl broadcast_round_R await_round_R [OF assms])

lemma run_round1_R:
  assumes "\<And>sid r t. set (wakeups E sid r t) \<subseteq> others"
  shows "R s (snd (run_round1 E sid part peers timeout s))"
  unfolding run_round1_def Let_def
  by (intro sbind_R; (split prod.split)?)
    (auto intro!: sbind_R simp: step_err_def R_refl broadcast_round_R await_round_R [OF assms] split: prod.split)

lemma run_session_R:
  assumes "\<And>sid r t. set (wakeups E sid r t) \<subseteq> others"
  shows "R s (snd (run_session E sid part peers timeout s))"
  unfolding run_session_def Let_def
  by (auto intro!: sbind_R simp: step_err_def R_refl sessions_R run_round1_R [OF assms] echo_round_R [OF assms]
      split: prod.split)

end

subsection \<open>Tasks that run beside a session\<close>

text \<open>Tasks that leave the share, the master and the identity of the node alone, such as the buffering
  of a round message and a caller's gossip; and tasks that may replace the share but keep a known
  master, such as another reshare session.\<close>

definition same_share :: "node \<Rightarrow> node \<Rightarrow> bool" where
  "same_share s s' \<longleftrightarrow> shard s' = shard s \<and> group_pubkey s' = group_pubkey s \<and> node_cfg s' = node_cfg s \<and>
     signing_key s' = signing_key s \<and> env_vars s' = env_vars s \<and> disk s' = disk s"

definition quiet_tasks :: "(node \<Rightarrow> node) set" where
  "quiet_tasks = {f. \<forall>s. same_share s (f s)}"

definition keeps_master :: "node \<Rightarrow> node \<Rightarrow> bool" where
  "keeps_master s s' \<longleftrightarrow> node_cfg s' = node_cfg s \<and> signing_key s' = signing_key s \<and>
     (\<forall>g. group_pubkey s = Some g \<longrightarrow> group_pubkey s' = Some g)"

definition steady_tasks :: "(node \<Rightarrow> node) set" where
  "steady_tasks = {f. \<forall>s. keeps_master s (f s)}"

interpretation quiet: interference quiet_tasks same_share
  by unfold_locales (auto simp: same_share_def quiet_tasks_def tick_def)

interpretation steady: interference steady_tasks keeps_master
  by unfold_locales (auto simp: keeps_master_def steady_tasks_def tick_def)

lemma same_share_keeps_master: "same_share s s' \<Longrightarrow> keeps_master s s'"
  by (simp add: same_share_def keeps_master_def)

lemma quiet_steady: "quiet_tasks \<subseteq> steady_tasks"
  by (auto simp: quiet_tasks_def steady_tasks_def intro: same_share_keeps_master)

lemma buffer_round_quiet: "buffer_round msg p2p \<in> quiet_tasks"
  by (simp add: quiet_tasks_def same_share_def buffer_round_def Let_def)

lemma register_caller_quiet: "register_caller now ctx si \<in> quiet_tasks"
  by (simp add: quiet_tasks_def same_share_def register_caller_def split: option.split)

subsection \<open>Messages that arrived early\<close>

lemma open_session_msgs: "session_msgs sid r s = Some m \<Longrightarrow> open_session sid s = s"
  by (auto simp: session_msgs_def open_session_def split: option.splits)

lemma round_ready_now:
  "session_msgs sid r s = Some m \<Longrightarrow> round_full expected m \<Longrightarrow> round_ready sid r expected s = Some m"
  by (simp add: round_ready_def)

lemma await_round_ready:
  assumes "session_msgs sid r s = Some m" "round_full expected m"
  shows "await_round E sid r expected timeout s = (Inr m, s)"
proof -
  have "await_loop sid r expected fs s = (Some m, s)" for fs
    using round_ready_now [OF assms] by (cases fs) simp_all
  then show ?thesis by (simp add: await_round_def Let_def open_session_msgs [OF assms(1)])
qed

lemma session_msgs_tick [simp]: "session_msgs sid r (tick d s) = session_msgs sid r s"
  by (simp add: session_msgs_def tick_def)

lemma tick_node [simp]:
  "signing_key (tick d s) = signing_key s" "node_cfg (tick d s) = node_cfg s" "shard (tick d s) = shard s"
  "group_pubkey (tick d s) = group_pubkey s" "dkg_sessions (tick d s) = dkg_sessions s"
  "peer_table (tick d s) = peer_table s" "disk (tick d s) = disk s" "env_vars (tick d s) = env_vars s"
  "pending_shards (tick d s) = pending_shards s" "sealed_blob (tick d s) = sealed_blob s" for s :: node
  by (simp_all add: tick_def)

text \<open>The node can sign round messages at any time.\<close>

definition can_sign :: "'y gate_env_scheme \<Rightarrow> string \<Rightarrow> node \<Rightarrow> bool" where
  "can_sign E rpc s \<longleftrightarrow> (\<forall>ts. is_ok (sign_request E (private_key (signing_key s)) rpc ts))"

lemma can_sign_tick [simp]: "can_sign E rpc (tick d s) = can_sign E rpc s"
  by (simp add: can_sign_def)

lemma broadcast_round_ok:
  assumes "can_sign E ''DkgRound'' s"
  obtains d where "broadcast_round E sid r own b p peers s = (Inr (), tick d s)"
proof -
  obtain sig where "sign_request E (private_key (signing_key s)) ''DkgRound'' (utc_now E (clock s)) = Inr sig"
    using assms by (metis can_sign_def is_ok_simps(1) sum.exhaust)
  then show thesis using that by (simp add: broadcast_round_def Let_def)
qed

lemma echo_round_ready:
  assumes "can_sign E ''DkgRound'' s" "is_ok (data_to_vec (gennaro E) b)" "session_msgs sid r s = Some m"
    "round_full (map sp_id peers) m" "decode_echo (gennaro E) r m ((\<lambda>_. None)(unat own := Some b)) = Inr bmap"
  obtains d where "echo_round E sid r own b peers timeout s = (Inr bmap, tick d s)"
proof -
  obtain v where v: "data_to_vec (gennaro E) b = Inr v" using assms(2) by (cases "data_to_vec (gennaro E) b") auto
  obtain d where d: "broadcast_round E sid r own v hm_empty peers s = (Inr (), tick d s)"
    using broadcast_round_ok [OF assms(1)] .
  have "await_round E sid r (map sp_id peers) timeout (tick d s) = (Inr m, tick d s)"
    by (rule await_round_ready) (simp_all add: assms(3,4))
  with that v d assms(5) show thesis by (simp add: echo_round_def sbind_def dkg_ser_def)
qed

subsection \<open>Encrypted shares\<close>

lemma encrypt_p2p_other:
  "encrypt_p2p E p2p peers enc0 = Inr enc \<Longrightarrow> i \<notin> set (map sp_id peers) \<Longrightarrow> hm_get enc i = hm_get enc0 i"
  by (induction peers arbitrary: enc0) (auto simp: rbind_Inr_iff)

lemma encrypt_p2p_get:
  assumes "encrypt_p2p E p2p peers enc0 = Inr enc" "peer \<in> set peers" "distinct (map sp_id peers)"
    "p2p (unat (sp_id peer)) = Some share" "data_to_vec (gennaro E) share = Inr b"
  shows "\<exists>ct. hm_get enc (sp_id peer) = Some ct \<and> ecies_enc E (sp_pubkey peer) b = Inr ct"
  using assms(1-3)
proof (induction peers arbitrary: enc0)
  case (Cons x xs)
  show ?case
  proof (cases "x = peer")
    case True
    with Cons.prems assms(4,5) obtain ct where ct: "ecies_enc E (sp_pubkey peer) b = Inr ct"
      "encrypt_p2p E p2p xs (hm_insert (sp_id peer) ct enc0) = Inr enc"
      by (auto simp: rbind_Inr_iff dkg_ser_def ecies_encrypt_def)
    moreover have "sp_id peer \<notin> set (map sp_id xs)" using Cons.prems(3) True by simp
    ultimately show ?thesis using encrypt_p2p_other [OF ct(2)] by auto
  next
    case False
    with Cons show ?thesis by (auto simp: rbind_Inr_iff)
  qed
qed simp

lemma run_session_early:
  assumes run: "session_run (gennaro E) part m1 m2 m3 m4 = Inr (share, pk)"
    and msgs: "session_msgs sid 1 s = Some m1" "session_msgs sid 2 s = Some m2" "session_msgs sid 3 s = Some m3"
      "session_msgs sid 4 s = Some m4"
    and full: "\<forall>m \<in> {m1, m2, m3, m4}. round_full (map sp_id peers) m"
    and sign: "can_sign E ''DkgRound'' s" and ser: "\<forall>v. is_ok (data_to_vec (gennaro E) v)"
    and p2p: "\<forall>b1 p2p1 part1. round1 (gennaro E) part = Inr ((b1, p2p1), part1) \<longrightarrow>
      is_ok (encrypt_p2p E p2p1 peers hm_empty)"
  shows "\<exists>s'. run_session E sid part peers timeout s = (Inr (share, pk), s')"
proof -
  let ?G = "gennaro E" and ?own = "word_of_nat (get_id (gennaro E) part) :: u32"
  from run obtain b1 p2p1 part1 bmap pmap b2 part2 bmap2 b3 part3 bmap3 b4 part4 bmap4 part5 where
    g: "round1 ?G part = Inr ((b1, p2p1), part1)" "decode_round1 ?G m1 (\<lambda>_. None, \<lambda>_. None) = Inr (bmap, pmap)"
      "round2 ?G part1 bmap pmap = Inr (b2, part2)"
      "decode_echo ?G 2 m2 ((\<lambda>_. None)(unat ?own := Some b2)) = Inr bmap2" "round3 ?G part2 bmap2 = Inr (b3, part3)"
      "decode_echo ?G 3 m3 ((\<lambda>_. None)(unat ?own := Some b3)) = Inr bmap3" "round4 ?G part3 bmap3 = Inr (b4, part4)"
      "decode_echo ?G 4 m4 ((\<lambda>_. None)(unat ?own := Some b4)) = Inr bmap4" "round5 ?G part4 bmap4 = Inr part5"
      "get_secret_share ?G part5 = Some share" "get_public_key ?G part5 = Some pk"
    by (auto simp: session_run_def Let_def rbind_Inr_iff)
  have full2: "round_full (map sp_id peers) m2" and full3: "round_full (map sp_id peers) m3"
    and full4: "round_full (map sp_id peers) m4" using full by simp_all
  obtain enc where enc: "encrypt_p2p E p2p1 peers hm_empty = Inr enc"
    using p2p g(1) by (metis is_ok_simps(1) sum.exhaust)
  obtain v where v: "data_to_vec ?G b1 = Inr v" using ser by (metis is_ok_simps(1) sum.exhaust)
  obtain d where d: "broadcast_round E sid 1 ?own v enc peers s = (Inr (), tick d s)"
    using broadcast_round_ok [OF sign] .
  have "await_round E sid 1 (map sp_id peers) timeout (tick d s) = (Inr m1, tick d s)"
    using msgs(1) full by (intro await_round_ready) simp_all
  with g(1-3) enc v d have 1: "run_round1 E sid part peers timeout s = (Inr (b2, part2), tick d s)"
    by (simp add: run_round1_def Let_def sbind_def step_err_def dkg_ser_def)
  obtain d2 where 2: "echo_round E sid 2 ?own b2 peers timeout (tick d s) = (Inr bmap2, tick d2 (tick d s))"
    by (rule echo_round_ready [OF _ _ _ full2 g(4), of "tick d s"]) (use sign ser msgs in simp_all)
  obtain d3 where 3: "echo_round E sid 3 ?own b3 peers timeout (tick d2 (tick d s)) = (Inr bmap3, tick d3 (tick d2 (tick d s)))"
    by (rule echo_round_ready [OF _ _ _ full3 g(6), of "tick d2 (tick d s)"]) (use sign ser msgs in simp_all)
  obtain d4 where 4: "echo_round E sid 4 ?own b4 peers timeout (tick d3 (tick d2 (tick d s))) =
      (Inr bmap4, tick d4 (tick d3 (tick d2 (tick d s))))"
    by (rule echo_round_ready [OF _ _ _ full4 g(8), of "tick d3 (tick d2 (tick d s))"]) (use sign ser msgs in simp_all)
  from 1 2 3 4 g show ?thesis by (simp add: run_session_def Let_def sbind_def step_err_def)
qed

subsection \<open>How long a session takes\<close>

lemma takes_now: "takes 0 (\<lambda>s. (r s, s))" "takes 0 (step_err what x)"
  by (simp_all add: takes_def step_err_def)

lemma takes_sbind:
  assumes "takes a m" "\<And>x. takes b (f x)"
  shows "takes (a + b) (sbind m f)"
  unfolding takes_def
proof
  fix s
  obtain r s1 where m: "m s = (r, s1)" by force
  with assms(1) have s1: "clock s1 \<le> clock s + a" unfolding takes_def by (metis snd_conv)
  show "clock (snd (sbind m f s)) \<le> clock s + (a + b)"
  proof (cases r)
    case (Inr x)
    have "clock (snd (f x s1)) \<le> clock s1 + b" using assms(2) by (simp add: takes_def)
    with s1 m Inr show ?thesis by (simp add: sbind_def)
  qed (use m s1 in \<open>simp add: sbind_def\<close>)
qed

lemmas takes_step = takes_sbind [OF takes_now(1), simplified] takes_sbind [OF takes_now(2), simplified]

lemma takes_await:
  assumes "wakes_by E timeout"
  shows "takes timeout (await_round E sid r expected timeout)"
  unfolding takes_def
proof
  fix s :: node
  have loop: "clock (snd (await_loop sid r expected fs s1)) \<le> clock s + timeout"
    if "set fs \<subseteq> set (wakeups E sid r (clock s))" "clock s1 \<le> clock s + timeout" for fs s1
    using that
  proof (induction fs arbitrary: s1)
    case (Cons f fs)
    then have "clock (f s1) \<le> clock s + timeout" using assms unfolding wakes_by_def by auto
    with Cons show ?case by (simp split: option.split)
  qed simp
  have "clock (open_session sid s) = clock s" by (simp add: open_session_def split: option.split)
  then have "clock (snd (await_loop sid r expected (wakeups E sid r (clock s)) (open_session sid s))) \<le> clock s + timeout"
    by (intro loop) simp_all
  then show "clock (snd (await_round E sid r expected timeout s)) \<le> clock s + timeout"
    by (auto simp: await_round_def Let_def tick_def split: prod.splits option.splits)
qed

lemma takes_broadcast:
  assumes "\<forall>t url m msg. snd (net_dkg_round E t url m msg) \<le> L"
  shows "takes L (broadcast_round E sid r own b p2p peers)"
proof -
  have "foldr max (map snd (map (\<lambda>peer. send_dkg_round E (sp_grpc_url peer) (msg peer) sig ts t) ps)) 0 \<le> L" for msg sig ts t ps
    using assms by (induction ps) (simp_all add: send_dkg_round_def)
  then show ?thesis by (auto simp: takes_def broadcast_round_def Let_def tick_def split: sum.split)
qed

lemma takes_echo:
  assumes "\<forall>t url m msg. snd (net_dkg_round E t url m msg) \<le> L" "wakes_by E timeout"
  shows "takes (L + timeout) (echo_round E sid r own b peers timeout)"
  unfolding echo_round_def
  by (intro takes_step takes_sbind [OF takes_broadcast [OF assms(1)]]
      takes_sbind [OF takes_await [OF assms(2)] takes_now(1), simplified])

lemma takes_round1:
  assumes "\<forall>t url m msg. snd (net_dkg_round E t url m msg) \<le> L" "wakes_by E timeout"
  shows "takes (L + timeout) (run_round1 E sid part peers timeout)"
proof -
  have wait: "takes timeout (sbind (await_round E sid 1 expected timeout) (\<lambda>r1.
      sbind (\<lambda>s. (decode_round1 (gennaro E) r1 z, s)) (\<lambda>(x, y). step_err ''round2'' (g x y))))" for expected z g
    by (rule takes_sbind [OF takes_await [OF assms(2)], where b = 0, simplified])
      (auto intro!: takes_step takes_now split: prod.split)
  show ?thesis
    unfolding run_round1_def Let_def
    by (auto intro!: takes_step takes_sbind [OF takes_broadcast [OF assms(1)]] wait split: prod.split)
qed

lemma takes_session:
  assumes "\<forall>t url m msg. snd (net_dkg_round E t url m msg) \<le> L" "wakes_by E timeout"
  shows "takes (4 * (L + timeout)) (run_session E sid part peers timeout)"
proof -
  have end': "takes 0 (sbind (step_err ''round5'' x) (\<lambda>p. sbind (\<lambda>s. (u p, s)) (\<lambda>share. sbind (\<lambda>s. (v p, s)) (\<lambda>pk s.
      (Inr (share, pk), s\<lparr>dkg_sessions := hm_remove sid (dkg_sessions s)\<rparr>)))))" for x u v
    by (intro takes_step) (simp add: takes_def)
  note echo = takes_sbind [OF takes_echo [OF assms]]
  note last = echo [OF end', simplified]
  have "4 * (L + timeout) = (L + timeout) + ((L + timeout) + ((L + timeout) + (L + timeout)))" by simp
  then show ?thesis
    unfolding run_session_def Let_def
    by (simp only:) (auto intro!: takes_sbind [OF takes_round1 [OF assms]] echo takes_step split: prod.split
      intro: last)
qed

section \<open>A concrete session\<close>

text \<open>A participant whose rounds always accept, with the data of one byte, and a second node whose
  messages are in the buffers, or come with the first wake-up.\<close>

definition demo_gennaro :: "(u8, nat, u8) gennaro" where
  "demo_gennaro =
     \<lparr> secret_new = (\<lambda>i t n. Inr i), with_secret = (\<lambda>i t n x ids k. Inr i), refresh_new = (\<lambda>i t n. Inr i),
       get_id = (\<lambda>p. p), round1 = (\<lambda>p. Inr ((1, \<lambda>i. Some 3), p)), round2 = (\<lambda>p bm pm. Inr (2, p)),
       round3 = (\<lambda>p bm. Inr (3, p)), round4 = (\<lambda>p bm. Inr (4, p)), round5 = (\<lambda>p bm. Inr p),
       get_secret_share = (\<lambda>p. Some 7), get_public_key = (\<lambda>p. Some [7]), data_to_vec = (\<lambda>d. Inr [d]),
       broadcast_from_slice = (\<lambda>r b. case b of [x] \<Rightarrow> Inr x | _ \<Rightarrow> Inl ''bad data''),
       p2p_from_slice = (\<lambda>b. case b of [x] \<Rightarrow> Inr x | _ \<Rightarrow> Inl ''bad data'') \<rparr>"

definition demo_msg :: "string \<Rightarrow> u32 \<Rightarrow> dkg_round_msg" where
  "demo_msg sid r = \<lparr> dm_session_id = sid, dm_round = r, dm_from_index = 2, dm_broadcast = [4], dm_p2p = [] \<rparr>"

definition demo_dkg :: "(u8, u8 \<times> u8 \<times> bytes, u8 \<times> bytes, u8, nat, u8) dkg_env" where
  "demo_dkg = gossip_env.extend (demo_gossip []) (dkg_env.fields demo_gennaro (\<lambda>t url m msg. (Inr (), 0))
     (\<lambda>sid r t. [buffer_round (demo_msg sid r) [5]]))"

definition demo_peer2 :: session_peer where
  "demo_peer2 = \<lparr> sp_id = 2, sp_grpc_url = ''http://b'', sp_pubkey = demo_pk demo_sk2, sp_epoch = 5 \<rparr>"

definition demo_buffered :: node where
  "demo_buffered = foldl (\<lambda>s r. buffer_round (demo_msg ''reshare'' r) [5] s) demo_fresh [1, 2, 3, 4]"

definition demo_map :: "(u32, bytes \<times> bytes) hash_map" where
  "demo_map = hm_insert 2 ([4], [5]) hm_empty"

lemma demo_dkg_simps [simp]:
  "gennaro demo_dkg = demo_gennaro" "net_dkg_round demo_dkg = (\<lambda>t url m msg. (Inr (), 0))"
  "wakeups demo_dkg = (\<lambda>sid r t. [buffer_round (demo_msg sid r) [5]])"
  "k256_verifying_key demo_dkg = k256_verifying_key demo_derive"
  "k256_sign_prehash demo_dkg = k256_sign_prehash demo_derive" "keccak256 demo_dkg = keccak256 demo_derive"
  "utc_now demo_dkg = utc_now demo_derive" "ecies_enc demo_dkg = ecies_enc demo_derive"
  "hex_encode demo_dkg = hex_encode demo_derive" "blsful demo_dkg = demo_bls"
  by (simp_all add: demo_dkg_def gossip_env.defs dkg_env.defs demo_gossip_def derive_env.defs demo_derive_def
      demo_derive0_def gate_env.defs)

lemma demo_rounds: "session_run (gennaro demo_dkg) 1 demo_map demo_map demo_map demo_map = Inr (7, [7])"
  by (simp add: session_run_def demo_gennaro_def demo_map_def hm_insert_def hm_empty_def dkg_de_def)

lemma demo_buffers:
  "session_msgs ''reshare'' 1 demo_buffered = Some demo_map" "session_msgs ''reshare'' 2 demo_buffered = Some demo_map"
  "session_msgs ''reshare'' 3 demo_buffered = Some demo_map" "session_msgs ''reshare'' 4 demo_buffered = Some demo_map"
  by (simp_all add: session_msgs_def demo_buffered_def buffer_round_def demo_msg_def record_round_def Let_def
      empty_session_def demo_map_def)

lemma demo_ecies2: "ecies_enc demo_derive (demo_pk demo_sk2) m = Inr (demo_pk demo_sk2 @ m)"
  by (simp add: demo_derive_def demo_derive0_def demo_gate_def demo_chain_def demo_seal_def demo_crates_def
      crates.defs seal_crates.defs chain_env.defs gate_env.defs demo_pk_def demo_sk2_def)

lemma demo_can_sign:
  assumes "private_key (signing_key s) = demo_sk"
  shows "can_sign demo_dkg rpc s"
  unfolding can_sign_def
proof
  fix ts
  have "\<exists>sig. sign_request demo_dkg demo_sk rpc ts = Inr sig"
    by (simp add: sign_request_def sign_bytes_def Let_def demo_derive_simps demo_sk_def demo_hash_def)
  with assms show "is_ok (sign_request demo_dkg (private_key (signing_key s)) rpc ts)" by auto
qed

lemma demo_session_hyps:
  "round_full (map sp_id [demo_peer2]) demo_map"
  "is_ok (data_to_vec demo_gennaro v)" "is_ok (encrypt_p2p demo_dkg (\<lambda>i. Some 3) [demo_peer2] hm_empty)"
  "round1 demo_gennaro 1 = Inr ((1, \<lambda>i. Some 3), 1)" "signing_key demo_buffered = signing_key demo_fresh"
  by (simp_all add: round_full_def demo_map_def demo_peer2_def demo_gennaro_def dkg_ser_def ecies_encrypt_def
      demo_ecies2 demo_buffered_def buffer_round_def Let_def)

lemma demo_session: "\<exists>s'. run_session demo_dkg ''reshare'' 1 [demo_peer2] 60 demo_buffered = (Inr (7, [7]), s')"
  by (rule run_session_early [OF demo_rounds demo_buffers]) (use demo_session_hyps demo_can_sign in simp_all)

section \<open>Properties\<close>

text \<open>C15. A session that returns a share has run gennaro's five rounds on complete sets of messages: the
  result is what the rounds give on four message maps each of which holds a message of every
  peer of the session (the barrier never lets a round start early), and the session's buffers
  are dropped.\<close>

theorem session_refines:
  assumes "run_session E sid part peers timeout s = (Inr (share, pk), s')"
  shows "\<exists>m1 m2 m3 m4. (\<forall>m \<in> {m1, m2, m3, m4}. round_full (map sp_id peers) m) \<and>
    session_run (gennaro E) part m1 m2 m3 m4 = Inr (share, pk) \<and> hm_get (dkg_sessions s') sid = None"
proof -
  let ?G = "gennaro E" and ?own = "word_of_nat (get_id (gennaro E) part) :: u32"
  from assms obtain b2 part2 bmap2 b3 part3 bmap3 b4 part4 bmap4 part5 s1 s2 s3 s4 s5 s6 s7 where
    1: "run_round1 E sid part peers timeout s = (Inr (b2, part2), s1)" and
    2: "echo_round E sid 2 ?own b2 peers timeout s1 = (Inr bmap2, s2)" "round3 ?G part2 bmap2 = Inr (b3, part3)" and
    3: "echo_round E sid 3 ?own b3 peers timeout s3 = (Inr bmap3, s4)" "round4 ?G part3 bmap3 = Inr (b4, part4)" and
    4: "echo_round E sid 4 ?own b4 peers timeout s5 = (Inr bmap4, s6)" "round5 ?G part4 bmap4 = Inr part5" and
    5: "get_secret_share ?G part5 = Some share" "get_public_key ?G part5 = Some pk" and
    s': "s' = s7\<lparr>dkg_sessions := hm_remove sid (dkg_sessions s7)\<rparr>"
    unfolding run_session_def Let_def sbind_Inr_iff
    by (clarsimp simp: step_err_Inr_iff sbind_Inr_iff)
  from 1 obtain b1 p2p1 part1 m1 bmap pmap where r1: "round1 ?G part = Inr ((b1, p2p1), part1)"
    "round_full (map sp_id peers) m1" "decode_round1 ?G m1 (\<lambda>_. None, \<lambda>_. None) = Inr (bmap, pmap)"
    "round2 ?G part1 bmap pmap = Inr (b2, part2)" by (rule run_round1_Inr)
  from 2(1) obtain m2 where m2: "round_full (map sp_id peers) m2"
    "decode_echo ?G 2 m2 ((\<lambda>_. None)(unat ?own := Some b2)) = Inr bmap2" by (rule echo_round_Inr)
  from 3(1) obtain m3 where m3: "round_full (map sp_id peers) m3"
    "decode_echo ?G 3 m3 ((\<lambda>_. None)(unat ?own := Some b3)) = Inr bmap3" by (rule echo_round_Inr)
  from 4(1) obtain m4 where m4: "round_full (map sp_id peers) m4"
    "decode_echo ?G 4 m4 ((\<lambda>_. None)(unat ?own := Some b4)) = Inr bmap4" by (rule echo_round_Inr)
  have "session_run ?G part m1 m2 m3 m4 = Inr (share, pk)"
    using r1 m2 m3 m4 2(2) 3(2) 4(2) 5 by (simp add: session_run_def Let_def)
  with r1(2) m2(1) m3(1) m4(1) s' show ?thesis by auto
qed

theorem session_refines_witness:
  "\<exists>s' m1 m2 m3 m4. run_session demo_dkg ''reshare'' 1 [demo_peer2] 60 demo_buffered = (Inr (7, [7]), s') \<and>
     session_run demo_gennaro 1 m1 m2 m3 m4 = Inr (7, [7])"
proof -
  obtain s' where c: "run_session demo_dkg ''reshare'' 1 [demo_peer2] 60 demo_buffered = (Inr (7, [7]), s')"
    using demo_session by blast
  from session_refines [OF c] c show ?thesis by (simp only: demo_dkg_simps) blast
qed

text \<open>C16. A session ends: if a send takes at most \<open>L\<close> and the other tasks that wake it do so before the round's
  deadline, it returns a share or an error after at most four sends and four round timeouts, however
  many peers are silent.\<close>

theorem session_ends:
  assumes "\<forall>t url m msg. snd (net_dkg_round E t url m msg) \<le> L" "wakes_by E timeout"
  shows "clock (snd (run_session E sid part peers timeout s)) \<le> clock s + 4 * (L + timeout)"
  using takes_session [OF assms] by (simp add: takes_def)

theorem session_ends_witness:
  "clock (snd (run_session demo_dkg ''reshare'' 1 [demo_peer2] 60 demo_buffered)) \<le> clock demo_buffered + 240"
proof -
  have "wakes_by demo_dkg 60" by (simp add: wakes_by_def demo_dkg_def gossip_env.defs dkg_env.defs buffer_round_def Let_def)
  then show ?thesis using session_ends [of demo_dkg 0 60 "''reshare''" 1 "[demo_peer2]" demo_buffered] by simp
qed

text \<open>A message is never lost because it came early: when the messages of all four rounds are in the
  buffers and the rounds accept them, the session returns their result, whatever happens in the
  meantime, as long as the node can sign, its data can be serialised, and the peers' keys can be
  encrypted to.\<close>

theorem session_completes:
  assumes run: "session_run (gennaro E) part m1 m2 m3 m4 = Inr (share, pk)"
    and msgs: "session_msgs sid 1 s = Some m1" "session_msgs sid 2 s = Some m2" "session_msgs sid 3 s = Some m3"
      "session_msgs sid 4 s = Some m4"
    and full: "\<forall>m \<in> {m1, m2, m3, m4}. round_full (map sp_id peers) m"
    and sign: "can_sign E ''DkgRound'' s" and ser: "\<forall>v. is_ok (data_to_vec (gennaro E) v)"
    and p2p: "\<forall>b1 p2p1 part1. round1 (gennaro E) part = Inr ((b1, p2p1), part1) \<longrightarrow>
      is_ok (encrypt_p2p E p2p1 peers hm_empty)"
  shows "\<exists>s'. run_session E sid part peers timeout s = (Inr (share, pk), s')"
  using assms by (rule run_session_early)

theorem session_completes_witness:
  "\<exists>s'. run_session demo_dkg ''reshare'' 1 [demo_peer2] 60 demo_buffered = (Inr (7, [7]), s')"
  by (rule session_completes [OF demo_rounds demo_buffers]) (use demo_session_hyps demo_can_sign in simp_all)

text \<open>C37. A round message arrives as it was sent: the message the driver builds for a peer, when the peer's
  handler accepts it, is buffered under the sender's index with the sender's broadcast and, in
  round 1, exactly the serialised share the sender made for that peer, which travelled encrypted
  to the peer's key.\<close>

theorem round_message_arrives:
  assumes "ecies_ok E" "\<forall>k m. ecies_enc E k m \<noteq> Inr []"
    and "encrypt_p2p E0 p2p peers hm_empty = Inr enc" "ecies_enc E0 = ecies_enc E"
    and "peer \<in> set peers" "distinct (map sp_id peers)" "p2p (unat (sp_id peer)) = Some share"
    and "data_to_vec (gennaro E0) share = Inr b"
    and "k256_verifying_key E (private_key (signing_key s)) = Inr (sp_pubkey peer)"
    and "proc_inv E (node_cfg s) s"
    and "dkg_round_handler E m (round_message sid r own bcast enc peer) s = (Inr (), s')"
  shows "\<exists>msgs. session_msgs sid r s' = Some msgs \<and> hm_get msgs own = Some (bcast, b)"
proof -
  obtain ct where ct: "hm_get enc (sp_id peer) = Some ct" "ecies_enc E (sp_pubkey peer) b = Inr ct"
    using encrypt_p2p_get [OF assms(3,5-8)] assms(4) by auto
  with assms(2) have msg: "dm_p2p (round_message sid r own bcast enc peer) = ct" "ct \<noteq> []"
    by (auto simp: round_message_def)
  obtain ctx s1 where a: "authenticate E (node_cfg s) ''DkgRound'' m s = (Inr ctx, s1)"
    using assms(11) by (auto simp: dkg_round_handler_def sbind_Inr_iff)
  then have key: "signing_key s1 = signing_key s"
    using authenticate_ok [OF assms(10) a] gate_more_node(2) by blast
  have "ecies_dec E (private_key (signing_key s1)) ct = Inr b"
    using assms(1,9) ct(2) unfolding key ecies_ok_def by blast
  then have "s' = buffer_round (round_message sid r own bcast enc peer) b s1"
    using assms(11) a msg by (simp add: dkg_round_handler_def sbind_def ecies_decrypt_def)
  then show ?thesis
    by (simp add: session_msgs_def buffer_round_def round_message_def Let_def record_round_get)
qed

theorem round_message_arrives_witness:
  "\<exists>m enc s' msgs. dkg_round_handler demo_derive m (round_message ''sid'' 1 1 [9] enc demo_peer2) demo_node2 = (Inr (), s') \<and>
     session_msgs ''sid'' 1 s' = Some msgs \<and> hm_get msgs 1 = Some ([9], [3])"
proof -
  obtain sig s1 where a: "authenticate demo_derive demo_config ''DkgRound'' (request_metadata demo_derive sig 0) demo_node2
    = (Inr demo_ctx, s1)" "gate_proc.more s1 = gate_proc.more demo_node2" using demo_authenticates2 by blast
  have enc: "encrypt_p2p demo_dkg (\<lambda>i. Some 3) [demo_peer2] hm_empty = Inr (hm_insert 2 (demo_pk demo_sk2 @ [3]) hm_empty)"
    by (simp add: demo_peer2_def demo_gennaro_def dkg_ser_def ecies_encrypt_def demo_ecies2)
  let ?msg = "round_message ''sid'' 1 1 [9] (hm_insert 2 (demo_pk demo_sk2 @ [3]) hm_empty) demo_peer2"
  have key: "k256_verifying_key demo_derive demo_sk2 = Inr (demo_pk demo_sk2)"
    by (simp add: demo_derive_simps demo_sk2_def)
  have "ecies_dec demo_derive demo_sk2 (demo_pk demo_sk2 @ [3]) = Inr [3]"
    using demo_derive_crates(3) key demo_ecies2 unfolding ecies_ok_def by blast
  then have h: "\<exists>s'. dkg_round_handler demo_derive (request_metadata demo_derive sig 0) ?msg demo_node2 = (Inr (), s')"
    using a(1) gate_more_node(2) [OF a(2)]
    by (simp add: dkg_round_handler_def sbind_def demo_node2_def demo_node_simps round_message_def demo_peer2_def
        ecies_decrypt_def)
  then obtain s' where s': "dkg_round_handler demo_derive (request_metadata demo_derive sig 0) ?msg demo_node2 = (Inr (), s')" ..
  have nonempty: "\<forall>k m. ecies_enc demo_derive k m \<noteq> Inr []"
    by (auto simp: demo_derive_def demo_derive0_def demo_gate_def demo_chain_def demo_seal_def demo_crates_def
        crates.defs seal_crates.defs chain_env.defs gate_env.defs)
  have inv: "proc_inv demo_derive (node_cfg demo_node2) demo_node2"
    unfolding demo_node2_def by (rule demo_node_inv)
  have "\<exists>msgs. session_msgs ''sid'' 1 s' = Some msgs \<and> hm_get msgs 1 = Some ([9], [3])"
    by (rule round_message_arrives [OF demo_derive_crates(3) nonempty enc _ _ _ refl _ _ inv s'])
      (use key in \<open>simp_all add: demo_gennaro_def demo_node2_def demo_node_simps demo_peer2_def\<close>)
  with s' show ?thesis by blast
qed

end
