(* ===== verification/Assign.thy ===== *)
theory Assign
  imports Dkg
begin

text \<open>
  The assignment of initial shards: \<open>init_start_node\<close>, \<open>join_cluster\<close> and \<open>request_shard_from_peer\<close>
  of \<open>src/init.rs\<close> and the handlers \<open>RequestShard\<close> and \<open>GetShardContribution\<close> of \<open>src/grpc.rs\<close>.
  What a seed answers is a field of \<open>init_env\<close>, and so is what the other tasks of the process do
  while this one sleeps. Shown: who gets which shard, what a join outcome says about the seeds,
  and that an adopted shard is the one a member signed for this node.
\<close>

record encrypted_shard =
  es_ciphertext :: bytes
  es_shard_index :: u32
  es_signature :: bytes

text \<open>The answer of a seed: no connection, a gRPC status, or a shard.\<close>

datatype seed_reply = NoConnection string | RpcStatus grpc_code string | ShardReply encrypted_shard

datatype seed_error = Unreachable string | Declined string

datatype join_result = Joined | NoSeedReachable | SeedReachableDeclined

record reshare_request =
  rr_session_id :: string
  rr_recovering_id :: u32
  rr_dealer_ids :: "u32 list"
  rr_epoch :: u64

record ('sc, 'pa, 'sg, 'pk, 'st, 'd) init_env = "('sc, 'pa, 'sg, 'pk, 'st, 'd) dkg_env" +
  net_request_shard :: "instant \<Rightarrow> string \<Rightarrow> metadata \<Rightarrow> seed_reply \<times> nat"
  net_start_reshare :: "instant \<Rightarrow> string \<Rightarrow> metadata \<Rightarrow> reshare_request \<Rightarrow> unit anyhow \<times> nat"
  meanwhile :: "instant \<Rightarrow> nat \<Rightarrow> node \<Rightarrow> node"

section \<open>Definitions\<close>

definition GENESIS_EPOCH :: u64 where
  "GENESIS_EPOCH = 1"

subsection \<open>The bootstrap node\<close>

definition number_shards :: "('sc, 'pa, 'sg, 'pk) bls \<Rightarrow> ('sc \<times> 'sc) list \<Rightarrow> (u32 \<times> bytes) list" where
  "number_shards B shares = map (\<lambda>(i, x). (word_of_nat i + 1, share_to_bytes B x)) (zip [0..<length shares] shares)"

definition init_start_node ::
    "('sc, 'pa, 'sg, 'pk, 'y) derive_env_scheme \<Rightarrow> node \<Rightarrow> unit anyhow \<times> node" where
  "init_start_node E s =
     (let t = threshold (cluster (node_cfg s)); n = total_nodes (cluster (node_cfg s)) in
      case split_master (blsful E) (unat t) (unat n) of
        Inl e \<Rightarrow> (Inl e, s)
      | Inr shares \<Rightarrow>
          (case number_shards (blsful E) shares of
             [] \<Rightarrow> (Inl ''split produced no shards'', s)
           | (own_index, own_bytes) # rest \<Rightarrow>
               (Inr (), s\<lparr>shard := Some \<lparr> shard_index = own_index, shard_bytes = own_bytes,
                                         shard_epoch = GENESIS_EPOCH \<rparr>,
                          pending_shards := Some ((own_index, own_bytes) # rest)\<rparr>)))"

subsection \<open>The handlers\<close>

definition own_signer_list :: "'y gate_env_scheme \<Rightarrow> node \<Rightarrow> (kms_error + address list) \<times> node" where
  "own_signer_list E s =
     get_signer_addresses E (rpc_url (chain (node_cfg s))) (contract_address (chain (node_cfg s)))
       (app_id (tapp (node_cfg s))) s"

definition seal_shard ::
    "'y gate_env_scheme \<Rightarrow> string \<Rightarrow> bytes \<Rightarrow> address \<Rightarrow> u32 \<Rightarrow> bytes \<Rightarrow> node \<Rightarrow> status + encrypted_shard" where
  "seal_shard E rpc caller_pk caller idx share s =
     rbind (map_err (\<lambda>_. (Internal, ''encryption failed'')) (ecies_encrypt E caller_pk share)) (\<lambda>ct.
     rbind (map_err (\<lambda>_. (Internal, ''response signing failed''))
              (sign_bytes E (private_key (signing_key s)) (shard_signing_msg rpc caller idx ct))) (\<lambda>sig.
     Inr \<lparr> es_ciphertext = ct, es_shard_index = idx, es_signature = sig \<rparr>))"

definition get_shard_contribution ::
    "'y gate_env_scheme \<Rightarrow> metadata \<Rightarrow> node \<Rightarrow> (status + encrypted_shard) \<times> node" where
  "get_shard_contribution E m s =
     sbind (authenticate E (node_cfg s) ''GetShardContribution'' m) (\<lambda>ctx s.
       (rbind (ok_or (Unavailable, ''node not initialized'') (shard s)) (\<lambda>sh.
          seal_shard E ''GetShardContribution'' (caller_pubkey ctx) (caller_eth_addr ctx) (shard_index sh)
            (shard_bytes sh) s), s)) s"

definition try_assign_init_shard ::
    "'y gate_env_scheme \<Rightarrow> bytes \<Rightarrow> node \<Rightarrow> (status + encrypted_shard option) \<times> node" where
  "try_assign_init_shard E caller_pk s =
     (case pending_shards s of
        None \<Rightarrow> (Inr None, s)
      | Some shards \<Rightarrow>
          (let caller = eth_address_from_pubkey E caller_pk in
           sbind (smap_err (\<lambda>_. (Internal, ''membership lookup failed'')) (own_signer_list E)) (\<lambda>nodes s.
             (rbind (ok_or (PermissionDenied, ''caller not in on-chain nodeList'') (position (\<lambda>a. a = caller) nodes)) (\<lambda>pos.
              if pos < length shards
              then rbind (seal_shard E ''RequestShard'' caller_pk caller (fst (shards ! pos)) (snd (shards ! pos)) s)
                     (\<lambda>resp. Inr (Some resp))
              else Inl (Internal, ''no shard available'')), s)) s))"

definition request_shard ::
    "'y gate_env_scheme \<Rightarrow> metadata \<Rightarrow> node \<Rightarrow> (status + encrypted_shard) \<times> node" where
  "request_shard E m s =
     sbind (authenticate E (node_cfg s) ''RequestShard'' m) (\<lambda>ctx.
     sbind (try_assign_init_shard E (caller_pubkey ctx)) (\<lambda>r s.
       (case r of
          Some resp \<Rightarrow> Inr resp
        | None \<Rightarrow>
            if shard s \<noteq> None
            then Inl (FailedPrecondition,
                   ''cluster is active but shard recovery is not yet available (deferred to reshare)'')
            else Inl (Unavailable, ''node not initialized''), s))) s"

definition recover_shard_for_caller :: "bytes \<Rightarrow> status + encrypted_shard" where
  "recover_shard_for_caller caller_pk =
     Inl (Unimplemented, ''shard recovery is deferred to S3 (proactive resharing); '' @
       ''only initial shard assignment is supported in this build'')"

subsection \<open>Joining\<close>

definition request_shard_from_peer ::
    "('sc, 'pa, 'sg, 'pk, 'st, 'd, 'y) init_env_scheme \<Rightarrow> string \<Rightarrow> bytes \<Rightarrow> i64 \<Rightarrow> node
       \<Rightarrow> (seed_error + shard_state) \<times> node" where
  "request_shard_from_peer E url sig ts s =
     (let (reply, d) = net_request_shard E (clock s) url (request_metadata E sig ts); s1 = tick d s in
      case reply of
        NoConnection e \<Rightarrow> (Inl (Unreachable e), s1)
      | RpcStatus code msg \<Rightarrow>
          (let text = ''RequestShard on '' @ url @ '': '' @ msg
           in (Inl (if code = Unavailable then Unreachable text else Declined text), s1))
      | ShardReply resp \<Rightarrow>
          sbind (smap_err (\<lambda>e. Declined (''shard response verification failed: '' @ e))
                   (verify_cluster_response E (node_cfg s1)
                      (shard_signing_msg ''RequestShard'' (eth_address (signing_key s1)) (es_shard_index resp)
                         (es_ciphertext resp)) (es_signature resp))) (\<lambda>_ s2.
            (rbind (map_err (\<lambda>e. Declined (''ECIES decrypt failed: '' @ kms_error_to_string e))
                      (ecies_decrypt E (private_key (signing_key s2)) (es_ciphertext resp))) (\<lambda>b.
               Inr \<lparr> shard_index = es_shard_index resp, shard_bytes = b, shard_epoch = GENESIS_EPOCH \<rparr>), s2)) s1)"

fun join_seeds ::
    "('sc, 'pa, 'sg, 'pk, 'st, 'd, 'y) init_env_scheme \<Rightarrow> bytes \<Rightarrow> i64 \<Rightarrow> string list \<Rightarrow> bool \<Rightarrow> node
       \<Rightarrow> join_result \<times> node" where
  "join_seeds E sig ts [] any_reachable s = (if any_reachable then SeedReachableDeclined else NoSeedReachable, s)"
| "join_seeds E sig ts (url # urls) any_reachable s =
     (case request_shard_from_peer E url sig ts s of
        (Inr sh, s1) \<Rightarrow> (Joined, s1\<lparr>shard := Some sh\<rparr>)
      | (Inl (Unreachable _), s1) \<Rightarrow> join_seeds E sig ts urls any_reachable s1
      | (Inl (Declined _), s1) \<Rightarrow> join_seeds E sig ts urls True s1)"

definition join_cluster ::
    "('sc, 'pa, 'sg, 'pk, 'st, 'd, 'y) init_env_scheme \<Rightarrow> node \<Rightarrow> join_result anyhow \<times> node" where
  "join_cluster E s =
     (if seeds (cluster (node_cfg s)) = [] then (Inr NoSeedReachable, s)
      else let ts = utc_now E (clock s) in
           case sign_request E (private_key (signing_key s)) ''RequestShard'' ts of
             Inl e \<Rightarrow> (Inl e, s)
           | Inr sig \<Rightarrow> (let (r, s') = join_seeds E sig ts (seeds (cluster (node_cfg s))) False s in (Inr r, s')))"

section \<open>Specification\<close>

text \<open>A seed that gave no evidence of a cluster between two instants: no connection, or the answer that it
  holds nothing itself.\<close>

definition seed_absent ::
    "('sc, 'pa, 'sg, 'pk, 'st, 'd, 'y) init_env_scheme \<Rightarrow> metadata \<Rightarrow> instant \<Rightarrow> instant \<Rightarrow> string \<Rightarrow> bool" where
  "seed_absent E md t0 t1 url \<longleftrightarrow>
     (\<exists>t d e. t0 \<le> t \<and> t + d \<le> t1 \<and>
        (net_request_shard E t url md = (NoConnection e, d) \<or> net_request_shard E t url md = (RpcStatus Unavailable e, d)))"

text \<open>Where an adopted shard comes from: a listed and attested node signed it for this node.\<close>

definition shard_origin :: "'y gate_env_scheme \<Rightarrow> node \<Rightarrow> instant \<Rightarrow> shard_state \<Rightarrow> bool" where
  "shard_origin E s now sh \<longleftrightarrow> shard_epoch sh = GENESIS_EPOCH \<and>
     (\<exists>ct sig signer.
        recover_signer_address E (shard_signing_msg ''RequestShard'' (eth_address (signing_key s)) (shard_index sh) ct) sig
          = Inr signer \<and>
        listed_for E (node_cfg s) (app_id (tapp (node_cfg s))) signer now \<and>
        attested E (VERIFIER s) (app_id (tapp (node_cfg s))) signer now \<and>
        ecies_decrypt E (private_key (signing_key s)) ct = Inr (shard_bytes sh))"

text \<open>The frame of an operation that only asks the chain and the gate: the tables of the process stay
  valid, the rest of the node is unchanged.\<close>

definition asks_only :: "'y gate_env_scheme \<Rightarrow> node \<Rightarrow> node \<Rightarrow> bool" where
  "asks_only E s s' \<longleftrightarrow> proc_inv E (node_cfg s) s' \<and> gate_proc.more s' = gate_proc.more s \<and>
     VERIFIER s' = VERIFIER s \<and> clock s \<le> clock s'"

section \<open>Lemmas\<close>

lemma asks_only_node:
  assumes "asks_only E s s'"
  shows "node_cfg s' = node_cfg s" "signing_key s' = signing_key s" "shard s' = shard s"
    "pending_shards s' = pending_shards s" "peer_table s' = peer_table s" "dkg_sessions s' = dkg_sessions s"
    "group_pubkey s' = group_pubkey s" "sealed_blob s' = sealed_blob s" "disk s' = disk s"
    "env_vars s' = env_vars s" "VERIFIER s' = VERIFIER s" "proc_inv E (node_cfg s') s'" "clock s \<le> clock s'"
  using assms gate_more_node [of s' s] unfolding asks_only_def by auto

lemma asks_only_refl: "proc_inv E (node_cfg s) s \<Longrightarrow> asks_only E s s"
  by (simp add: asks_only_def)

lemma asks_only_trans: "asks_only E s s1 \<Longrightarrow> asks_only E s1 s2 \<Longrightarrow> asks_only E s s2"
  using asks_only_node(1) [of E s s1] unfolding asks_only_def by auto

lemma asks_only_tick: "proc_inv E (node_cfg s) s \<Longrightarrow> asks_only E s (tick d s)"
  by (simp add: asks_only_def proc_inv_tick)

lemma asks_only_share: "asks_only E s s' \<Longrightarrow> same_share s s'"
  by (simp add: asks_only_node same_share_def)

lemma own_signer_list_ok:
  assumes "proc_inv E (node_cfg s) s" "own_signer_list E s = (r, s')"
  shows "asks_only E s s'"
    and "r = Inr nodes \<Longrightarrow> \<exists>t t'. chain_said E (rpc_url (chain (node_cfg s))) (contract_address (chain (node_cfg s)))
      (app_id (tapp (node_cfg s))) nodes t t' \<and> t' \<le> clock s'"
proof -
  let ?u = "rpc_url (chain (node_cfg s))" and ?c = "contract_address (chain (node_cfg s))"
  from assms(1) have ci: "chain_inv E ?u ?c s" and gi: "gate_inv E s" by (simp_all add: proc_inv_def)
  note ok = get_signer_addresses_ok [OF ci assms(2) [unfolded own_signer_list_def]]
  then have fr: "chain_frame s s'" by blast
  show "asks_only E s s'"
    using ok gate_inv_chain_frame [OF gi fr] chain_frame_gate [OF fr] by (simp add: asks_only_def proc_inv_def)
  show "r = Inr nodes \<Longrightarrow> \<exists>t t'. chain_said E ?u ?c (app_id (tapp (node_cfg s))) nodes t t' \<and> t' \<le> clock s'"
    using ok unfolding list_ok_def by blast
qed

lemma verify_cluster_response_asks:
  assumes "proc_inv E (node_cfg s) s" "verify_cluster_response E (node_cfg s) msg sig s = (r, s')"
  shows "asks_only E s s'"
    and "r = Inr () \<Longrightarrow> \<exists>signer. recover_signer_address E msg sig = Inr signer \<and>
      listed_for E (node_cfg s) (app_id (tapp (node_cfg s))) signer (clock s') \<and>
      attested E (VERIFIER s) (app_id (tapp (node_cfg s))) signer (clock s')"
proof -
  note ok = verify_cluster_response_ok [OF assms] and ver = verify_cluster_response_VERIFIER [OF assms]
  from ok ver show "asks_only E s s'" by (simp add: asks_only_def)
  show "\<exists>signer. recover_signer_address E msg sig = Inr signer \<and>
      listed_for E (node_cfg s) (app_id (tapp (node_cfg s))) signer (clock s') \<and>
      attested E (VERIFIER s) (app_id (tapp (node_cfg s))) signer (clock s')" if "r = Inr ()"
  proof -
    from ok that obtain signer where "recover_signer_address E msg sig = Inr signer" "member E (node_cfg s) signer s'"
      by blast
    with member_attested [of E "node_cfg s" signer s'] ver show ?thesis by (auto simp: member_def)
  qed
qed

lemma authenticate_asks:
  assumes "proc_inv E (node_cfg s) s" "authenticate E (node_cfg s) rpc m s = (r, s')" "VERIFIER s' = VERIFIER s"
  shows "asks_only E s s'"
  using authenticate_ok [OF assms(1,2)] assms(3) by (simp add: asks_only_def)

lemma request_shard_from_peer_ok:
  assumes inv: "proc_inv E (node_cfg s) s" and call: "request_shard_from_peer E url sig ts s = (r, s')"
  shows "asks_only E s s'"
    and "r = Inr sh \<Longrightarrow> shard_origin E s (clock s') sh"
    and "r = Inl (Unreachable e) \<Longrightarrow> seed_absent E (request_metadata E sig ts) (clock s) (clock s') url"
proof -
  let ?md = "request_metadata E sig ts"
  obtain reply d where net: "net_request_shard E (clock s) url ?md = (reply, d)" by force
  have t: "asks_only E s (tick d s)" using inv by (rule asks_only_tick)
  have inv1: "proc_inv E (node_cfg (tick d s)) (tick d s)" using asks_only_node(12) [OF t] .
  show "asks_only E s s'"
  proof (cases reply)
    case (ShardReply resp)
    let ?msg = "shard_signing_msg ''RequestShard'' (eth_address (signing_key s)) (es_shard_index resp) (es_ciphertext resp)"
    obtain q s1 where q: "verify_cluster_response E (node_cfg (tick d s)) ?msg (es_signature resp) (tick d s) = (q, s1)" by force
    have "s' = s1" using call net ShardReply q
      by (cases q) (simp_all add: request_shard_from_peer_def sbind_def smap_err_def)
    with asks_only_trans [OF t verify_cluster_response_asks(1) [OF inv1 q]] show ?thesis by simp
  qed (use call net t in \<open>auto simp: request_shard_from_peer_def Let_def\<close>)
  show "seed_absent E ?md (clock s) (clock s') url" if "r = Inl (Unreachable e)"
  proof (cases reply)
    case (ShardReply resp)
    with call net that show ?thesis
      by (auto simp: request_shard_from_peer_def sbind_def smap_err_def rbind_def map_err_def
          split: prod.splits sum.splits)
  qed (use call net that in \<open>auto simp: request_shard_from_peer_def Let_def seed_absent_def tick_def split: if_splits\<close>)
  show "shard_origin E s (clock s') sh" if "r = Inr sh"
  proof (cases reply)
    case (ShardReply resp)
    let ?msg = "shard_signing_msg ''RequestShard'' (eth_address (signing_key s)) (es_shard_index resp) (es_ciphertext resp)"
    obtain q s1 where q: "verify_cluster_response E (node_cfg (tick d s)) ?msg (es_signature resp) (tick d s) = (q, s1)" by force
    have s': "s' = s1" using call net ShardReply q
      by (cases q) (simp_all add: request_shard_from_peer_def sbind_def smap_err_def)
    note a = verify_cluster_response_asks [OF inv1 q]
    from call net ShardReply q that have q1: "q = Inr ()"
      by (cases q) (simp_all add: request_shard_from_peer_def sbind_def smap_err_def)
    with call net ShardReply q that obtain b where b: "ecies_decrypt E (private_key (signing_key s1)) (es_ciphertext resp) = Inr b"
      "sh = \<lparr> shard_index = es_shard_index resp, shard_bytes = b, shard_epoch = GENESIS_EPOCH \<rparr>"
      by (auto simp: request_shard_from_peer_def sbind_def smap_err_def rbind_Inr_iff)
    have "signing_key s1 = signing_key s" using asks_only_node(2) [OF a(1)] by simp
    with b a(2) [OF q1] s' show ?thesis by (auto simp: shard_origin_def)
  qed (use call net that in \<open>auto simp: request_shard_from_peer_def Let_def\<close>)
qed

lemma shard_origin_asks: "asks_only E s s1 \<Longrightarrow> shard_origin E s1 now sh \<longleftrightarrow> shard_origin E s now sh"
  by (simp add: shard_origin_def asks_only_node)

lemma seed_absent_widen:
  "seed_absent E md t0 t1 url \<Longrightarrow> t \<le> t0 \<Longrightarrow> t1 \<le> t' \<Longrightarrow> seed_absent E md t t' url"
  unfolding seed_absent_def by (meson le_trans)

lemma join_seeds_ok:
  assumes "proc_inv E (node_cfg s) s" "join_seeds E sig ts urls any s = (r, s')"
  shows "case r of
      Joined \<Rightarrow> \<exists>sh s1. s' = s1\<lparr>shard := Some sh\<rparr> \<and> asks_only E s s1 \<and> shard_origin E s (clock s1) sh
    | NoSeedReachable \<Rightarrow> asks_only E s s' \<and> \<not> any \<and> (\<forall>url \<in> set urls. seed_absent E (request_metadata E sig ts) (clock s) (clock s') url)
    | SeedReachableDeclined \<Rightarrow> asks_only E s s'"
  using assms
proof (induction urls arbitrary: any s)
  case Nil
  then show ?case by (auto intro: asks_only_refl)
next
  case (Cons url urls)
  obtain q s1 where q: "request_shard_from_peer E url sig ts s = (q, s1)" by force
  note ok = request_shard_from_peer_ok [OF Cons.prems(1) q]
  note inv1 = asks_only_node(12) [OF ok(1)]
  show ?case
  proof (cases q)
    case (Inr sh)
    with Cons.prems(2) q have "r = Joined" "s' = s1\<lparr>shard := Some sh\<rparr>" by simp_all
    with ok(1,2) Inr show ?thesis by auto
  next
    case (Inl e)
    have step: "join_seeds E sig ts urls (any \<or> (\<exists>t. e = Declined t)) s1 = (r, s')"
      using Cons.prems(2) q Inl by (cases e) simp_all
    note rest = Cons.IH [OF inv1 step]
    have c1: "clock s \<le> clock s1" by (rule asks_only_node(13) [OF ok(1)])
    show ?thesis
    proof (cases r)
      case NoSeedReachable
      with rest have a: "asks_only E s1 s'" "\<not> (any \<or> (\<exists>t. e = Declined t))"
        "\<forall>url \<in> set urls. seed_absent E (request_metadata E sig ts) (clock s1) (clock s') url" by simp_all
      then obtain t where e: "e = Unreachable t" by (cases e) auto
      have "clock s1 \<le> clock s'" by (rule asks_only_node(13) [OF a(1)])
      with a c1 ok(3) [of t] Inl e have "\<forall>u \<in> set (url # urls). seed_absent E (request_metadata E sig ts) (clock s) (clock s') u"
        by (auto intro: seed_absent_widen)
      with NoSeedReachable a asks_only_trans [OF ok(1) a(1)] show ?thesis by simp
    next
      case SeedReachableDeclined
      with rest show ?thesis using asks_only_trans [OF ok(1)] by simp
    next
      case Joined
      with rest obtain sh s2 where "s' = s2\<lparr>shard := Some sh\<rparr>" "asks_only E s1 s2" "shard_origin E s1 (clock s2) sh" by auto
      with Joined asks_only_trans [OF ok(1)] shard_origin_asks [OF ok(1)] show ?thesis by auto
    qed
  qed
qed

lemma join_cluster_cases:
  assumes "proc_inv E (node_cfg s) s" "join_cluster E s = (r, s')"
  obtains (error) e where "r = Inl e" "s' = s"
    | (joined) sh s1 where "r = Inr Joined" "s' = s1\<lparr>shard := Some sh\<rparr>" "asks_only E s s1" "shard_origin E s (clock s1) sh"
    | (absent) md where "r = Inr NoSeedReachable" "asks_only E s s'"
      "\<forall>url \<in> set (seeds (cluster (node_cfg s))). seed_absent E md (clock s) (clock s') url"
    | (declined) "r = Inr SeedReachableDeclined" "asks_only E s s'"
proof (cases "seeds (cluster (node_cfg s)) = []")
  case True
  with assms absent show thesis by (auto simp: join_cluster_def intro: asks_only_refl)
next
  case False
  show thesis
  proof (cases "sign_request E (private_key (signing_key s)) ''RequestShard'' (utc_now E (clock s))")
    case (Inl e)
    with False assms(2) have "r = Inl e" "s' = s" by (simp_all add: join_cluster_def Let_def)
    with error show thesis .
  next
    case (Inr sig)
    obtain q s1 where q: "join_seeds E sig (utc_now E (clock s)) (seeds (cluster (node_cfg s))) False s = (q, s1)" by force
    with False Inr assms(2) have r: "r = Inr q" "s' = s1" by (simp_all add: join_cluster_def Let_def)
    from join_seeds_ok [OF assms(1) q] r joined absent declined show thesis by (cases q) auto
  qed
qed

lemma number_shards_nth:
  "i < length shares \<Longrightarrow> number_shards B shares ! i = (word_of_nat i + 1, share_to_bytes B (shares ! i))"
  by (simp add: number_shards_def)

lemma length_number_shards [simp]: "length (number_shards B shares) = length shares"
  by (simp add: number_shards_def)

lemma init_start_node_cases:
  assumes "init_start_node E s = (Inr (), s')"
  obtains shares where
    "split_master (blsful E) (unat (threshold (cluster (node_cfg s)))) (unat (total_nodes (cluster (node_cfg s)))) = Inr shares"
    "shares \<noteq> []" "pending_shards s' = Some (number_shards (blsful E) shares)"
    "shard s' = Some \<lparr> shard_index = 1, shard_bytes = share_to_bytes (blsful E) (hd shares), shard_epoch = GENESIS_EPOCH \<rparr>"
    "s' = s\<lparr>shard := shard s', pending_shards := pending_shards s'\<rparr>"
proof -
  from assms obtain shares where shares:
    "split_master (blsful E) (unat (threshold (cluster (node_cfg s)))) (unat (total_nodes (cluster (node_cfg s)))) = Inr shares"
    "number_shards (blsful E) shares \<noteq> []"
    by (auto simp: init_start_node_def Let_def split: sum.splits list.splits)
  then have ne: "shares \<noteq> []" by (auto simp: number_shards_def)
  then obtain x xs where "shares = x # xs" by (cases shares) auto
  then have "number_shards (blsful E) shares = (1, share_to_bytes (blsful E) (hd shares)) # tl (number_shards (blsful E) shares)"
    using number_shards_nth [of 0 shares "blsful E"] by (cases "number_shards (blsful E) shares") (use shares(2) in auto)
  then have "s' = s\<lparr>shard := Some \<lparr> shard_index = 1, shard_bytes = share_to_bytes (blsful E) (hd shares),
        shard_epoch = GENESIS_EPOCH \<rparr>, pending_shards := Some (number_shards (blsful E) shares)\<rparr>"
    using assms shares(1) by (cases "number_shards (blsful E) shares") (auto simp: init_start_node_def Let_def)
  with that shares(1) ne show thesis by auto
qed

lemma position_first:
  "i < length xs \<Longrightarrow> xs ! i = x \<Longrightarrow> \<forall>j < i. xs ! j \<noteq> x \<Longrightarrow> position (\<lambda>a. a = x) xs = Some i"
proof (induction xs arbitrary: i)
  case (Cons y ys)
  show ?case
  proof (cases i)
    case 0
    with Cons.prems show ?thesis by simp
  next
    case (Suc k)
    with Cons.prems have "k < length ys" "ys ! k = x" "\<forall>j < k. ys ! j \<noteq> x" "y \<noteq> x" by auto
    with Cons.IH Suc show ?thesis by simp
  qed
qed simp

lemma seal_shard_Inr:
  assumes "seal_shard E rpc pk caller idx share s = Inr resp"
  shows "es_shard_index resp = idx" "ecies_enc E pk share = Inr (es_ciphertext resp)"
  using assms by (auto simp: seal_shard_def ecies_encrypt_def rbind_Inr_iff)

lemma request_shard_Inr:
  assumes inv: "proc_inv E (node_cfg s) s" and call: "request_shard E m s = (Inr resp, s')"
  obtains ctx shards nodes pos where "authenticated E (node_cfg s) ''RequestShard'' m (utc_now E (clock s)) ctx"
    "pending_shards s = Some shards" "pos < length shards" "pos < length nodes" "nodes ! pos = caller_eth_addr ctx"
    "\<forall>i < pos. nodes ! i \<noteq> caller_eth_addr ctx"
    "\<exists>t t'. chain_said E (rpc_url (chain (node_cfg s))) (contract_address (chain (node_cfg s)))
      (app_id (tapp (node_cfg s))) nodes t t' \<and> t' \<le> clock s'"
    "es_shard_index resp = fst (shards ! pos)"
    "ecies_enc E (caller_pubkey ctx) (snd (shards ! pos)) = Inr (es_ciphertext resp)"
proof -
  from call obtain ctx s1 r s2 where a: "authenticate E (node_cfg s) ''RequestShard'' m s = (Inr ctx, s1)"
    and t: "try_assign_init_shard E (caller_pubkey ctx) s1 = (Inr r, s2)" and "r = Some resp" and s2: "s2 = s'"
    by (auto simp: request_shard_def sbind_Inr_iff split: option.splits if_splits)
  note ok = authenticate_ok [OF inv a]
  then have auth: "authenticated E (node_cfg s) ''RequestShard'' m (utc_now E (clock s)) ctx"
    and more: "gate_proc.more s1 = gate_proc.more s" and inv1: "proc_inv E (node_cfg s) s1" by blast+
  note same = gate_more_node [OF more]
  have caller: "eth_address_from_pubkey E (caller_pubkey ctx) = caller_eth_addr ctx"
    using auth by (auto simp: authenticated_def)
  from t \<open>r = Some resp\<close> obtain shards nodes s3 pos where sh: "pending_shards s1 = Some shards"
    and nodes: "own_signer_list E s1 = (Inr nodes, s3)" and pos: "position (\<lambda>a. a = caller_eth_addr ctx) nodes = Some pos"
    and len: "pos < length shards" and s3: "s3 = s2"
    and seal: "seal_shard E ''RequestShard'' (caller_pubkey ctx) (caller_eth_addr ctx) (fst (shards ! pos)) (snd (shards ! pos)) s3 = Inr resp"
    by (auto simp: try_assign_init_shard_def Let_def caller sbind_Inr_iff smap_err_Inr_iff rbind_Inr_iff
        split: option.splits if_splits)
  note p = position_Some [OF pos]
  have "\<exists>t t'. chain_said E (rpc_url (chain (node_cfg s))) (contract_address (chain (node_cfg s)))
      (app_id (tapp (node_cfg s))) nodes t t' \<and> t' \<le> clock s'"
    using own_signer_list_ok(2) [of E s1 "Inr nodes" s3 nodes] inv1 nodes same(1) s3 s2 by simp
  with that auth sh len p seal_shard_Inr [OF seal] same(4) show thesis by metis
qed

section \<open>A concrete cluster\<close>

text \<open>Two nodes whose lookup of the list is cached, seeds that are down, and no other tasks.\<close>

definition demo_init :: "(u8, u8 \<times> u8 \<times> bytes, u8 \<times> bytes, u8, nat, u8) init_env" where
  "demo_init = dkg_env.extend demo_dkg (init_env.fields (\<lambda>t url m. (NoConnection ''down'', 0))
     (\<lambda>t url m r. (Inr (), 0)) (\<lambda>t d s. s))"

definition demo_warm :: "node \<Rightarrow> node" where
  "demo_warm s = s\<lparr>clock := 1000000000, VERIFIER := None, node_list_cache :=
     [(cache_key ''u'' ''c'' ''kms'', \<lparr> addrs = [demo_addr1, demo_addr2], fetched_at = 1000000000,
        miss_refresh_at = None \<rparr>)]\<rparr>"

lemma demo_warm_simps [simp]:
  "node_cfg (demo_warm s) = node_cfg s" "signing_key (demo_warm s) = signing_key s" "shard (demo_warm s) = shard s"
  "pending_shards (demo_warm s) = pending_shards s" "peer_table (demo_warm s) = peer_table s"
  "dkg_sessions (demo_warm s) = dkg_sessions s" "group_pubkey (demo_warm s) = group_pubkey s"
  "disk (demo_warm s) = disk s" "env_vars (demo_warm s) = env_vars s" "clock (demo_warm s) = 1000000000"
  "VERIFIER (demo_warm s) = None" "providers (demo_warm s) = providers s"
  by (simp_all add: demo_warm_def)

lemma demo_init_crates:
  "hex_ok demo_init" "b64_ok demo_init" "ecies_ok demo_init" "ecies_binds_key demo_init"
  "k256_ok demo_init" "bare_ok demo_init"
proof -
  have "seal_crates.truncate demo_init = demo_seal"
    by (simp add: demo_init_def demo_dkg_def demo_gossip_def demo_derive_def demo_derive0_def demo_gate_def demo_chain_def
        seal_crates.defs chain_env.defs gate_env.defs derive_env.defs gossip_env.defs dkg_env.defs)
  then show "hex_ok demo_init" "b64_ok demo_init" "ecies_ok demo_init" "ecies_binds_key demo_init"
    "k256_ok demo_init" "bare_ok demo_init" by (rule seal_crates_ok_demo)+
qed

lemma demo_init_simps [simp]:
  "net_request_shard demo_init = (\<lambda>t url m. (NoConnection ''down'', 0))"
  "net_start_reshare demo_init = (\<lambda>t url m r. (Inr (), 0))" "meanwhile demo_init = (\<lambda>t d s. s)"
  "gennaro demo_init = demo_gennaro" "net_dkg_round demo_init = (\<lambda>t url m msg. (Inr (), 0))"
  "wakeups demo_init = (\<lambda>sid r t. [buffer_round (demo_msg sid r) [5]])"
  "k256_verifying_key demo_init = k256_verifying_key demo_derive"
  "k256_sign_prehash demo_init = k256_sign_prehash demo_derive" "keccak256 demo_init = keccak256 demo_derive"
  "utc_now demo_init = utc_now demo_derive" "ecies_enc demo_init = ecies_enc demo_derive"
  "ecies_dec demo_init = ecies_dec demo_derive" "rpc_node_list demo_init = rpc_node_list demo_derive"
  "parse_address demo_init = parse_address demo_derive"
  "hex_encode demo_init = hex_encode demo_derive" "blsful demo_init = demo_bls"
  by (simp_all add: demo_init_def dkg_env.defs init_env.defs demo_dkg_def gossip_env.defs demo_gossip_def derive_env.defs
      demo_derive_def demo_derive0_def gate_env.defs)

lemma demo_warm_inv:
  assumes "providers s = hm_empty" "rpc_url (chain cfg) = ''u''" "contract_address (chain cfg) = ''c''"
  shows "proc_inv demo_init cfg (demo_warm s)"
proof -
  have said: "chain_said demo_init ''u'' ''c'' ''kms'' [demo_addr1, demo_addr2] 0 1000000000"
    by (simp add: chain_said_def demo_derive_simps)
  have "cache_key ''u'' ''c'' app = cache_key ''u'' ''c'' ''kms'' \<Longrightarrow> app = ''kms''" for app by simp
  with said have "hm_get (node_list_cache (demo_warm s)) (cache_key ''u'' ''c'' app) = Some e \<Longrightarrow>
      entry_ok demo_init ''u'' ''c'' app (clock (demo_warm s)) e" for app e
    by (auto simp: demo_warm_def hm_get_def entry_ok_def split: if_splits)
  then show ?thesis using assms by (simp add: proc_inv_def chain_inv_def gate_inv_def)
qed

lemma demo_warm_lookup:
  assumes "rpc_url (chain cfg) = ''u''" "contract_address (chain cfg) = ''c''" "app_id (tapp cfg) = ''kms''"
  shows "x \<in> {demo_addr1, demo_addr2} \<Longrightarrow> own_node_list E cfg x (demo_warm s) = (Inr [demo_addr1, demo_addr2], demo_warm s)"
    and "node_cfg s = cfg \<Longrightarrow> own_signer_list E (demo_warm s) = (Inr [demo_addr1, demo_addr2], demo_warm s)"
proof -
  have "get_signer_addresses E ''u'' ''c'' ''kms'' (demo_warm s) = (Inr [demo_addr1, demo_addr2], demo_warm s)"
    by (simp add: get_signer_addresses_def fresh_hit_def demo_warm_def hm_get_def elapsed_def NODE_LIST_TTL_def
        from_secs_def)
  then show "x \<in> {demo_addr1, demo_addr2} \<Longrightarrow> own_node_list E cfg x (demo_warm s) = (Inr [demo_addr1, demo_addr2], demo_warm s)"
    "node_cfg s = cfg \<Longrightarrow> own_signer_list E (demo_warm s) = (Inr [demo_addr1, demo_addr2], demo_warm s)"
    using assms by (auto simp: own_node_list_def get_signer_addresses_for_def sbind_def own_signer_list_def demo_warm_def)
qed

lemma demo_warm_authenticate:
  "\<exists>sig. authenticate demo_init demo_config rpc (request_metadata demo_init sig 0) (demo_warm s) = (Inr demo_ctx, demo_warm s)"
proof -
  have "\<exists>sig. sign_request demo_init demo_sk rpc 0 = Inr sig"
    by (simp add: sign_request_def sign_bytes_def Let_def demo_derive_simps demo_sk_def demo_hash_def)
  then obtain sig where sig: "sign_request demo_init demo_sk rpc 0 = Inr sig" ..
  have pk: "k256_verifying_key demo_init demo_sk = Inr (demo_pk demo_sk)"
    by (simp add: demo_derive_simps demo_sk_def)
  have addr: "eth_address_from_pubkey demo_init (demo_pk demo_sk) = demo_addr1"
    by (simp add: eth_address_from_pubkey_def demo_derive_simps demo_hash_def demo_pk_def demo_sk_def demo_addr1_def)
  have "authenticate demo_init demo_config rpc (request_metadata demo_init sig 0) (demo_warm s)
      = (Inr demo_ctx, demo_warm s)"
    unfolding demo_ctx_def
  proof (rule authenticate_honest [OF demo_init_crates(1,5) sig pk, unfolded addr])
    show "own_node_list demo_init demo_config demo_addr1 (demo_warm s) = (Inr [demo_addr1, demo_addr2], demo_warm s)"
      by (rule demo_warm_lookup) (simp_all add: demo_config_def)
    show "require_verified demo_init (app_id (tapp demo_config)) demo_addr1 0 (demo_warm s) = (Inr (), demo_warm s)"
      by (simp add: require_verified_def demo_warm_def)
  qed (simp_all add: demo_derive_simps demo_warm_def demo_config_def too_far_def i64_abs_def)
  then show ?thesis ..
qed

section \<open>Properties\<close>

text \<open>The outcome of a join says what the seeds said: \<open>NoSeedReachable\<close> only if every configured seed gave no
  connection or answered that it holds nothing, \<open>Joined\<close> only with a shard of the genesis epoch that
  a listed and attested node signed for this node and encrypted to its key; and no outcome but
  \<open>Joined\<close> touches the share.\<close>

theorem join_outcome_sound:
  assumes "proc_inv E (node_cfg s) s" "join_cluster E s = (Inr r, s')"
  shows "case r of
      NoSeedReachable \<Rightarrow> (\<exists>md. \<forall>url \<in> set (seeds (cluster (node_cfg s))). seed_absent E md (clock s) (clock s') url) \<and> shard s' = shard s
    | Joined \<Rightarrow> (\<exists>sh. shard s' = Some sh \<and> shard_origin E s (clock s') sh)
    | SeedReachableDeclined \<Rightarrow> shard s' = shard s"
  using assms
proof (cases rule: join_cluster_cases)
  case (joined sh s1)
  then have "shard s' = Some sh" "clock s' = clock s1" by simp_all
  with joined show ?thesis by simp
qed (auto dest: asks_only_node(3))

theorem join_outcome_sound_witness:
  "\<exists>s'. join_cluster demo_init (demo_warm (demo_fresh\<lparr>node_cfg := demo_config\<lparr>cluster := (cluster demo_config)\<lparr>seeds := [''http://b'']\<rparr>\<rparr>\<rparr>))
     = (Inr NoSeedReachable, s') \<and> (\<exists>md t0 t1. seed_absent demo_init md t0 t1 ''http://b'') \<and> shard s' = None"
proof -
  let ?s = "demo_fresh\<lparr>node_cfg := demo_config\<lparr>cluster := (cluster demo_config)\<lparr>seeds := [''http://b'']\<rparr>\<rparr>\<rparr>"
  have inv: "proc_inv demo_init (node_cfg (demo_warm ?s)) (demo_warm ?s)"
    by (rule demo_warm_inv) (simp_all add: demo_config_def demo_warm_def)
  have "\<exists>sig. sign_request demo_init demo_sk ''RequestShard'' (utc_now demo_init (clock (demo_warm ?s))) = Inr sig"
    by (simp add: sign_request_def sign_bytes_def Let_def demo_derive_simps demo_sk_def demo_hash_def)
  then have "\<exists>s'. join_cluster demo_init (demo_warm ?s) = (Inr NoSeedReachable, s')"
    by (auto simp: join_cluster_def Let_def request_shard_from_peer_def demo_warm_def demo_config_def)
  then obtain s' where j: "join_cluster demo_init (demo_warm ?s) = (Inr NoSeedReachable, s')" ..
  from join_outcome_sound [OF inv j] j show ?thesis by (auto simp: demo_warm_def)
qed

text \<open>Initial shards go by position: after the bootstrap node has split a master, whoever gets a shard by
  \<open>RequestShard\<close> is an authenticated caller in a node list the chain gave for the app, and gets exactly the shard
  of its first position in that list, numbered by that position, encrypted to the key it signed
  with; the bootstrap node keeps the shard of position 1.\<close>

theorem initial_shards_by_position:
  assumes "init_start_node E s0 = (Inr (), s)" "proc_inv E (node_cfg s) s" "request_shard E m s = (Inr resp, s')"
  shows "\<exists>shares ctx nodes pos.
    split_master (blsful E) (unat (threshold (cluster (node_cfg s)))) (unat (total_nodes (cluster (node_cfg s)))) = Inr shares \<and>
    shard s = Some \<lparr> shard_index = 1, shard_bytes = share_to_bytes (blsful E) (shares ! 0), shard_epoch = GENESIS_EPOCH \<rparr> \<and>
    authenticated E (node_cfg s) ''RequestShard'' m (utc_now E (clock s)) ctx \<and>
    (\<exists>t t'. chain_said E (rpc_url (chain (node_cfg s))) (contract_address (chain (node_cfg s)))
       (app_id (tapp (node_cfg s))) nodes t t' \<and> t' \<le> clock s') \<and>
    position (\<lambda>a. a = caller_eth_addr ctx) nodes = Some pos \<and> pos < length shares \<and>
    es_shard_index resp = word_of_nat pos + 1 \<and>
    ecies_enc E (caller_pubkey ctx) (share_to_bytes (blsful E) (shares ! pos)) = Inr (es_ciphertext resp)"
proof -
  from assms(1) obtain shares where shares:
    "split_master (blsful E) (unat (threshold (cluster (node_cfg s0)))) (unat (total_nodes (cluster (node_cfg s0)))) = Inr shares"
    "shares \<noteq> []" "pending_shards s = Some (number_shards (blsful E) shares)"
    "shard s = Some \<lparr> shard_index = 1, shard_bytes = share_to_bytes (blsful E) (hd shares), shard_epoch = GENESIS_EPOCH \<rparr>"
    "s = s0\<lparr>shard := shard s, pending_shards := pending_shards s\<rparr>" by (rule init_start_node_cases)
  have cfg: "node_cfg s0 = node_cfg s" by (subst shares(5)) simp
  from assms(2,3) obtain ctx shards nodes pos where r:
    "authenticated E (node_cfg s) ''RequestShard'' m (utc_now E (clock s)) ctx"
    "pending_shards s = Some shards" "pos < length shards" "pos < length nodes" "nodes ! pos = caller_eth_addr ctx"
    "\<forall>i < pos. nodes ! i \<noteq> caller_eth_addr ctx"
    "\<exists>t t'. chain_said E (rpc_url (chain (node_cfg s))) (contract_address (chain (node_cfg s)))
      (app_id (tapp (node_cfg s))) nodes t t' \<and> t' \<le> clock s'"
    "es_shard_index resp = fst (shards ! pos)"
    "ecies_enc E (caller_pubkey ctx) (snd (shards ! pos)) = Inr (es_ciphertext resp)" by (rule request_shard_Inr)
  have "position (\<lambda>a. a = caller_eth_addr ctx) nodes = Some pos"
    using r(4-6) by (rule position_first)
  moreover from shares(3) r(2,3) have "pos < length shares" "shards ! pos = (word_of_nat pos + 1, share_to_bytes (blsful E) (shares ! pos))"
    by (auto simp: number_shards_nth)
  moreover have "hd shares = shares ! 0" using shares(2) by (simp add: hd_conv_nth)
  ultimately show ?thesis using shares(1,4) r(1,7,8,9) unfolding cfg
    by (intro exI [of _ shares] exI [of _ ctx] exI [of _ nodes] exI [of _ pos]) simp
qed

theorem initial_shards_by_position_witness:
  "\<exists>s sig resp s'. init_start_node demo_init (demo_warm (demo_fresh\<lparr>signing_key := \<lparr> private_key = demo_sk2, eth_address = demo_addr2 \<rparr>\<rparr>))
       = (Inr (), s) \<and> request_shard demo_init (request_metadata demo_init sig 0) s = (Inr resp, s') \<and>
     (\<exists>pos :: nat. es_shard_index resp = word_of_nat pos + 1)"
proof -
  let ?f = "demo_fresh\<lparr>signing_key := \<lparr> private_key = demo_sk2, eth_address = demo_addr2 \<rparr>\<rparr>"
  let ?sh = "[(1 :: u32, [1 :: u8, 7]), (2, [2, 7]), (3, [3, 7])]"
  let ?g = "?f\<lparr>shard := Some \<lparr> shard_index = 1, shard_bytes = [1, 7], shard_epoch = GENESIS_EPOCH \<rparr>, pending_shards := Some ?sh\<rparr>"
  have i: "init_start_node demo_init (demo_warm ?f) = (Inr (), demo_warm ?g)"
    by (simp add: init_start_node_def Let_def split_master_def demo_bls_def number_shards_def share_to_bytes_def
        demo_warm_def demo_config_def upt_rec)
  obtain sig where a: "authenticate demo_init demo_config ''RequestShard'' (request_metadata demo_init sig 0) (demo_warm ?g)
      = (Inr demo_ctx, demo_warm ?g)" using demo_warm_authenticate by blast
  have l: "own_signer_list demo_init (demo_warm ?g) = (Inr [demo_addr1, demo_addr2], demo_warm ?g)"
    by (rule demo_warm_lookup(2) [of demo_config]) (simp_all add: demo_config_def)
  have addr: "eth_address_from_pubkey demo_init (demo_pk demo_sk) = demo_addr1"
    by (simp add: eth_address_from_pubkey_def demo_derive_simps demo_hash_def demo_pk_def demo_sk_def demo_addr1_def)
  have "\<exists>resp. seal_shard demo_init ''RequestShard'' (demo_pk demo_sk) demo_addr1 1 [1, 7] (demo_warm ?g) = Inr resp"
    by (simp add: seal_shard_def ecies_encrypt_def demo_ecies sign_bytes_def Let_def demo_derive_simps demo_sk2_def
        demo_hash_def demo_warm_def)
  then obtain resp where "seal_shard demo_init ''RequestShard'' (demo_pk demo_sk) demo_addr1 1 [1, 7] (demo_warm ?g) = Inr resp" ..
  then have r: "request_shard demo_init (request_metadata demo_init sig 0) (demo_warm ?g) = (Inr resp, demo_warm ?g)"
    using a l by (simp add: request_shard_def sbind_def try_assign_init_shard_def smap_err_def addr demo_ctx_def)
  have inv: "proc_inv demo_init (node_cfg (demo_warm ?g)) (demo_warm ?g)"
    by (rule demo_warm_inv) (simp_all add: demo_config_def demo_warm_def)
  from initial_shards_by_position [OF i inv r] i r show ?thesis by blast
qed

text \<open>\<open>GetShardContribution\<close> hands the node's share out: it answers authenticated members only, and what the
  caller decrypts from a successful answer with the key it signed with is exactly the stored
  share, so that one member alone can collect the shares of all the others.\<close>

theorem shard_contribution_discloses:
  assumes "ecies_ok E" "proc_inv E (node_cfg s) s" "get_shard_contribution E m s = (Inr resp, s')"
  shows "\<exists>ctx sh. authenticated E (node_cfg s) ''GetShardContribution'' m (utc_now E (clock s)) ctx \<and>
    member E (node_cfg s) (caller_eth_addr ctx) s' \<and> shard s = Some sh \<and> es_shard_index resp = shard_index sh \<and>
    (\<forall>sk. k256_verifying_key E sk = Inr (caller_pubkey ctx) \<longrightarrow>
       ecies_decrypt E sk (es_ciphertext resp) = Inr (shard_bytes sh))"
proof -
  from assms(3) obtain ctx s1 sh where a: "authenticate E (node_cfg s) ''GetShardContribution'' m s = (Inr ctx, s1)"
    and sh: "shard s1 = Some sh" and s': "s' = s1"
    and seal: "seal_shard E ''GetShardContribution'' (caller_pubkey ctx) (caller_eth_addr ctx) (shard_index sh) (shard_bytes sh) s1 = Inr resp"
    by (auto simp: get_shard_contribution_def sbind_Inr_iff rbind_Inr_iff)
  note ok = authenticate_ok [OF assms(2) a]
  then have "shard s1 = shard s" using gate_more_node(3) by blast
  moreover have "\<forall>sk. k256_verifying_key E sk = Inr (caller_pubkey ctx) \<longrightarrow> ecies_decrypt E sk (es_ciphertext resp) = Inr (shard_bytes sh)"
    using assms(1) seal_shard_Inr(2) [OF seal] unfolding ecies_ok_def ecies_decrypt_def by auto
  ultimately show ?thesis using ok sh s' seal_shard_Inr(1) [OF seal] by metis
qed

theorem shard_contribution_discloses_witness:
  "\<exists>sig resp s' (ctx :: auth_context).
     get_shard_contribution demo_init (request_metadata demo_init sig 0) (demo_warm demo_node2) = (Inr resp, s') \<and>
     member demo_init demo_config (caller_eth_addr ctx) s' \<and> es_shard_index resp = 2"
proof -
  obtain sig where a: "authenticate demo_init demo_config ''GetShardContribution'' (request_metadata demo_init sig 0) (demo_warm demo_node2)
      = (Inr demo_ctx, demo_warm demo_node2)" using demo_warm_authenticate by blast
  have "\<exists>resp. seal_shard demo_init ''GetShardContribution'' (demo_pk demo_sk) demo_addr1 2 [2, 7] (demo_warm demo_node2) = Inr resp"
    by (simp add: seal_shard_def ecies_encrypt_def demo_ecies sign_bytes_def Let_def demo_derive_simps demo_sk2_def
        demo_hash_def demo_node2_def demo_node_simps)
  then obtain resp where "seal_shard demo_init ''GetShardContribution'' (demo_pk demo_sk) demo_addr1 2 [2, 7] (demo_warm demo_node2) = Inr resp" ..
  then have r: "get_shard_contribution demo_init (request_metadata demo_init sig 0) (demo_warm demo_node2) = (Inr resp, demo_warm demo_node2)"
    using a by (simp add: get_shard_contribution_def sbind_def demo_ctx_def demo_node2_def demo_node_simps)
  have inv: "proc_inv demo_init (node_cfg (demo_warm demo_node2)) (demo_warm demo_node2)"
    by (rule demo_warm_inv) (simp_all add: demo_config_def demo_node2_def demo_node_simps)
  from shard_contribution_discloses [OF demo_init_crates(3) inv r] obtain ctx :: auth_context and sh where
    "member demo_init (node_cfg (demo_warm demo_node2)) (caller_eth_addr ctx) (demo_warm demo_node2)"
    "es_shard_index resp = shard_index sh" "shard (demo_warm demo_node2) = Some sh" by blast
  then have "member demo_init demo_config (caller_eth_addr ctx) (demo_warm demo_node2)" "es_shard_index resp = 2"
    by (auto simp: demo_node2_def demo_node_simps)
  with r show ?thesis by blast
qed

end
