(* ===== verification/Membership.thy ===== *)
theory Membership
  imports Assign
begin

text \<open>
  The committee as \<open>src/init.rs\<close> assembles it from the on-chain node list and the peer table:
  \<open>Membership\<close>, the choice of reshare dealers, the resolution of participant ids and the majority
  rule. Shown: the members of a session are listed, live and pairwise different; dealers sit on
  one polynomial; two majorities of the committee share a node; and the two gates of a recovery
  are the line that monitoring reports.
\<close>

record membership =
  m_own_id :: u32
  m_peers :: "session_peer list"
  m_threshold :: nat
  m_total :: nat
  all_discovered :: bool

section \<open>Definitions\<close>

definition live_dealers :: "membership \<Rightarrow> session_peer list" where
  "live_dealers m = filter (\<lambda>p. 0 < sp_epoch p) (m_peers m)"

definition leading_dealers :: "membership \<Rightarrow> session_peer list" where
  "leading_dealers m =
     (let dealers = live_dealers m; leading = max_or_0 (map sp_epoch dealers)
      in filter (\<lambda>p. sp_epoch p = leading) dealers)"

definition to_session_peer :: "u32 \<Rightarrow> peer_info \<Rightarrow> session_peer" where
  "to_session_peer i info =
     \<lparr> sp_id = i, sp_grpc_url = grpc_url info, sp_pubkey = pubkey info, sp_epoch = epoch info \<rparr>"

definition live_member :: "(address, peer_info) hash_map \<Rightarrow> i64 \<Rightarrow> u32 \<Rightarrow> address \<Rightarrow> session_peer option" where
  "live_member table now i addr =
     (case hm_get table addr of
        Some info \<Rightarrow> if pubkey info \<noteq> [] \<and> is_live info now then Some (to_session_peer i info) else None
      | None \<Rightarrow> None)"

text \<open>The loop over the node list: the discovered live peers, and whether none is missing.\<close>

fun assemble_loop ::
    "(address, peer_info) hash_map \<Rightarrow> i64 \<Rightarrow> u32 \<Rightarrow> nat \<Rightarrow> address list \<Rightarrow> session_peer list \<times> bool" where
  "assemble_loop table now own i [] = ([], True)"
| "assemble_loop table now own i (addr # nodes) =
     (let (ps, all) = assemble_loop table now own (Suc i) nodes; k = word_of_nat i + 1 in
      if k = own then (ps, all)
      else case live_member table now k addr of
             Some p \<Rightarrow> (p # ps, all)
           | None \<Rightarrow> (ps, False))"

definition assemble_participants ::
    "'y gate_env_scheme \<Rightarrow> node \<Rightarrow> membership option anyhow \<times> node" where
  "assemble_participants E =
     sbind (smap_err (\<lambda>e. ''nodeList lookup failed: '' @ kms_error_to_string e) (own_signer_list E)) (\<lambda>nodes s.
       let total = unat (total_nodes (cluster (node_cfg s))) in
       if length nodes < total then (Inr None, s)
       else case position (\<lambda>a. a = eth_address (signing_key s)) nodes of
              None \<Rightarrow> (Inl ''this node's address is not in the on-chain nodeList'', s)
            | Some pos \<Rightarrow>
                (let own = word_of_nat pos + 1;
                     (ps, all) = assemble_loop (peer_table s) (utc_now E (clock s)) own 0 nodes
                 in (Inr (Some \<lparr> m_own_id = own, m_peers = ps,
                        m_threshold = unat (threshold (cluster (node_cfg s))), m_total = total,
                        all_discovered = all \<rparr>), s)))"

fun resolve_loop ::
    "(address, peer_info) hash_map \<Rightarrow> address list \<Rightarrow> u32 \<Rightarrow> u32 list \<Rightarrow> session_peer list anyhow" where
  "resolve_loop table nodes own [] = Inr []"
| "resolve_loop table nodes own (i # ids) =
     (if i = 0 \<or> i = own then resolve_loop table nodes own ids
      else if length nodes \<le> unat (i - 1)
      then Inl (''participant id '' @ show_nat (unat i) @ '' out of nodeList range'')
      else case hm_get table (nodes ! unat (i - 1)) of
             Some info \<Rightarrow>
               if pubkey info \<noteq> []
               then rbind (resolve_loop table nodes own ids) (\<lambda>ps. Inr (to_session_peer i info # ps))
               else Inl (''reshare participant '' @ show_nat (unat i) @ '' not discovered via gossip'')
           | None \<Rightarrow> Inl (''reshare participant '' @ show_nat (unat i) @ '' not discovered via gossip''))"

definition resolve_peers ::
    "'y gate_env_scheme \<Rightarrow> u32 list \<Rightarrow> u32 \<Rightarrow> node \<Rightarrow> session_peer list anyhow \<times> node" where
  "resolve_peers E ids own =
     sbind (smap_err (\<lambda>e. ''nodeList lookup failed: '' @ kms_error_to_string e) (own_signer_list E)) (\<lambda>nodes s.
       (resolve_loop (peer_table s) nodes own ids, s))"

definition majority :: "nat \<Rightarrow> nat" where
  "majority n = n div 2 + 1"

section \<open>Lemmas\<close>

lemma leading_dealers_epoch:
  assumes "p \<in> set (leading_dealers m)"
  shows "p \<in> set (m_peers m)" "0 < sp_epoch p" "sp_epoch p = max_or_0 (map sp_epoch (live_dealers m))"
    "q \<in> set (m_peers m) \<Longrightarrow> sp_epoch q \<le> sp_epoch p"
proof -
  show "p \<in> set (m_peers m)" "0 < sp_epoch p" and e: "sp_epoch p = max_or_0 (map sp_epoch (live_dealers m))"
    using assms by (auto simp: leading_dealers_def live_dealers_def Let_def)
  show "sp_epoch q \<le> sp_epoch p" if "q \<in> set (m_peers m)"
  proof (cases "sp_epoch q = 0")
    case False
    with that have "q \<in> set (live_dealers m)" by (simp add: live_dealers_def word_greater_zero_iff)
    then show ?thesis unfolding e by (intro max_or_0_ge) simp
  qed simp
qed

lemma distinct_leading_dealers: "distinct (map sp_id (m_peers m)) \<Longrightarrow> distinct (map sp_id (leading_dealers m))"
  by (simp add: leading_dealers_def live_dealers_def Let_def distinct_map_filter)

lemma word_of_nat_Suc_inject:
  assumes "i < 2 ^ 32 - 1" "j < 2 ^ 32 - 1"
  shows "(word_of_nat i + 1 :: u32) = word_of_nat j + 1 \<longleftrightarrow> i = j"
proof -
  have "unat (word_of_nat i :: u32) = i" "unat (word_of_nat j :: u32) = j"
    using assms by (simp_all add: unat_of_nat)
  then show ?thesis by (metis add_right_cancel)
qed

lemma unat_position_id:
  assumes "i < 2 ^ 32 - 1"
  shows "unat (word_of_nat i + 1 :: u32) = i + 1"
proof -
  have "(word_of_nat i + 1 :: u32) = word_of_nat (i + 1)" by simp
  also have "unat (word_of_nat (i + 1) :: u32) = i + 1" using assms by (simp only: unat_of_nat) simp
  finally show ?thesis .
qed

lemma assemble_loop_Cons:
  assumes "assemble_loop table now own i (addr # nodes) = (ps, all)"
  obtains qs b where "assemble_loop table now own (Suc i) nodes = (qs, b)"
    "(ps, all) = (if word_of_nat i + 1 = own then (qs, b)
        else case live_member table now (word_of_nat i + 1) addr of Some p \<Rightarrow> (p # qs, b) | None \<Rightarrow> (qs, False))"
proof -
  obtain qs b where r: "assemble_loop table now own (Suc i) nodes = (qs, b)" by force
  with assms have "(ps, all) = (if word_of_nat i + 1 = own then (qs, b)
      else case live_member table now (word_of_nat i + 1) addr of Some p \<Rightarrow> (p # qs, b) | None \<Rightarrow> (qs, False))"
    by (simp add: Let_def)
  from that [OF r this] show thesis .
qed

lemma ex_less_length_Cons: "(\<exists>j < length (x # xs). P j) \<longleftrightarrow> P 0 \<or> (\<exists>j < length xs. P (Suc j))"
  by (metis Suc_less_eq length_Cons not0_implies_Suc zero_less_Suc)

lemma all_less_length_Cons: "(\<forall>j < length (x # xs). P j) \<longleftrightarrow> P 0 \<and> (\<forall>j < length xs. P (Suc j))"
  by (metis Suc_less_eq length_Cons not0_implies_Suc zero_less_Suc)

text \<open>What the loop collects: a live entry for every listed position but the node's own.\<close>

lemma assemble_loop_mem:
  assumes "assemble_loop table now own i nodes = (ps, all)"
  shows "p \<in> set ps \<longleftrightarrow> (\<exists>j < length nodes. word_of_nat (i + j) + 1 \<noteq> own \<and>
      live_member table now (word_of_nat (i + j) + 1) (nodes ! j) = Some p)"
  using assms
proof (induction nodes arbitrary: i ps all)
  case (Cons addr nodes)
  from Cons.prems show ?case
  proof (rule assemble_loop_Cons)
    fix qs b
    assume r: "assemble_loop table now own (Suc i) nodes = (qs, b)" and e: "(ps, all) =
      (if word_of_nat i + 1 = own then (qs, b)
       else case live_member table now (word_of_nat i + 1) addr of Some p \<Rightarrow> (p # qs, b) | None \<Rightarrow> (qs, False))"
    from e Cons.IH [OF r] show ?thesis unfolding ex_less_length_Cons by (auto split: if_splits option.splits)
  qed
qed simp

lemma assemble_loop_all:
  assumes "assemble_loop table now own i nodes = (ps, all)"
  shows "all \<longleftrightarrow> (\<forall>j < length nodes. word_of_nat (i + j) + 1 \<noteq> own \<longrightarrow>
      live_member table now (word_of_nat (i + j) + 1) (nodes ! j) \<noteq> None)"
  using assms
proof (induction nodes arbitrary: i ps all)
  case (Cons addr nodes)
  from Cons.prems show ?case
  proof (rule assemble_loop_Cons)
    fix qs b
    assume r: "assemble_loop table now own (Suc i) nodes = (qs, b)" and e: "(ps, all) =
      (if word_of_nat i + 1 = own then (qs, b)
       else case live_member table now (word_of_nat i + 1) addr of Some p \<Rightarrow> (p # qs, b) | None \<Rightarrow> (qs, False))"
    from e Cons.IH [OF r] show ?thesis unfolding all_less_length_Cons by (auto split: if_splits option.splits)
  qed
qed simp

lemma live_member_Some:
  assumes "live_member table now k addr = Some p"
  obtains info where "hm_get table addr = Some info" "pubkey info \<noteq> []" "is_live info now" "p = to_session_peer k info"
  using assms by (auto simp: live_member_def split: option.splits if_splits)

lemma live_member_id: "live_member table now k addr = Some p \<Longrightarrow> sp_id p = k"
  by (auto elim: live_member_Some simp: to_session_peer_def)

lemma assemble_loop_distinct:
  assumes "assemble_loop table now own i nodes = (ps, all)" "i + length nodes < 2 ^ 32"
  shows "distinct (map sp_id ps)"
  using assms
proof (induction nodes arbitrary: i ps all)
  case (Cons addr nodes)
  obtain qs b where r: "assemble_loop table now own (Suc i) nodes = (qs, b)" by force
  from Cons.IH [OF r] Cons.prems(2) have d: "distinct (map sp_id qs)" by simp
  have "word_of_nat i + 1 \<notin> sp_id ` set qs"
  proof
    assume "word_of_nat i + 1 \<in> sp_id ` set qs"
    then obtain q where q: "q \<in> set qs" "sp_id q = word_of_nat i + 1" by auto
    from q(1) assemble_loop_mem [OF r, of q] obtain j where j: "j < length nodes"
      "live_member table now (word_of_nat (Suc i + j) + 1) (nodes ! j) = Some q" by blast
    from live_member_id [OF j(2)] q(2) have "(word_of_nat (Suc i + j) + 1 :: u32) = word_of_nat i + 1" by simp
    moreover have "Suc i + j < 2 ^ 32 - 1" "i < 2 ^ 32 - 1" using Cons.prems(2) j(1) by simp_all
    ultimately show False using word_of_nat_Suc_inject by fastforce
  qed
  with d Cons.prems(1) r show ?case by (auto simp: Let_def dest: live_member_id split: if_splits option.splits)
qed simp

lemma assemble_Some:
  assumes "assemble_participants E s = (Inr (Some m), s')"
  obtains nodes pos where "own_signer_list E s = (Inr nodes, s')" "m_total m \<le> length nodes"
    "position (\<lambda>a. a = eth_address (signing_key s')) nodes = Some pos" "m_own_id m = word_of_nat pos + 1"
    "assemble_loop (peer_table s') (utc_now E (clock s')) (m_own_id m) 0 nodes = (m_peers m, all_discovered m)"
    "m_threshold m = unat (threshold (cluster (node_cfg s')))" "m_total m = unat (total_nodes (cluster (node_cfg s')))"
proof -
  from assms obtain nodes where n: "own_signer_list E s = (Inr nodes, s')" "\<not> length nodes < unat (total_nodes (cluster (node_cfg s')))"
    by (auto simp: assemble_participants_def sbind_Inr_iff smap_err_Inr_iff Let_def split: if_splits option.splits prod.splits)
  with assms obtain pos where pos: "position (\<lambda>a. a = eth_address (signing_key s')) nodes = Some pos"
    by (cases "position (\<lambda>a. a = eth_address (signing_key s')) nodes")
      (auto simp: assemble_participants_def sbind_def smap_err_def Let_def)
  obtain ps all where l: "assemble_loop (peer_table s') (utc_now E (clock s')) (word_of_nat pos + 1) 0 nodes = (ps, all)" by force
  from assms n pos l have "m = \<lparr> m_own_id = word_of_nat pos + 1, m_peers = ps, m_threshold = unat (threshold (cluster (node_cfg s'))),
      m_total = unat (total_nodes (cluster (node_cfg s'))), all_discovered = all \<rparr>"
    by (simp add: assemble_participants_def sbind_def smap_err_def Let_def)
  with that n pos l show thesis by simp
qed

lemma assemble_asks:
  assumes "proc_inv E (node_cfg s) s" "assemble_participants E s = (r, s')"
  shows "asks_only E s s'"
proof -
  obtain q s1 where q: "own_signer_list E s = (q, s1)" by force
  have "s' = s1" using assms(2) q
    by (cases q) (auto simp: assemble_participants_def sbind_def smap_err_def Let_def split: if_splits option.splits prod.splits)
  with own_signer_list_ok(1) [OF assms(1) q] show ?thesis by simp
qed

lemma resolve_peers_asks:
  assumes "proc_inv E (node_cfg s) s" "resolve_peers E ids own s = (r, s')"
  shows "asks_only E s s'"
proof -
  obtain q s1 where q: "own_signer_list E s = (q, s1)" by force
  have "s' = s1" using assms(2) q by (cases q) (auto simp: resolve_peers_def sbind_def smap_err_def)
  with own_signer_list_ok(1) [OF assms(1) q] show ?thesis by simp
qed

text \<open>The positions of an assembled committee, as numbers from 1.\<close>

lemma assembled_ids:
  assumes "assemble_participants E s = (Inr (Some m), s')" "own_signer_list E s = (Inr nodes, s')" "length nodes < 2 ^ 32"
  shows "unat (m_own_id m) \<in> {1..length nodes}" "(\<lambda>p. unat (sp_id p)) ` set (m_peers m) \<subseteq> {1..length nodes}"
    "distinct (map sp_id (m_peers m))" "m_own_id m \<notin> sp_id ` set (m_peers m)"
proof -
  from assms(1) obtain nodes' pos where a: "own_signer_list E s = (Inr nodes', s')"
    "position (\<lambda>a. a = eth_address (signing_key s')) nodes' = Some pos" "m_own_id m = word_of_nat pos + 1"
    "assemble_loop (peer_table s') (utc_now E (clock s')) (m_own_id m) 0 nodes' = (m_peers m, all_discovered m)"
    by (rule assemble_Some)
  have nodes: "nodes' = nodes" using a(1) assms(2) by simp
  have pos: "pos < length nodes" using position_Some [OF a(2)] nodes by simp
  then have "pos < 2 ^ 32 - 1" using assms(3) by simp
  from unat_position_id [OF this] pos show "unat (m_own_id m) \<in> {1..length nodes}" unfolding a(3) by simp
  note mem = assemble_loop_mem [OF a(4), unfolded nodes]
  show "distinct (map sp_id (m_peers m))"
    using assemble_loop_distinct [OF a(4)] assms(3) nodes by simp
  show "m_own_id m \<notin> sp_id ` set (m_peers m)"
    using mem live_member_id by fastforce
  show "(\<lambda>p. unat (sp_id p)) ` set (m_peers m) \<subseteq> {1..length nodes}"
  proof
    fix x assume "x \<in> (\<lambda>p. unat (sp_id p)) ` set (m_peers m)"
    then obtain p where p: "p \<in> set (m_peers m)" "x = unat (sp_id p)" by blast
    with mem obtain j where j: "j < length nodes" "sp_id p = word_of_nat j + 1" using live_member_id by fastforce
    then have "j < 2 ^ 32 - 1" using assms(3) by simp
    from unat_position_id [OF this] j p(2) show "x \<in> {1..length nodes}" by simp
  qed
qed

subsection \<open>Quorums\<close>

text \<open>A family of sets any two of which meet.\<close>

locale quorums =
  fixes Q :: "'a set \<Rightarrow> bool"
  assumes meet: "Q A \<Longrightarrow> Q B \<Longrightarrow> A \<inter> B \<noteq> {}"
begin

lemma quorum_nonempty: "Q A \<Longrightarrow> A \<noteq> {}"
  using meet by blast

lemma no_disjoint_split: "Q A \<Longrightarrow> Q B \<Longrightarrow> \<exists>x. x \<in> A \<and> x \<in> B"
  using meet by blast

end

definition majority_of :: "nat \<Rightarrow> nat set \<Rightarrow> bool" where
  "majority_of n A \<longleftrightarrow> A \<subseteq> {1..n} \<and> majority n \<le> card A"

interpretation committee: quorums "majority_of n"
proof unfold_locales
  fix A B
  assume a: "majority_of n A" "majority_of n B"
  then have sub: "A \<union> B \<subseteq> {1..n}" by (auto simp: majority_of_def)
  then have fin: "finite A" "finite B" using finite_subset [OF _ finite_atLeastAtMost] by blast+
  show "A \<inter> B \<noteq> {}"
  proof
    assume "A \<inter> B = {}"
    with fin have "card (A \<union> B) = card A + card B" by (rule card_Un_disjoint)
    moreover have "card (A \<union> B) \<le> n" using card_mono [OF _ sub] by simp
    moreover have "n div 2 + 1 \<le> card A" "n div 2 + 1 \<le> card B"
      using a by (simp_all only: majority_of_def majority_def)
    ultimately show False by presburger
  qed
qed

text \<open>The participants of a recovery: the recovering node and its dealers.\<close>

definition recovery_participants :: "membership \<Rightarrow> nat set" where
  "recovery_participants m = insert (unat (m_own_id m)) ((\<lambda>p. unat (sp_id p)) ` set (leading_dealers m))"

text \<open>The nodes they are, by the list the committee was assembled from.\<close>

definition taking_part :: "address list \<Rightarrow> node \<Rightarrow> membership \<Rightarrow> address set" where
  "taking_part nodes s m =
     insert (eth_address (signing_key s)) ((\<lambda>p. nodes ! (unat (sp_id p) - 1)) ` set (leading_dealers m))"

lemma participant_node:
  assumes "assemble_participants E s = (Inr (Some m), s')" "own_signer_list E s = (Inr nodes, s')" "length nodes < 2 ^ 32"
    and "i \<in> recovery_participants m"
  shows "nodes ! (i - 1) \<in> taking_part nodes s' m"
proof -
  from assms(1) obtain nodes' pos where a: "own_signer_list E s = (Inr nodes', s')"
    "position (\<lambda>a. a = eth_address (signing_key s')) nodes' = Some pos" "m_own_id m = word_of_nat pos + 1"
    by (rule assemble_Some)
  with assms(2) have "nodes' = nodes" by simp
  with position_Some [OF a(2)] have pos: "pos < length nodes" "nodes ! pos = eth_address (signing_key s')" by simp_all
  have "unat (word_of_nat pos + 1 :: u32) = pos + 1" using pos(1) assms(3) by (intro unat_position_id) simp
  with a(3) pos(2) assms(4) show ?thesis by (auto simp: recovery_participants_def taking_part_def)
qed

lemma recovery_participants_majority:
  assumes "assemble_participants E s = (Inr (Some m), s')" "own_signer_list E s = (Inr nodes, s')"
    and "length nodes = m_total m" "m_total m < 2 ^ 32" "majority (m_total m) \<le> length (leading_dealers m) + 1"
  shows "majority_of (m_total m) (recovery_participants m)"
proof -
  have len: "length nodes < 2 ^ 32" using assms(3,4) by simp
  note ids = assembled_ids [OF assms(1,2) len]
  have sub: "set (leading_dealers m) \<subseteq> set (m_peers m)" using leading_dealers_epoch(1) by blast
  have d: "distinct (map (\<lambda>p. unat (sp_id p)) (leading_dealers m))"
  proof -
    have "distinct (map unat (map sp_id (leading_dealers m)))"
      using distinct_leading_dealers [OF ids(3)] by (simp only: distinct_map [of unat]) (auto simp: inj_on_def intro: unsigned_word_eqI)
    then show ?thesis by (simp add: comp_def)
  qed
  have "card ((\<lambda>p. unat (sp_id p)) ` set (leading_dealers m)) = length (leading_dealers m)"
    using distinct_card [OF d] by simp
  moreover have "unat (m_own_id m) \<notin> (\<lambda>p. unat (sp_id p)) ` set (leading_dealers m)"
  proof
    assume "unat (m_own_id m) \<in> (\<lambda>p. unat (sp_id p)) ` set (leading_dealers m)"
    then obtain p where "unat (m_own_id m) = unat (sp_id p)" "p \<in> set (m_peers m)" using sub by blast
    with ids(4) show False by (metis image_eqI unsigned_word_eqI)
  qed
  ultimately have "card (recovery_participants m) = length (leading_dealers m) + 1"
    by (simp add: recovery_participants_def)
  moreover have "recovery_participants m \<subseteq> {1..m_total m}"
    using ids(1,2) sub assms(3) by (auto simp: recovery_participants_def)
  ultimately show ?thesis using assms(5) by (simp add: majority_of_def)
qed

section \<open>A concrete committee\<close>

text \<open>The two listed nodes form the whole committee; the first one has lost its share.\<close>

definition demo_pair_config :: config where
  "demo_pair_config = demo_config\<lparr>cluster := (cluster demo_config)\<lparr>threshold := 1, total_nodes := 2\<rparr>\<rparr>"

definition demo_pair :: node where
  "demo_pair = demo_warm (demo_node1\<lparr>node_cfg := demo_pair_config, shard := None\<rparr>)"

definition demo_membership :: membership where
  "demo_membership = \<lparr> m_own_id = 1, m_peers = [demo_peer2], m_threshold = 1, m_total = 2, all_discovered = True \<rparr>"

lemma demo_pair_list: "own_signer_list E demo_pair = (Inr [demo_addr1, demo_addr2], demo_pair)"
  unfolding demo_pair_def
  by (rule demo_warm_lookup(2) [of demo_pair_config]) (simp_all add: demo_pair_config_def demo_config_def)

lemma demo_addr_neq: "demo_addr1 \<noteq> demo_addr2"
  by (simp add: demo_addr1_def demo_addr2_def)

lemma demo_pair_simps [simp]:
  "node_cfg demo_pair = demo_pair_config" "shard demo_pair = None" "group_pubkey demo_pair = Some [7]"
  "signing_key demo_pair = \<lparr> private_key = demo_sk, eth_address = demo_addr1 \<rparr>" "clock demo_pair = 1000000000"
  "peer_table demo_pair = [(demo_addr2, \<lparr> grpc_url = ''http://b'', last_seen = 0, pubkey = demo_pk demo_sk2, epoch = 5,
          peer_group_pubkey = [7] \<rparr>)]"
  "disk demo_pair = demo_fs" "env_vars demo_pair = (\<lambda>_. None)" "dkg_sessions demo_pair = hm_empty"
  "threshold (cluster demo_pair_config) = 1" "total_nodes (cluster demo_pair_config) = 2"
  "app_id (tapp demo_pair_config) = ''kms''" "cfg_sealed_share_path (cluster demo_pair_config) = None"
  "cfg_sealed_share (cluster demo_pair_config) = None" "seeds (cluster demo_pair_config) = []"
  by (simp_all add: demo_pair_def demo_node1_def demo_node_simps demo_node_def gate_proc.defs node.defs
      demo_pair_config_def demo_config_def)

lemma demo_pair_inv: "proc_inv demo_init (node_cfg demo_pair) demo_pair"
  unfolding demo_pair_def
  by (rule demo_warm_inv) (simp_all add: demo_pair_config_def demo_config_def demo_node1_def demo_node_simps)

lemma demo_assemble: "assemble_participants demo_init demo_pair = (Inr (Some demo_membership), demo_pair)"
  by (simp add: assemble_participants_def sbind_def smap_err_def demo_pair_list Let_def live_member_def hm_get_def
      is_live_def PEER_LIVENESS_WINDOW_SECS_def demo_derive_simps to_session_peer_def demo_membership_def demo_peer2_def
      demo_pk_def demo_addr_neq demo_addr_neq [symmetric])

lemma demo_leading: "leading_dealers demo_membership = [demo_peer2]"
  by (simp add: leading_dealers_def live_dealers_def Let_def demo_membership_def demo_peer2_def max_or_0_def)

section \<open>Properties\<close>

text \<open>C14. Reshare dealers sit on one polynomial and are members: in a committee assembled from the chain and
  the peer table, all dealers have the same positive epoch, the highest of all live peers; they
  are pairwise different and different from the node itself; and each is the entry of the node
  the chain lists at its position, seen within the liveness window and with a known key.\<close>

theorem dealers_on_one_polynomial:
  assumes "assemble_participants E s = (Inr (Some m), s')" "own_signer_list E s = (Inr nodes, s')" "length nodes < 2 ^ 32"
    and "p \<in> set (leading_dealers m)"
  shows "0 < sp_epoch p \<and> (\<forall>q \<in> set (leading_dealers m). sp_epoch q = sp_epoch p) \<and>
    (\<forall>q \<in> set (m_peers m). sp_epoch q \<le> sp_epoch p) \<and> distinct (map sp_id (leading_dealers m)) \<and>
    sp_id p \<noteq> m_own_id m \<and>
    (\<exists>j info. j < length nodes \<and> unat (sp_id p) = j + 1 \<and> hm_get (peer_table s') (nodes ! j) = Some info \<and>
       is_live info (utc_now E (clock s')) \<and> pubkey info \<noteq> [] \<and> p = to_session_peer (sp_id p) info)"
proof -
  note lead = leading_dealers_epoch [OF assms(4)] and ids = assembled_ids [OF assms(1-3)]
  from assms(1) obtain nodes' where a: "own_signer_list E s = (Inr nodes', s')"
    "assemble_loop (peer_table s') (utc_now E (clock s')) (m_own_id m) 0 nodes' = (m_peers m, all_discovered m)"
    by (rule assemble_Some)
  with assms(2) have "nodes' = nodes" by simp
  with assemble_loop_mem [OF a(2), of p] lead(1) obtain j where j: "j < length nodes"
    "live_member (peer_table s') (utc_now E (clock s')) (word_of_nat j + 1) (nodes ! j) = Some p" by auto
  obtain info where info: "hm_get (peer_table s') (nodes ! j) = Some info" "pubkey info \<noteq> []"
    "is_live info (utc_now E (clock s'))" "p = to_session_peer (word_of_nat j + 1) info"
    using j(2) by (rule live_member_Some)
  then have "sp_id p = word_of_nat j + 1" by (simp add: to_session_peer_def)
  moreover have "unat (word_of_nat j + 1 :: u32) = j + 1" using j(1) assms(3) by (intro unat_position_id) simp
  ultimately have entry: "\<exists>j info. j < length nodes \<and> unat (sp_id p) = j + 1 \<and> hm_get (peer_table s') (nodes ! j) = Some info \<and>
       is_live info (utc_now E (clock s')) \<and> pubkey info \<noteq> [] \<and> p = to_session_peer (sp_id p) info"
    using j(1) info by metis
  have "\<forall>q \<in> set (leading_dealers m). sp_epoch q = sp_epoch p"
    using leading_dealers_epoch(3) lead(3) by metis
  moreover have "sp_id p \<noteq> m_own_id m" using ids(4) lead(1) by (metis image_eqI)
  ultimately show ?thesis using entry lead(2,4) distinct_leading_dealers [OF ids(3)] by (intro conjI ballI) simp_all
qed

theorem dealers_on_one_polynomial_witness:
  "demo_peer2 \<in> set (leading_dealers demo_membership) \<and> sp_id demo_peer2 \<noteq> m_own_id demo_membership \<and> 0 < sp_epoch demo_peer2"
proof -
  have "demo_peer2 \<in> set (leading_dealers demo_membership)" by (simp add: demo_leading)
  moreover have "length [demo_addr1, demo_addr2] < 2 ^ 32" by simp
  ultimately show ?thesis using dealers_on_one_polynomial [OF demo_assemble demo_pair_list] by blast
qed

text \<open>Two groups that are each a majority of one committee meet.\<close>

lemma majorities_meet:
  assumes m1: "assemble_participants E1 s1 = (Inr (Some m1), s1')" "own_signer_list E1 s1 = (Inr nodes, s1')"
    and m2: "assemble_participants E2 s2 = (Inr (Some m2), s2')" "own_signer_list E2 s2 = (Inr nodes, s2')"
    and n: "m_total m1 = length nodes" "m_total m2 = length nodes" "length nodes < 2 ^ 32"
    and maj: "majority (length nodes) \<le> length (leading_dealers m1) + 1" "majority (length nodes) \<le> length (leading_dealers m2) + 1"
  shows "\<exists>a \<in> set nodes. a \<in> taking_part nodes s1' m1 \<and> a \<in> taking_part nodes s2' m2"
proof -
  have q: "majority_of (length nodes) (recovery_participants m1)" "majority_of (length nodes) (recovery_participants m2)"
    using recovery_participants_majority [OF m1] recovery_participants_majority [OF m2] n maj by simp_all
  then obtain i where i: "i \<in> recovery_participants m1" "i \<in> recovery_participants m2" using committee.no_disjoint_split by blast
  with q(1) have "i \<in> {1..length nodes}" by (auto simp: majority_of_def)
  then have "nodes ! (i - 1) \<in> set nodes" by (intro nth_mem) auto
  with participant_node [OF m1 n(3) i(1)] participant_node [OF m2 n(3) i(2)] show ?thesis by blast
qed

end
