(* ===== verification/Reshare.thy ===== *)
theory Reshare
  imports Membership
begin

text \<open>
  How a node obtains and replaces its share (\<open>src/init.rs\<close>): \<open>store_share\<close> and \<open>try_reload_sealed\<close>,
  the genesis DKG, the two sides of a reshare, the refresh, and the \<open>StartReshare\<close> handler of
  \<open>src/grpc.rs\<close>. Shown: a known master is never replaced, a session moves the epoch strictly
  forward as long as no other session commits beside it (and may move it back when one does), what
  was stored is what a restart reloads, a stale blob is never adopted, and a failed session changes
  nothing. Error texts end before the dash that introduces advice to the operator.
\<close>

section \<open>Definitions\<close>

definition DKG_ROUND_TIMEOUT :: nat where
  "DKG_ROUND_TIMEOUT = from_secs 60"

subsection \<open>Storing and reloading a share\<close>

definition persist_sealed :: "'y seal_crates_scheme \<Rightarrow> shard_state \<Rightarrow> bytes \<Rightarrow> node \<Rightarrow> node" where
  "persist_sealed L sh gpk s =
     (case pubkey_from_private L (private_key (signing_key s)) of
        Inl _ \<Rightarrow> bump sealed_persist_fail_update s
      | Inr pk \<Rightarrow>
          (case seal_b64 L pk (sealed_share_new (shard_index sh) (shard_epoch sh) gpk (shard_bytes sh)) of
             Inl _ \<Rightarrow> bump sealed_persist_fail_update s
           | Inr b64 \<Rightarrow>
               (let s1 = s\<lparr>sealed_blob := Some b64\<rparr> in
                case sealed_share_path s1 of
                  None \<Rightarrow> s1
                | Some path \<Rightarrow>
                    (let (d, r) = write_blob_file path b64 (disk s1)
                     in if is_ok r then s1\<lparr>disk := d\<rparr> else bump sealed_persist_fail_update (s1\<lparr>disk := d\<rparr>)))))"

definition acquired :: "node \<Rightarrow> node" where
  "acquired s = s\<lparr>mets := note_share_acquired (clock s) (mets s)\<rparr>"

definition store_share :: "'y seal_crates_scheme \<Rightarrow> shard_state \<Rightarrow> bytes \<Rightarrow> node \<Rightarrow> node" where
  "store_share L sh gpk s =
     (let s1 = persist_sealed L sh gpk s;
          s2 = snd (check_master_baseline L (sealed_share_path s1) gpk s1)
      in (acquired s2)\<lparr>group_pubkey := Some gpk, shard := Some sh\<rparr>)"

text \<open>The blob to reload: given explicitly, else from the persisted file.\<close>

definition reload_blob :: "node \<Rightarrow> string option \<times> node" where
  "reload_blob s =
     (case sealed_share_blob s of
        Some v \<Rightarrow> (Some v, s)
      | None \<Rightarrow>
          (case sealed_share_path s of
             None \<Rightarrow> (None, s)
           | Some p \<Rightarrow>
               (case read_blob_file p (disk s) of
                  Inr v \<Rightarrow> (v, s)
                | Inl _ \<Rightarrow> (None, bump sealed_persist_fail_update s))))"

text \<open>Sleeping: other tasks run in the meantime.\<close>

definition pause :: "('sc, 'pa, 'sg, 'pk, 'st, 'd, 'y) init_env_scheme \<Rightarrow> nat \<Rightarrow> node \<Rightarrow> node" where
  "pause E d s = tick d (meanwhile E (clock s) d s)"

fun wait_for_peers :: "('sc, 'pa, 'sg, 'pk, 'st, 'd, 'y) init_env_scheme \<Rightarrow> nat \<Rightarrow> node \<Rightarrow> node" where
  "wait_for_peers E 0 s = s"
| "wait_for_peers E (Suc n) s =
     (if peer_table s \<noteq> [] then s else wait_for_peers E n (pause E (from_secs 3) s))"

definition adopt_sealed :: "'y seal_crates_scheme \<Rightarrow> string \<Rightarrow> sealed_share \<Rightarrow> node \<Rightarrow> node" where
  "adopt_sealed L b64 rec s =
     (let s1 = s\<lparr>sealed_blob := Some (trim b64)\<rparr>;
          s2 = snd (check_master_baseline L (sealed_share_path s1) (master_id rec) s1)
      in (acquired s2)\<lparr>group_pubkey := Some (master_id rec),
           shard := Some \<lparr> shard_index = sealed_shard_index rec, shard_bytes = share_bytes rec,
                           shard_epoch = sealed_epoch rec \<rparr>\<rparr>)"

definition try_reload_sealed ::
    "('sc, 'pa, 'sg, 'pk, 'st, 'd, 'y) init_env_scheme \<Rightarrow> node \<Rightarrow> bool \<times> node" where
  "try_reload_sealed E s =
     (case reload_blob s of
        (None, s1) \<Rightarrow> (False, s1)
      | (Some b64, s1) \<Rightarrow>
          (case unseal_b64 E b64 (private_key (signing_key s1)) of
             Inr (Some rec) \<Rightarrow>
               (let s2 = wait_for_peers E 6 s1 in
                if sealed_epoch rec < known_epoch s2
                then (False, bump sealed_stale_discarded_update s2)
                else (True, adopt_sealed E b64 rec s2))
           | Inr None \<Rightarrow> (False, bump sealed_identity_mismatch_update s1)
           | Inl _ \<Rightarrow> (False, bump sealed_identity_mismatch_update s1)))"

subsection \<open>Sessions\<close>

text \<open>\<open>Parameters::new\<close> on checked numbers.\<close>

definition dkg_params :: "nat \<Rightarrow> nat \<Rightarrow> (nat \<times> nat) anyhow" where
  "dkg_params t n =
     (if t = 0 then Inl ''threshold must be > 0''
      else if n = 0 then Inl ''total_nodes must be > 0'' else Inr (t, n))"

definition new_shard :: "('sc, 'pa, 'sg, 'pk) bls \<Rightarrow> u32 \<Rightarrow> 'sc \<Rightarrow> u64 \<Rightarrow> shard_state" where
  "new_shard B own share ep =
     \<lparr> shard_index = own, shard_bytes = share_to_bytes B (gennaro_share_to_blsful B (unat own) share), shard_epoch = ep \<rparr>"

definition run_genesis ::
    "('sc, 'pa, 'sg, 'pk, 'st, 'd, 'y) init_env_scheme \<Rightarrow> membership \<Rightarrow> node \<Rightarrow> unit anyhow \<times> node" where
  "run_genesis E m =
     sbind (\<lambda>s. (dkg_params (m_threshold m) (m_total m), s)) (\<lambda>(t, n).
     sbind (step_err ''genesis participant init'' (secret_new (gennaro E) (unat (m_own_id m)) t n)) (\<lambda>part s.
     sbind (run_session E (''genesis:'' @ app_id (tapp (node_cfg s))) part (m_peers m) DKG_ROUND_TIMEOUT) (\<lambda>(share, pk) s.
       (Inr (), store_share E (new_shard (blsful E) (m_own_id m) share GENESIS_EPOCH) pk s)) s))"

text \<open>The commit of a reshare: refused when it would replace a known master.\<close>

definition commit_reshare ::
    "('sc, 'pa, 'sg, 'pk, 'y) derive_env_scheme \<Rightarrow> string \<Rightarrow> shard_state \<Rightarrow> bytes \<Rightarrow> node \<Rightarrow> unit anyhow \<times> node" where
  "commit_reshare E text sh pk s =
     (case group_pubkey s of
        Some known \<Rightarrow> if known \<noteq> pk then (Inl text, s) else (Inr (), store_share E sh pk s)
      | None \<Rightarrow> (Inr (), store_share E sh pk s))"

definition send_start_reshare ::
    "('sc, 'pa, 'sg, 'pk, 'st, 'd, 'y) init_env_scheme \<Rightarrow> reshare_request \<Rightarrow> bytes \<Rightarrow> i64 \<Rightarrow> session_peer \<Rightarrow> node \<Rightarrow> node" where
  "send_start_reshare E req sig ts peer s =
     tick (snd (net_start_reshare E (clock s) (sp_grpc_url peer) (request_metadata E sig ts) req)) s"

definition trigger_dealers ::
    "('sc, 'pa, 'sg, 'pk, 'st, 'd, 'y) init_env_scheme \<Rightarrow> session_peer list \<Rightarrow> reshare_request \<Rightarrow> bytes \<Rightarrow> i64 \<Rightarrow> node \<Rightarrow> node" where
  "trigger_dealers E peers req sig ts s = foldl (\<lambda>s peer. send_start_reshare E req sig ts peer s) s peers"

definition session_name :: "string \<Rightarrow> u64 \<Rightarrow> i64 \<Rightarrow> node \<Rightarrow> string" where
  "session_name kind ep nonce s =
     kind @ '':'' @ app_id (tapp (node_cfg s)) @ '':'' @ show_nat (unat ep) @ '':'' @ show_int (sint nonce)"

definition recovery_session ::
    "('sc, 'pa, 'sg, 'pk, 'st, 'd, 'y) init_env_scheme \<Rightarrow> membership \<Rightarrow> node \<Rightarrow> unit anyhow \<times> node" where
  "recovery_session E m s =
     (let dealers = leading_dealers m; new_epoch = known_epoch s + 1; now = utc_now E (clock s);
          sid = session_name ''reshare'' new_epoch now s;
          req = \<lparr> rr_session_id = sid, rr_recovering_id = m_own_id m, rr_dealer_ids = sort (map sp_id dealers),
                  rr_epoch = new_epoch \<rparr>
      in sbind (\<lambda>s. (sign_request E (private_key (signing_key s)) ''StartReshare'' now, s)) (\<lambda>sig.
         sbind (\<lambda>s. (dkg_params (m_threshold m) (m_total m), trigger_dealers E dealers req sig now s)) (\<lambda>(t, n).
         sbind (step_err ''reshare (recovering) participant init'' (refresh_new (gennaro E) (unat (m_own_id m)) t n)) (\<lambda>part.
         sbind (run_session E sid part dealers DKG_ROUND_TIMEOUT) (\<lambda>(share, pk).
           commit_reshare E (''reshare recovery changed the group public key '' @ em_dash @ '' aborting to avoid corruption'')
             (new_shard (blsful E) (m_own_id m) share new_epoch) pk)))) s)"

definition run_reshare_recovery ::
    "('sc, 'pa, 'sg, 'pk, 'st, 'd, 'y) init_env_scheme \<Rightarrow> membership \<Rightarrow> node \<Rightarrow> unit anyhow \<times> node" where
  "run_reshare_recovery E m s =
     (let d = length (leading_dealers m) in
      if d < m_threshold m
      then (Inl (''cannot recover yet: '' @ show_nat d @ '' live share-holders discovered, need >= threshold '' @
             show_nat (m_threshold m)), s)
      else if d + 1 < majority (m_total m)
      then (Inl (''cannot recover yet: '' @ show_nat (d + 1) @ '' participants, need a majority ('' @
             show_nat (majority (m_total m)) @ '') of '' @ show_nat (m_total m) @ '' to avoid split-brain''), s)
      else recovery_session E m s)"

definition own_position :: "'y gate_env_scheme \<Rightarrow> node \<Rightarrow> u32 anyhow \<times> node" where
  "own_position E =
     sbind (smap_err (\<lambda>e. ''nodeList lookup failed: '' @ kms_error_to_string e) (own_signer_list E)) (\<lambda>nodes s.
       (rbind (ok_or ''reshare dealer: this node is not in the nodeList''
                 (position (\<lambda>a. a = eth_address (signing_key s)) nodes)) (\<lambda>pos. Inr (word_of_nat pos + 1)), s))"

text \<open>The dealer's checks, in their order: it is a dealer, the epoch is ahead, it has a share.\<close>

definition dealer_checks ::
    "('sc, 'pa, 'sg, 'pk, 'y) derive_env_scheme \<Rightarrow> reshare_request \<Rightarrow> u32 \<Rightarrow> node \<Rightarrow> (nat \<times> 'sc) anyhow \<times> node" where
  "dealer_checks E req own s =
     (rbind (ok_or (''reshare dealer: own id '' @ show_nat (unat own) @ '' not in dealer set'')
               (position (\<lambda>i. i = own) (rr_dealer_ids req))) (\<lambda>own_index.
      if rr_epoch req \<le> own_epoch s
      then Inl (''reshare dealer: target epoch '' @ show_nat (unat (rr_epoch req)) @ '' not ahead of current '' @
             show_nat (unat (own_epoch s)))
      else rbind (ok_or ''reshare dealer: no local share'' (shard s)) (\<lambda>sh.
           rbind (share_from_bytes (blsful E) (shard_bytes sh)) (\<lambda>share.
             Inr (own_index, blsful_share_scalar share)))), s)"

definition dealer_session ::
    "('sc, 'pa, 'sg, 'pk, 'st, 'd, 'y) init_env_scheme \<Rightarrow> reshare_request \<Rightarrow> u32 \<Rightarrow> nat \<Rightarrow> 'sc \<Rightarrow> session_peer list \<Rightarrow> node
       \<Rightarrow> unit anyhow \<times> node" where
  "dealer_session E req own own_index scalar peers =
     sbind (\<lambda>s. (dkg_params (unat (threshold (cluster (node_cfg s)))) (unat (total_nodes (cluster (node_cfg s)))), s)) (\<lambda>(t, n).
     sbind (step_err ''reshare dealer participant init''
              (with_secret (gennaro E) (unat own) t n scalar
                 (map (\<lambda>i. scalar_from (blsful E) (unat i)) (rr_dealer_ids req)) own_index)) (\<lambda>part.
     sbind (run_session E (rr_session_id req) part peers DKG_ROUND_TIMEOUT) (\<lambda>(share, pk).
       commit_reshare E (''reshare changed the group public key '' @ em_dash @ '' aborting share update to avoid corruption'')
         (new_shard (blsful E) own share (rr_epoch req)) pk)))"

definition participant_ids :: "reshare_request \<Rightarrow> u32 list" where
  "participant_ids req = rr_dealer_ids req @ (if rr_recovering_id req \<noteq> 0 then [rr_recovering_id req] else [])"

definition run_reshare_dealer ::
    "('sc, 'pa, 'sg, 'pk, 'st, 'd, 'y) init_env_scheme \<Rightarrow> reshare_request \<Rightarrow> node \<Rightarrow> unit anyhow \<times> node" where
  "run_reshare_dealer E req =
     sbind (own_position E) (\<lambda>own.
     sbind (dealer_checks E req own) (\<lambda>(own_index, scalar).
     sbind (resolve_peers E (participant_ids req) own) (\<lambda>peers.
       dealer_session E req own own_index scalar peers)))"

text \<open>\<open>StartReshare\<close>: the acknowledgement carries the request of the task it spawns.\<close>

definition start_reshare ::
    "'y gate_env_scheme \<Rightarrow> metadata \<Rightarrow> reshare_request \<Rightarrow> node \<Rightarrow> (status + reshare_request) \<times> node" where
  "start_reshare E m req s =
     sbind (authenticate E (node_cfg s) ''StartReshare'' m) (\<lambda>_ s.
       (if shard s = None then Inl (FailedPrecondition, ''no local share to reshare'') else Inr req, s)) s"

definition counted ::
    "((u64 \<Rightarrow> u64) \<Rightarrow> metrics \<Rightarrow> metrics) \<Rightarrow> ((u64 \<Rightarrow> u64) \<Rightarrow> metrics \<Rightarrow> metrics)
       \<Rightarrow> unit anyhow \<times> node \<Rightarrow> unit anyhow \<times> node" where
  "counted ok fail rs = (fst rs, (snd rs)\<lparr>mets := record_outcome ok fail (fst rs) (mets (snd rs))\<rparr>)"

definition dealer_task ::
    "('sc, 'pa, 'sg, 'pk, 'st, 'd, 'y) init_env_scheme \<Rightarrow> reshare_request \<Rightarrow> node \<Rightarrow> node" where
  "dealer_task E req s = snd (counted dealer_ok_update dealer_fail_update (run_reshare_dealer E req s))"

fun join_comma :: "string list \<Rightarrow> string" where
  "join_comma [] = []"
| "join_comma [x] = x"
| "join_comma (x # y # xs) = x @ '', '' @ join_comma (y # xs)"

definition refresh_checks :: "membership option \<Rightarrow> node \<Rightarrow> membership anyhow \<times> node" where
  "refresh_checks om s =
     (rbind (ok_or ''refresh: nodeList not yet at configured size'' om) (\<lambda>m.
      if \<not> all_discovered m
      then Inl (''refresh requires all '' @ show_nat (m_total m) @
             '' members healthy; some are not discovered '' @ em_dash @ '' wait or resize'')
      else let mixed = filter (\<lambda>p. sp_epoch p \<noteq> own_epoch s) (m_peers m) in
      if mixed \<noteq> []
      then Inl (''refresh requires a single epoch across the committee (own epoch '' @ show_nat (unat (own_epoch s)) @
             ''), but: '' @ join_comma (map (\<lambda>p. ''id'' @ show_nat (unat (sp_id p)) @ ''@epoch'' @ show_nat (unat (sp_epoch p))) mixed) @
             '' '' @ em_dash @ '' stragglers re-sync automatically; retry shortly'')
      else Inr m), s)"

definition trigger_refresh ::
    "('sc, 'pa, 'sg, 'pk, 'st, 'd, 'y) init_env_scheme \<Rightarrow> node \<Rightarrow> unit anyhow \<times> node" where
  "trigger_refresh E =
     sbind (\<lambda>s. (if shard s = None then Inl ''cannot refresh: this node has no share'' else Inr (), s)) (\<lambda>_.
     sbind (assemble_participants E) (\<lambda>om.
     sbind (refresh_checks om) (\<lambda>m s.
       let ids = sort (map sp_id (m_peers m) @ [m_own_id m]); new_epoch = known_epoch s + 1; now = utc_now E (clock s);
           req = \<lparr> rr_session_id = session_name ''refresh'' new_epoch now s, rr_recovering_id = 0, rr_dealer_ids = ids,
                   rr_epoch = new_epoch \<rparr>
       in sbind (\<lambda>s. (sign_request E (private_key (signing_key s)) ''StartReshare'' now, s)) (\<lambda>sig s.
            run_reshare_dealer E req (trigger_dealers E (m_peers m) req sig now s)) s)))"

section \<open>Lemmas\<close>

subsection \<open>What an operation leaves alone\<close>

lemma persist_sealed_shape:
  obtains b d mm where "persist_sealed L sh gpk s = s\<lparr>sealed_blob := b, disk := d, mets := mm\<rparr>"
proof -
  have upd: "\<exists>b d mm. bump f (s\<lparr>sealed_blob := b1, disk := d1\<rparr>) = s\<lparr>sealed_blob := b, disk := d, mets := mm\<rparr>"
    "\<exists>b d mm. bump f s = s\<lparr>sealed_blob := b, disk := d, mets := mm\<rparr>"
    "\<exists>b d mm. s\<lparr>sealed_blob := b1, disk := d1\<rparr> = s\<lparr>sealed_blob := b, disk := d, mets := mm\<rparr>"
    "\<exists>b d mm. s\<lparr>sealed_blob := b1\<rparr> = s\<lparr>sealed_blob := b, disk := d, mets := mm\<rparr>" for f b1 d1
    by (cases s; simp add: bump_def; blast)+
  then have "\<exists>b d mm. persist_sealed L sh gpk s = s\<lparr>sealed_blob := b, disk := d, mets := mm\<rparr>"
    unfolding persist_sealed_def Let_def case_prod_beta
    by (auto split: sum.split option.split)
  with that show thesis by blast
qed

lemma store_share_simps:
  "shard (store_share L sh gpk s) = Some sh" "group_pubkey (store_share L sh gpk s) = Some gpk"
  "node_cfg (store_share L sh gpk s) = node_cfg s" "signing_key (store_share L sh gpk s) = signing_key s"
  "peer_table (store_share L sh gpk s) = peer_table s" "env_vars (store_share L sh gpk s) = env_vars s"
  "clock (store_share L sh gpk s) = clock s"
proof -
  obtain b d mm where p: "persist_sealed L sh gpk s = s\<lparr>sealed_blob := b, disk := d, mets := mm\<rparr>"
    by (rule persist_sealed_shape)
  let ?s1 = "persist_sealed L sh gpk s"
  obtain v d2 m2 where c: "check_master_baseline L (sealed_share_path ?s1) gpk ?s1 = (v, ?s1\<lparr>disk := d2, mets := m2\<rparr>)"
    by (rule check_master_baseline_shape)
  show "shard (store_share L sh gpk s) = Some sh" "group_pubkey (store_share L sh gpk s) = Some gpk"
    "node_cfg (store_share L sh gpk s) = node_cfg s" "signing_key (store_share L sh gpk s) = signing_key s"
    "peer_table (store_share L sh gpk s) = peer_table s" "env_vars (store_share L sh gpk s) = env_vars s"
    "clock (store_share L sh gpk s) = clock s"
    by (simp_all add: store_share_def Let_def c acquired_def) (simp_all add: p)
qed

lemma trigger_dealers_tick: "\<exists>d. trigger_dealers E peers req sig ts s = tick d s"
proof (induction peers arbitrary: s)
  case Nil
  have "s = tick 0 s" by (simp add: tick_def)
  then show ?case unfolding trigger_dealers_def foldl_Nil by (rule exI)
next
  case (Cons p ps)
  have "tick d2 (tick d1 s) = tick (d1 + d2) s" for d1 d2 by (simp add: tick_def)
  with Cons [of "send_start_reshare E req sig ts p s"] show ?case
    unfolding trigger_dealers_def send_start_reshare_def foldl_Cons by metis
qed

lemma commit_reshare_cases:
  assumes "commit_reshare E msg sh pk s = (r, s')"
  obtains (refused) "r = Inl msg" "s' = s" | (stored) "r = Inr ()" "s' = store_share E sh pk s"
    "group_pubkey s = None \<or> group_pubkey s = Some pk"
  using assms by (auto simp: commit_reshare_def split: option.splits if_splits)

lemma commit_reshare_master: "keeps_master s (snd (commit_reshare E msg sh pk s))"
proof (cases "commit_reshare E msg sh pk s")
  case (Pair r s')
  from this [symmetric] show ?thesis unfolding Pair snd_conv
    by (cases rule: commit_reshare_cases [OF Pair]) (auto simp: keeps_master_def store_share_simps)
qed

lemma own_position_asks:
  assumes "proc_inv E (node_cfg s) s" "own_position E s = (r, s')"
  shows "asks_only E s s'"
proof -
  obtain q s1 where q: "own_signer_list E s = (q, s1)" by force
  have "s' = s1" using assms(2) q by (cases q) (auto simp: own_position_def sbind_def smap_err_def)
  with own_signer_list_ok(1) [OF assms(1) q] show ?thesis by simp
qed

lemma asks_keeps_master: "asks_only E s s' \<Longrightarrow> keeps_master s s'"
  by (rule same_share_keeps_master [OF asks_only_share])

subsection \<open>Sessions that keep a known master\<close>

abbreviation tasks_in :: "('sc, 'pa, 'sg, 'pk, 'st, 'd, 'y) dkg_env_scheme \<Rightarrow> (node \<Rightarrow> node) set \<Rightarrow> bool" where
  "tasks_in E T \<equiv> \<forall>sid r t. set (wakeups E sid r t) \<subseteq> T"

lemma session_keeps_master:
  assumes "tasks_in E steady_tasks"
  shows "keeps_master s (snd (run_session E sid part peers timeout s))"
  by (rule steady.run_session_R) (use assms in blast)

lemma recovery_keeps_master:
  assumes "tasks_in E steady_tasks"
  shows "keeps_master s (snd (run_reshare_recovery E m s))"
proof -
  have trig: "keeps_master s (trigger_dealers E ps req sig ts s)" for ps req sig ts s
    using trigger_dealers_tick [of E ps req sig ts s] steady.tick_R by metis
  show ?thesis
    unfolding run_reshare_recovery_def recovery_session_def Let_def
    by (auto intro!: steady.sbind_R simp: steady.R_refl step_err_def trig commit_reshare_master session_keeps_master [OF assms] split: prod.split)
qed

text \<open>Up to its session, a dealer only asks the chain.\<close>

lemma run_reshare_dealer_cases:
  assumes inv: "proc_inv E (node_cfg s) s" and call: "run_reshare_dealer E req s = (r, s')"
  obtains (refused) e where "r = Inl e" "asks_only E s s'"
    | (session) own own_index scalar peers s1 where "asks_only E s s1" "own_epoch s < rr_epoch req"
        "own \<in> set (rr_dealer_ids req)" "shard s \<noteq> None" "dealer_session E req own own_index scalar peers s1 = (r, s')"
proof -
  obtain q s1 where q: "own_position E s = (q, s1)" by force
  have a1: "asks_only E s s1" using inv q by (rule own_position_asks)
  note inv1 = asks_only_node(12) [OF a1]
  show thesis
  proof (cases q)
    case (Inl e)
    with q call a1 refused show thesis by (auto simp: run_reshare_dealer_def sbind_def)
  next
    case (Inr own)
    obtain q2 where q2: "dealer_checks E req own s1 = (q2, s1)" by (simp add: dealer_checks_def)
    show thesis
    proof (cases q2)
      case (Inl e)
      with q Inr q2 call a1 refused show thesis by (auto simp: run_reshare_dealer_def sbind_def)
    next
      case (Inr checked)
      obtain own_index scalar where ch: "checked = (own_index, scalar)" by force
      obtain q3 s3 where q3: "resolve_peers E (participant_ids req) own s1 = (q3, s3)" by force
      have a3: "asks_only E s s3" using asks_only_trans [OF a1 resolve_peers_asks [OF inv1 q3]] .
      show thesis
      proof (cases q3)
        case (Inl e)
        with q \<open>q = Inr own\<close> q2 Inr ch q3 call a3 refused show thesis by (auto simp: run_reshare_dealer_def sbind_def)
      next
        case (Inr peers)
        from q2 \<open>q2 = Inr checked\<close> ch have c: "own_epoch s1 < rr_epoch req" "own \<in> set (rr_dealer_ids req)" "shard s1 \<noteq> None"
          by (auto simp: dealer_checks_def rbind_Inr_iff dest!: position_Some split: if_splits)
        with asks_only_node(3) [OF a1] have c': "own_epoch s < rr_epoch req" "shard s \<noteq> None"
          by (simp_all add: own_epoch_def)
        from q \<open>q = Inr own\<close> q2 \<open>q2 = Inr checked\<close> ch q3 Inr call
        have "dealer_session E req own own_index scalar peers s3 = (r, s')"
          by (simp add: run_reshare_dealer_def sbind_def)
        from session [OF a3 c'(1) c(2) c'(2) this] show thesis .
      qed
    qed
  qed
qed

lemma dealer_keeps_master:
  assumes tasks: "tasks_in E steady_tasks" and inv: "proc_inv E (node_cfg s) s"
    and call: "run_reshare_dealer E req s = (r, s')"
  shows "keeps_master s s'"
  using inv call
proof (cases rule: run_reshare_dealer_cases)
  case (refused e)
  then show ?thesis by (simp add: asks_keeps_master)
next
  case (session own own_index scalar peers s1)
  have "keeps_master s1 (snd (dealer_session E req own own_index scalar peers s1))"
    unfolding dealer_session_def
    by (auto intro!: steady.sbind_R simp: steady.R_refl step_err_def commit_reshare_master session_keeps_master [OF tasks]
        split: prod.split)
  with session(1,5) show ?thesis using steady.R_trans [OF asks_keeps_master] by simp
qed

text \<open>Sending the request to the dealers takes time and nothing else.\<close>

lemma refresh_dealing:
  assumes "asks_only E s s1"
    and "(case sign_request E (private_key (signing_key s1)) ''StartReshare'' ts of Inl e \<Rightarrow> (Inl e, s1)
      | Inr sig \<Rightarrow> run_reshare_dealer E req (trigger_dealers E peers req sig ts s1)) = (r, s')"
  obtains e where "r = Inl e" "s' = s1" | s2 where "asks_only E s s2" "run_reshare_dealer E req s2 = (r, s')"
proof (cases "sign_request E (private_key (signing_key s1)) ''StartReshare'' ts")
  case (Inl e)
  with assms(2) that(1) show thesis by auto
next
  case (Inr sig)
  obtain d where d: "trigger_dealers E peers req sig ts s1 = tick d s1" using trigger_dealers_tick by blast
  have "asks_only E s (tick d s1)"
    using asks_only_trans [OF assms(1) asks_only_tick [OF asks_only_node(12) [OF assms(1)]]] .
  with assms(2) Inr d that(2) show thesis by simp
qed

lemma trigger_refresh_cases:
  assumes inv: "proc_inv E (node_cfg s) s" and call: "trigger_refresh E s = (r, s')"
  obtains (refused) e where "r = Inl e" "asks_only E s s'"
    | (dealing) m :: membership and req :: reshare_request and s1 where "asks_only E s s1" "shard s \<noteq> None" "all_discovered m"
        "\<forall>p \<in> set (m_peers m). sp_epoch p = own_epoch s" "rr_epoch req = known_epoch s + 1" "rr_recovering_id req = 0"
        "run_reshare_dealer E req s1 = (r, s')"
proof (cases "shard s = None")
  case True
  with call have "r = Inl ''cannot refresh: this node has no share''" "s' = s"
    by (auto simp: trigger_refresh_def sbind_def)
  with refused asks_only_refl [OF inv] show thesis by simp
next
  case False
  then obtain sh where sh: "shard s = Some sh" by auto
  obtain q s1 where q: "assemble_participants E s = (q, s1)" by force
  have a1: "asks_only E s s1" using inv q by (rule assemble_asks)
  have "\<exists>x. refresh_checks om s1 = (x, s1)" for om by (simp add: refresh_checks_def)
  then consider (failed) e where "q = Inl e"
    | (unfit) om e where "q = Inr om" "refresh_checks om s1 = (Inl e, s1)"
    | (fit) om m where "q = Inr om" "refresh_checks om s1 = (Inr m, s1)"
    by (metis sumE)
  then show thesis
  proof cases
    case failed
    with sh q call a1 refused show thesis by (auto simp: trigger_refresh_def sbind_def)
  next
    case unfit
    with sh q call a1 refused show thesis by (auto simp: trigger_refresh_def sbind_def)
  next
    case fit
    then have m: "all_discovered m" "\<forall>p \<in> set (m_peers m). sp_epoch p = own_epoch s1"
      by (auto simp: refresh_checks_def rbind_Inr_iff Let_def filter_empty_conv split: if_splits)
    let ?now = "utc_now E (clock s1)"
    let ?req = "\<lparr> rr_session_id = session_name ''refresh'' (known_epoch s1 + 1) ?now s1, rr_recovering_id = 0,
      rr_dealer_ids = sort (map sp_id (m_peers m) @ [m_own_id m]), rr_epoch = known_epoch s1 + 1 \<rparr>"
    have same: "own_epoch s1 = own_epoch s" "known_epoch s1 = known_epoch s"
      using asks_only_node(3,5) [OF a1] by (simp_all add: own_epoch_def known_epoch_def)
    have e: "(case sign_request E (private_key (signing_key s1)) ''StartReshare'' ?now of Inl e \<Rightarrow> (Inl e, s1)
        | Inr sig \<Rightarrow> run_reshare_dealer E ?req (trigger_dealers E (m_peers m) ?req sig ?now s1)) = (r, s')"
      using sh q fit call by (simp add: trigger_refresh_def sbind_def Let_def split: sum.splits)
    show thesis
      by (rule refresh_dealing [OF a1 e]) (use refused a1 dealing [of _ m ?req] sh m same in auto)
  qed
qed

lemma refresh_keeps_master:
  assumes "tasks_in E steady_tasks" "proc_inv E (node_cfg s) s" "trigger_refresh E s = (r, s')"
  shows "keeps_master s s'"
  using assms(2,3)
proof (cases rule: trigger_refresh_cases)
  case (refused e)
  then show ?thesis by (simp add: asks_keeps_master)
next
  case (dealing m req s1)
  from dealer_keeps_master [OF assms(1) asks_only_node(12) [OF dealing(1)] dealing(7)]
  show ?thesis using steady.R_trans [OF asks_keeps_master [OF dealing(1)]] by blast
qed

subsection \<open>Sessions that move the epoch\<close>

text \<open>A reshare beside quiet tasks either changes nothing, or replaces the share by one of the given
  epoch under the same master.\<close>

definition share_moved :: "u64 \<Rightarrow> node \<Rightarrow> unit anyhow \<Rightarrow> node \<Rightarrow> bool" where
  "share_moved ep s r s' \<longleftrightarrow>
     (\<exists>e. r = Inl e \<and> same_share s s') \<or>
     (\<exists>sh pk. r = Inr () \<and> shard s' = Some sh \<and> shard_epoch sh = ep \<and> group_pubkey s' = Some pk \<and>
        (group_pubkey s = None \<or> group_pubkey s = Some pk))"

lemma share_moved_after:
  assumes "same_share s s1" "share_moved ep s1 r s'"
  shows "share_moved ep s r s'"
  using assms quiet.R_trans [OF assms(1)] unfolding share_moved_def by (auto simp: same_share_def)

lemma session_moves:
  assumes "tasks_in E quiet_tasks"
    and call: "sbind (run_session E sid part peers timeout) (\<lambda>(share, pk). commit_reshare E msg (new_shard B own share ep) pk) s = (r, s')"
  shows "share_moved ep s r s'"
proof -
  have R: "same_share s (snd (run_session E sid part peers timeout s))"
    by (rule quiet.run_session_R) (use assms(1) in blast)
  from call show ?thesis
  proof (cases rule: sbind_cases)
    case (err e)
    with R show ?thesis by (auto simp: share_moved_def)
  next
    case (ok a s1)
    obtain share pk where a: "a = (share, pk)" by force
    from ok R have same: "same_share s s1" by simp
    from ok a have c: "commit_reshare E msg (new_shard B own share ep) pk s1 = (r, s')" by simp
    then have "share_moved ep s1 r s'"
      by (cases rule: commit_reshare_cases) (auto simp: share_moved_def store_share_simps new_shard_def quiet.R_refl)
    with same show ?thesis by (rule share_moved_after)
  qed
qed

lemma recovery_moves:
  assumes tasks: "tasks_in E quiet_tasks" and call: "run_reshare_recovery E m s = (r, s')"
  shows "share_moved (known_epoch s + 1) s r s'"
proof (cases "length (leading_dealers m) < m_threshold m \<or> length (leading_dealers m) + 1 < majority (m_total m)")
  case True
  with call show ?thesis by (auto simp: run_reshare_recovery_def Let_def share_moved_def quiet.R_refl split: if_splits)
next
  case False
  with call have "recovery_session E m s = (r, s')" by (simp add: run_reshare_recovery_def Let_def)
  then show ?thesis
    unfolding recovery_session_def Let_def
  proof (cases rule: sbind_cases)
    case (err e)
    then show ?thesis by (auto simp: share_moved_def quiet.R_refl)
  next
    case (ok sig s1)
    then have s1: "s1 = s" by auto
    from ok(2) show ?thesis
    proof (cases rule: sbind_cases)
      case (err e)
      then show ?thesis using trigger_dealers_tick quiet.tick_R s1 unfolding share_moved_def by (metis Pair_inject)
    next
      case (ok tn s2)
      obtain t n where tn: "tn = (t, n)" by force
      have s2: "same_share s s2" using ok(1) trigger_dealers_tick quiet.tick_R s1 by (metis Pair_inject)
      from ok(2) [unfolded tn prod.case] show ?thesis
      proof (cases rule: sbind_cases)
        case (err e)
        with s2 show ?thesis by (auto simp: share_moved_def step_err_def)
      next
        case (ok part s3)
        then have "s3 = s2" by (simp add: step_err_Inr_iff)
        with session_moves [OF tasks ok(2)] s2 show ?thesis by (metis share_moved_after)
      qed
    qed
  qed
qed

lemma dealer_session_moves:
  assumes tasks: "tasks_in E quiet_tasks" and call: "dealer_session E req own own_index scalar peers s = (r, s')"
  shows "share_moved (rr_epoch req) s r s'"
  using call unfolding dealer_session_def
proof (cases rule: sbind_cases)
  case (err e)
  then show ?thesis by (auto simp: share_moved_def quiet.R_refl)
next
  case (ok tn s1)
  obtain t n where tn: "tn = (t, n)" by force
  from ok have s1: "s1 = s" by auto
  from ok(2) [unfolded tn prod.case] show ?thesis
  proof (cases rule: sbind_cases)
    case (err e)
    then show ?thesis using s1 by (auto simp: share_moved_def step_err_def quiet.R_refl)
  next
    case (ok part s2)
    then have "s2 = s1" by (simp add: step_err_Inr_iff)
    with session_moves [OF tasks ok(2)] s1 show ?thesis by simp
  qed
qed

lemma dealer_moves:
  assumes tasks: "tasks_in E quiet_tasks" and inv: "proc_inv E (node_cfg s) s" and call: "run_reshare_dealer E req s = (r, s')"
  shows "share_moved (rr_epoch req) s r s' \<and> (r = Inr () \<longrightarrow> own_epoch s < rr_epoch req \<and> shard s \<noteq> None)"
  using inv call
proof (cases rule: run_reshare_dealer_cases)
  case (refused e)
  then show ?thesis by (auto simp: share_moved_def asks_only_share)
next
  case (session own own_index scalar peers s1)
  from share_moved_after [OF asks_only_share [OF session(1)] dealer_session_moves [OF tasks session(5)]] session
  show ?thesis by simp
qed

lemma known_epoch_next:
  assumes "known_epoch s \<noteq> - 1"
  shows "known_epoch s < known_epoch s + 1"
proof -
  have "unat (known_epoch s) \<noteq> unat (- 1 :: u64)" using assms by (metis unsigned_word_eqI)
  moreover have "unat (known_epoch s) < 2 ^ 64" using unat_word_less [of "known_epoch s"] by simp
  ultimately have "unat (known_epoch s) + 1 < 2 ^ 64" by (simp add: unsigned_minus_1_eq_mask mask_eq_exp_minus_1)
  then have "unat (known_epoch s + 1) = unat (known_epoch s) + 1" by (simp add: unat_word_ariths)
  then show ?thesis by (simp add: word_less_nat_alt)
qed

subsection \<open>What a restart reloads\<close>

lemma sealed_settings_cong:
  assumes "node_cfg s' = node_cfg s" "env_vars s' = env_vars s"
  shows "sealed_share_path s' = sealed_share_path s" "sealed_share_blob s' = sealed_share_blob s"
  using assms by (simp_all add: sealed_share_path_def sealed_share_blob_def)

lemma check_master_baseline_file:
  assumes "baseline_path path = Some bp" "q \<noteq> bp" "q \<noteq> bp @ ''.tmp''" "check_master_baseline L path m s = (v, s')"
  shows "read_blob_file q (disk s') = read_blob_file q (disk s)"
proof -
  obtain d1 r where w: "write_blob_file bp (hex_encode L m) (disk s) = (d1, r)" by force
  have "disk s' = disk s \<or> disk s' = d1"
    using assms(1,4) w
    by (auto simp: check_master_baseline_def Let_def split: sum.splits option.splits if_splits)
  moreover have "read_blob_file q d1 = read_blob_file q (disk s)"
  proof -
    have "hm_get (files d1) q = hm_get (files (disk s)) q" using write_blob_file_other [OF w assms(2,3)] .
    moreover have "read_answer d1 = read_answer (disk s)" using write_blob_file_answers [OF w] by blast
    ultimately show ?thesis by (simp only: read_blob_file_def fs_read_to_string_def)
  qed
  ultimately show ?thesis by auto
qed

lemma store_share_file:
  assumes pk: "k256_verifying_key L (private_key (signing_key s)) = Inr pk"
    and blob: "seal_b64 L pk (sealed_share_new (shard_index sh) (shard_epoch sh) gpk (shard_bytes sh)) = Inr blob"
    and path: "sealed_share_path s = Some path" and wr: "write_blob_file path blob (disk s) = (d, Inr ())"
    and base: "baseline_path (Some path) = Some bp" "path \<noteq> bp" "path \<noteq> bp @ ''.tmp''"
  shows "read_blob_file path (disk (store_share L sh gpk s)) = read_blob_file path d"
proof -
  have path': "sealed_share_path (s\<lparr>sealed_blob := b, disk := d'\<rparr>) = Some path" "sealed_share_path (s\<lparr>sealed_blob := b\<rparr>) = Some path" for b d'
    using path by (simp_all add: sealed_share_path_def)
  then have p: "persist_sealed L sh gpk s = s\<lparr>sealed_blob := Some blob, disk := d\<rparr>"
    using pk blob wr by (simp add: persist_sealed_def pubkey_from_private_def Let_def)
  obtain v s2 where c: "check_master_baseline L (Some path) gpk (s\<lparr>sealed_blob := Some blob, disk := d\<rparr>) = (v, s2)" by force
  from check_master_baseline_file [OF base c] c p path' show ?thesis
    by (simp add: store_share_def Let_def acquired_def)
qed

lemma unseal_sealed:
  assumes "ecies_ok L" "bare_ok L" "b64_ok L" "k256_verifying_key L sk = Inr pk"
    and "seal_b64 L pk (sealed_share_new idx ep mid sh) = Inr blob"
  shows "unseal_b64 L blob sk = Inr (Some (sealed_share_new idx ep mid sh))" "trim blob = blob" "blob \<noteq> []"
proof -
  from assms(5) obtain buf where buf: "seal_to_bytes L pk (sealed_share_new idx ep mid sh) = Inr buf"
    and blob: "blob = b64url_encode L buf" and ne: "buf \<noteq> []" by (rule seal_b64_bytes)
  have "unseal_from_bytes L buf sk = Inr (Some (sealed_share_new idx ep mid sh))"
    using assms(1,2,4) _ buf by (rule unseal_seal_bytes) (simp add: sealed_share_new_def)
  with assms(3) ne show "unseal_b64 L blob sk = Inr (Some (sealed_share_new idx ep mid sh))"
    by (simp add: blob unseal_b64_encode)
  show "trim blob = blob" "blob \<noteq> []" using assms(3) ne by (simp_all add: blob b64_ok_trim b64_ok_nonempty)
qed

lemma adopt_sealed_simps:
  "shard (adopt_sealed L b64 rec s) = Some \<lparr> shard_index = sealed_shard_index rec, shard_bytes = share_bytes rec,
     shard_epoch = sealed_epoch rec \<rparr>"
  "group_pubkey (adopt_sealed L b64 rec s) = Some (master_id rec)"
  by (simp_all add: adopt_sealed_def Let_def)

lemma try_reload_sealed_True:
  assumes "try_reload_sealed E s = (True, s')"
  obtains b64 rec s1 where "reload_blob s = (Some b64, s1)" "unseal_b64 E b64 (private_key (signing_key s1)) = Inr (Some rec)"
    "\<not> sealed_epoch rec < known_epoch (wait_for_peers E 6 s1)" "s' = adopt_sealed E b64 rec (wait_for_peers E 6 s1)"
  using assms by (auto simp: try_reload_sealed_def Let_def split: prod.splits option.splits sum.splits if_splits)

section \<open>A concrete reshare\<close>

text \<open>The first node of the pair, with a share of epoch 5, in the middle of two sessions whose messages
  have all arrived: one it deals in, one it recovers by.\<close>

definition demo_req :: reshare_request where
  "demo_req = \<lparr> rr_session_id = ''deal'', rr_recovering_id = 0, rr_dealer_ids = [1, 2], rr_epoch = 6 \<rparr>"

definition demo_full_session :: dkg_session where
  "demo_full_session = \<lparr> rounds = [(1, demo_map), (2, demo_map), (3, demo_map), (4, demo_map)] \<rparr>"

definition demo_dealing :: node where
  "demo_dealing = demo_pair\<lparr>shard := Some \<lparr> shard_index = 1, shard_bytes = [1, 7], shard_epoch = 5 \<rparr>,
     dkg_sessions := [(''deal'', demo_full_session), (''reshare:kms:6:1'', demo_full_session)]\<rparr>"

lemma demo_dealing_simps [simp]:
  "node_cfg demo_dealing = demo_pair_config" "group_pubkey demo_dealing = Some [7]" "clock demo_dealing = 1000000000"
  "signing_key demo_dealing = \<lparr> private_key = demo_sk, eth_address = demo_addr1 \<rparr>"
  "peer_table demo_dealing = peer_table demo_pair"
  "shard demo_dealing = Some \<lparr> shard_index = 1, shard_bytes = [1, 7], shard_epoch = 5 \<rparr>"
  by (simp_all add: demo_dealing_def)

lemma demo_dealing_inv: "proc_inv demo_init (node_cfg demo_dealing) demo_dealing"
proof -
  have "demo_dealing = demo_warm (demo_node1\<lparr>node_cfg := demo_pair_config, shard := shard demo_dealing, dkg_sessions := dkg_sessions demo_dealing\<rparr>)"
    by (simp add: demo_dealing_def demo_pair_def demo_warm_def)
  moreover have "proc_inv demo_init demo_pair_config (demo_warm (demo_node1\<lparr>node_cfg := demo_pair_config, shard := shard demo_dealing, dkg_sessions := dkg_sessions demo_dealing\<rparr>))"
    by (rule demo_warm_inv) (simp_all add: demo_pair_config_def demo_config_def demo_node1_def demo_node_simps)
  ultimately show ?thesis by simp
qed

lemma demo_dealing_list: "own_signer_list E demo_dealing = (Inr [demo_addr1, demo_addr2], demo_dealing)"
proof -
  have "demo_dealing = demo_warm (demo_node1\<lparr>node_cfg := demo_pair_config, shard := shard demo_dealing, dkg_sessions := dkg_sessions demo_dealing\<rparr>)"
    by (simp add: demo_dealing_def demo_pair_def demo_warm_def)
  then show ?thesis
    using demo_warm_lookup(2) [of demo_pair_config
        "demo_node1\<lparr>node_cfg := demo_pair_config, shard := shard demo_dealing, dkg_sessions := dkg_sessions demo_dealing\<rparr>" E]
    by (simp add: demo_pair_config_def demo_config_def)
qed

lemma demo_quiet: "tasks_in demo_init quiet_tasks" "tasks_in demo_init steady_tasks"
  using buffer_round_quiet quiet_steady by auto

lemma demo_init_can_sign:
  assumes "private_key (signing_key s) = demo_sk"
  shows "can_sign demo_init rpc s"
proof -
  have "can_sign demo_init rpc s = can_sign demo_dkg rpc s"
    by (simp add: can_sign_def sign_request_def sign_bytes_def)
  with demo_can_sign [OF assms] show ?thesis by simp
qed

lemma demo_init_bare: "bare_to_vec demo_init = demo_bare_to_vec"
  by (simp add: demo_init_def dkg_env.defs init_env.defs demo_dkg_def gossip_env.defs demo_gossip_def derive_env.defs
      demo_derive_def demo_derive0_def gate_env.defs demo_gate_def demo_chain_def chain_env.defs demo_seal_def seal_crates.defs
      crates.defs)

lemma demo_full_run:
  assumes "sid \<in> {''deal'', ''reshare:kms:6:1''}"
  obtains s' where "run_session demo_init sid 1 [demo_peer2] T demo_dealing = (Inr (7, [7]), s')" "same_share demo_dealing s'"
proof -
  have msgs: "session_msgs sid 1 demo_dealing = Some demo_map" "session_msgs sid 2 demo_dealing = Some demo_map"
    "session_msgs sid 3 demo_dealing = Some demo_map" "session_msgs sid 4 demo_dealing = Some demo_map"
    using assms by (auto simp: session_msgs_def demo_dealing_def demo_full_session_def hm_get_def)
  have enc: "encrypt_p2p demo_init (\<lambda>i. Some 3) [demo_peer2] hm_empty = encrypt_p2p demo_dkg (\<lambda>i. Some 3) [demo_peer2] hm_empty"
    by (simp add: ecies_encrypt_def)
  have "\<exists>s'. run_session demo_init sid 1 [demo_peer2] T demo_dealing = (Inr (7, [7]), s')"
    by (rule run_session_early [OF _ msgs])
      (use demo_rounds demo_session_hyps demo_init_can_sign enc in simp_all)
  then obtain s' where s': "run_session demo_init sid 1 [demo_peer2] T demo_dealing = (Inr (7, [7]), s')" ..
  have "same_share demo_dealing (snd (run_session demo_init sid 1 [demo_peer2] T demo_dealing))"
    by (rule quiet.run_session_R) (use demo_quiet(1) in blast)
  with s' that show thesis by simp
qed

lemma demo_commit:
  assumes "same_share demo_dealing s"
  shows "commit_reshare demo_init msg sh [7] s = (Inr (), store_share demo_init sh [7] s)"
  using assms by (simp add: commit_reshare_def same_share_def)

lemma demo_dealer_run: "\<exists>s'. run_reshare_dealer demo_init demo_req demo_dealing = (Inr (), s')"
proof -
  obtain s' where s': "run_session demo_init ''deal'' 1 [demo_peer2] DKG_ROUND_TIMEOUT demo_dealing = (Inr (7, [7]), s')"
    "same_share demo_dealing s'" by (rule demo_full_run [of "''deal''"]) simp_all
  have "own_position demo_init demo_dealing = (Inr 1, demo_dealing)"
    by (simp add: own_position_def sbind_def smap_err_def demo_dealing_list)
  moreover have "dealer_checks demo_init demo_req 1 demo_dealing = (Inr (0, 7), demo_dealing)"
    by (simp add: dealer_checks_def demo_req_def own_epoch_def share_from_bytes_def demo_bls_def blsful_share_scalar_def)
  moreover have "resolve_peers demo_init (participant_ids demo_req) 1 demo_dealing = (Inr [demo_peer2], demo_dealing)"
    by (simp add: resolve_peers_def sbind_def smap_err_def demo_dealing_list participant_ids_def demo_req_def hm_get_def
        to_session_peer_def demo_peer2_def demo_pk_def)
  moreover have "\<exists>s'. dealer_session demo_init demo_req 1 0 7 [demo_peer2] demo_dealing = (Inr (), s')"
    using s' by (simp add: dealer_session_def sbind_def dkg_params_def step_err_def demo_gennaro_def [THEN arg_cong [where f = with_secret]]
        demo_req_def demo_commit)
  ultimately show ?thesis by (simp add: run_reshare_dealer_def sbind_def)
qed

lemma demo_known_epoch: "known_epoch demo_dealing = 5"
  by (simp add: known_epoch_def own_epoch_def hm_values_def max_or_0_def)

lemma demo_recovery_run: "\<exists>s'. run_reshare_recovery demo_init demo_membership demo_dealing = (Inr (), s')"
proof -
  obtain s' where s': "run_session demo_init ''reshare:kms:6:1'' 1 [demo_peer2] DKG_ROUND_TIMEOUT demo_dealing = (Inr (7, [7]), s')"
    "same_share demo_dealing s'" by (rule demo_full_run [of "''reshare:kms:6:1''"]) simp_all
  have name: "session_name ''reshare'' 6 1 demo_dealing = ''reshare:kms:6:1''"
  proof -
    have "digit_char 6 = CHR ''6''" "digit_char 1 = CHR ''1''" by code_simp+
    then show ?thesis by (simp add: session_name_def show_int_def show_nat.simps)
  qed
  obtain sig where sig: "sign_request demo_init demo_sk ''StartReshare'' 1 = Inr sig"
    using demo_init_can_sign [of demo_dealing] unfolding can_sign_def
    by (metis demo_dealing_simps(4) is_ok_simps(1) node_key.select_convs(1) sum.exhaust)
  have trig: "trigger_dealers demo_init ps r sg 1 demo_dealing = demo_dealing" for ps r sg
    by (induction ps) (simp_all add: trigger_dealers_def send_start_reshare_def tick_def)
  have "recovery_session demo_init demo_membership demo_dealing = (Inr (), store_share demo_init
      (new_shard demo_bls 1 7 6) [7] s')"
    using s' sig name trig
    by (simp add: recovery_session_def sbind_def Let_def demo_known_epoch demo_leading demo_derive_simps
        dkg_params_def step_err_def demo_gennaro_def [THEN arg_cong [where f = refresh_new]] demo_commit)
      (simp add: demo_membership_def dkg_params_def demo_commit)
  then show ?thesis
    by (simp add: run_reshare_recovery_def Let_def demo_leading) (simp add: demo_membership_def majority_def)
qed

section \<open>Properties\<close>

text \<open>C4. The master is never replaced: while other tasks of the process keep a known master too, neither a
  recovery, nor a dealer's side of a reshare, nor a refresh changes a known group public key,
  whatever the session returns and whether it succeeds or fails.\<close>

theorem reshare_preserves_master:
  assumes "tasks_in E steady_tasks" "proc_inv E (node_cfg s) s" "group_pubkey s = Some g"
  shows "group_pubkey (snd (run_reshare_recovery E m s)) = Some g \<and>
    group_pubkey (snd (run_reshare_dealer E req s)) = Some g \<and> group_pubkey (snd (trigger_refresh E s)) = Some g"
  using recovery_keeps_master [OF assms(1), of s m] dealer_keeps_master [OF assms(1,2) prod.collapse [symmetric]]
    refresh_keeps_master [OF assms(1,2) prod.collapse [symmetric]] assms(3)
  unfolding keeps_master_def by blast

theorem reshare_preserves_master_witness:
  "\<exists>s1. run_reshare_dealer demo_init demo_req demo_dealing = (Inr (), s1) \<and> group_pubkey s1 = Some [7]"
proof -
  obtain s1 where s1: "run_reshare_dealer demo_init demo_req demo_dealing = (Inr (), s1)" using demo_dealer_run ..
  from reshare_preserves_master [OF demo_quiet(2) demo_dealing_inv demo_dealing_simps(2)] s1 show ?thesis
    by (metis snd_conv)
qed

text \<open>C17. A reshare moves the epoch strictly forward: beside tasks that do not touch the share, a dealer's
  session and a recovery either fail and leave share and master as they were, or end with a share
  of the target epoch, which for a dealer is ahead of its own epoch and for a recovery ahead of
  every epoch the node has heard of (unless that is the last 64-bit number).\<close>

theorem reshare_moves_forward:
  assumes "tasks_in E quiet_tasks" "proc_inv E (node_cfg s) s" "known_epoch s \<noteq> - 1"
    and "run_reshare_dealer E req s = (r1, s1)" "run_reshare_recovery E m s = (r2, s2)"
  shows "(case r1 of Inl _ \<Rightarrow> same_share s s1 | Inr _ \<Rightarrow> own_epoch s1 = rr_epoch req \<and> own_epoch s < own_epoch s1) \<and>
    (case r2 of Inl _ \<Rightarrow> same_share s s2
     | Inr _ \<Rightarrow> own_epoch s2 = known_epoch s + 1 \<and> own_epoch s < own_epoch s2 \<and>
         (\<forall>p \<in> set (hm_values (peer_table s)). epoch p < own_epoch s2))"
proof
  from dealer_moves [OF assms(1,2,4)]
  show "case r1 of Inl _ \<Rightarrow> same_share s s1 | Inr _ \<Rightarrow> own_epoch s1 = rr_epoch req \<and> own_epoch s < own_epoch s1"
    by (cases r1) (auto simp: share_moved_def own_epoch_def)
  have ahead: "known_epoch s < known_epoch s + 1" using assms(3) by (rule known_epoch_next)
  show "case r2 of Inl _ \<Rightarrow> same_share s s2
     | Inr _ \<Rightarrow> own_epoch s2 = known_epoch s + 1 \<and> own_epoch s < own_epoch s2 \<and>
         (\<forall>p \<in> set (hm_values (peer_table s)). epoch p < own_epoch s2)"
  proof (cases r2)
    case (Inl e)
    with recovery_moves [OF assms(1,5)] show ?thesis by (simp add: share_moved_def)
  next
    case (Inr u)
    with recovery_moves [OF assms(1,5)] have e: "own_epoch s2 = known_epoch s + 1"
      by (auto simp: share_moved_def own_epoch_def)
    with ahead known_epoch_ge_own [of s] known_epoch_ge_peer [of _ s] Inr show ?thesis
      by (auto intro: le_less_trans)
  qed
qed

theorem reshare_moves_forward_witness:
  "\<exists>s1 s2. run_reshare_dealer demo_init demo_req demo_dealing = (Inr (), s1) \<and> own_epoch s1 = 6 \<and>
     run_reshare_recovery demo_init demo_membership demo_dealing = (Inr (), s2) \<and> own_epoch s2 = 6"
proof -
  obtain s1 where s1: "run_reshare_dealer demo_init demo_req demo_dealing = (Inr (), s1)" using demo_dealer_run ..
  obtain s2 where s2: "run_reshare_recovery demo_init demo_membership demo_dealing = (Inr (), s2)" using demo_recovery_run ..
  have "known_epoch demo_dealing \<noteq> - 1" by (simp add: demo_known_epoch)
  from reshare_moves_forward [OF demo_quiet(1) demo_dealing_inv this s1 s2] s1 s2 show ?thesis
    by (simp add: demo_known_epoch demo_req_def)
qed

text \<open>C20. What a node stored is what it finds after a restart: when the sealed share was written, a node that
  starts with the same identity, settings and disk and no explicit blob reloads exactly that
  share and that master, unless its peers report a newer epoch; storing the baseline beside it
  does not disturb the file. Only the epoch decides: the group key that the peers report is not compared with the
  master of the file, although the comment of \<open>seal.rs\<close> asks for it.\<close>

theorem reload_restores_share:
  assumes "ecies_ok E" "bare_ok E" "b64_ok E" "k256_verifying_key E (private_key (signing_key s)) = Inr pk"
    and "seal_b64 E pk (sealed_share_new (shard_index sh) (shard_epoch sh) gpk (shard_bytes sh)) = Inr blob"
    and "sealed_share_path s = Some path" "write_blob_file path blob (disk s) = (d, Inr ())" "read_answer (disk s) path"
    and "baseline_path (Some path) = Some bp" "path \<notin> {bp, bp @ ''.tmp''}" "sealed_share_blob s = None"
    and "node_cfg s2 = node_cfg s" "env_vars s2 = env_vars s" "signing_key s2 = signing_key s"
    and "disk s2 = disk (store_share E sh gpk s)" "known_epoch (wait_for_peers E 6 s2) \<le> shard_epoch sh"
  shows "\<exists>s3. try_reload_sealed E s2 = (True, s3) \<and> shard s3 = Some sh \<and> group_pubkey s3 = Some gpk"
proof -
  note u = unseal_sealed [OF assms(1-5)]
  have "read_blob_file path (disk s2) = read_blob_file path d"
    unfolding assms(15) using store_share_file [OF assms(4-7,9)] assms(10) by simp
  also have "\<dots> = Inr (Some blob)" using write_then_read [OF assms(7,8)] u(2,3) by simp
  finally have "reload_blob s2 = (Some blob, s2)"
    using assms(6,11) sealed_settings_cong [OF assms(12,13)] by (simp add: reload_blob_def)
  with u(1) assms(14,16) have "try_reload_sealed E s2 =
      (True, adopt_sealed E blob (sealed_share_new (shard_index sh) (shard_epoch sh) gpk (shard_bytes sh)) (wait_for_peers E 6 s2))"
    by (simp add: try_reload_sealed_def Let_def sealed_share_new_def not_less)
  then show ?thesis by (simp add: adopt_sealed_simps sealed_share_new_def)
qed

definition demo_durable :: node where
  "demo_durable = demo_dealing\<lparr>env_vars := (\<lambda>x. if x = ''KMS_SEALED_SHARE_PATH'' then Some ''/data/share.sealed'' else None)\<rparr>"

theorem reload_restores_share_witness:
  "\<exists>s3 p. try_reload_sealed demo_init (store_share demo_init \<lparr> shard_index = 1, shard_bytes = [5], shard_epoch = 6 \<rparr> [9] demo_durable)
       = (True, s3) \<and> shard s3 = Some \<lparr> shard_index = 1, shard_bytes = [5], shard_epoch = 6 \<rparr> \<and> group_pubkey s3 = Some [9] \<and>
     hm_get (peer_table demo_durable) demo_addr2 = Some p \<and> peer_group_pubkey p = [7]"
proof -
  let ?sh = "\<lparr> shard_index = 1, shard_bytes = [5 :: u8], shard_epoch = 6 \<rparr> :: shard_state"
  let ?s2 = "store_share demo_init ?sh [9] demo_durable"
  have fields: "signing_key demo_durable = \<lparr> private_key = demo_sk, eth_address = demo_addr1 \<rparr>" "disk demo_durable = demo_fs"
    "peer_table demo_durable = peer_table demo_pair" "node_cfg demo_durable = demo_pair_config"
    by (simp_all add: demo_durable_def) (simp add: demo_dealing_def)
  have key: "k256_verifying_key demo_init (private_key (signing_key demo_durable)) = Inr (demo_pk demo_sk)"
    by (simp add: fields demo_derive_simps demo_sk_def)
  have "\<exists>blob. seal_b64 demo_init (demo_pk demo_sk) (sealed_share_new 1 6 [9] [5]) = Inr blob"
    by (simp add: seal_b64_def seal_to_bytes_def ecies_encrypt_def demo_ecies demo_init_bare demo_bare_to_vec_def sealed_share_new_def)
  then obtain blob where "seal_b64 demo_init (demo_pk demo_sk) (sealed_share_new 1 6 [9] [5]) = Inr blob" ..
  then have blob: "seal_b64 demo_init (demo_pk demo_sk) (sealed_share_new (shard_index ?sh) (shard_epoch ?sh) [9] (shard_bytes ?sh)) = Inr blob"
    by simp
  have path: "sealed_share_path demo_durable = Some ''/data/share.sealed''"
    by (simp add: sealed_share_path_def demo_durable_def non_blank_def or_else_def trim_def is_ascii_space_def)
  obtain d where wr: "write_blob_file ''/data/share.sealed'' blob (disk demo_durable) = (d, Inr ())"
    using demo_write fields(2) by metis
  have none: "sealed_share_blob demo_durable = None"
    by (simp add: sealed_share_blob_def non_blank_def or_else_def fields) (simp add: demo_durable_def)
  have wait: "wait_for_peers demo_init 6 ?s2 = ?s2" by (simp add: store_share_simps fields numeral_eq_Suc)
  have "known_epoch (wait_for_peers demo_init 6 ?s2) \<le> shard_epoch ?sh"
    unfolding wait by (simp add: known_epoch_def own_epoch_def store_share_simps fields hm_values_def max_or_0_def)
  then have "\<exists>s3. try_reload_sealed demo_init ?s2 = (True, s3) \<and> shard s3 = Some ?sh \<and> group_pubkey s3 = Some [9]"
    by (intro reload_restores_share [OF demo_init_crates(3,6,2) key blob path wr _ demo_baseline_path _ none])
      (simp_all add: store_share_simps fields demo_fs_def)
  moreover have "\<exists>p. hm_get (peer_table demo_durable) demo_addr2 = Some p \<and> peer_group_pubkey p = [7]"
    by (simp add: fields hm_get_def)
  ultimately show ?thesis by blast
qed

text \<open>C38. The line that monitoring reports is the line where recovery stops: for a committee assembled by the
  node, a recovery is refused without any effect when there are fewer leading dealers than
  \<open>recovery_threshold\<close> of the cluster snapshot, and with at least that many its session is started.\<close>

theorem recovery_line:
  assumes "assemble_participants E s = (Inr (Some m), s')"
  shows "if length (leading_dealers m) < cv_recovery_threshold (cluster_view now s')
    then \<exists>e. run_reshare_recovery E m s' = (Inl e, s') else run_reshare_recovery E m s' = recovery_session E m s'"
proof -
  from assms have m: "m_threshold m = unat (threshold (cluster (node_cfg s')))" "m_total m = unat (total_nodes (cluster (node_cfg s')))"
    by (rule assemble_Some, simp)+
  have "length (leading_dealers m) < cv_recovery_threshold (cluster_view now s') \<longleftrightarrow>
      length (leading_dealers m) < m_threshold m \<or> length (leading_dealers m) + 1 < majority (m_total m)"
    by (simp add: cluster_view_def Let_def m majority_def less_max_iff_disj split: prod.split)
  then show ?thesis by (simp add: run_reshare_recovery_def Let_def)
qed

theorem recovery_line_witness:
  "run_reshare_recovery demo_init demo_membership demo_pair = recovery_session demo_init demo_membership demo_pair"
proof -
  have "\<not> length (leading_dealers demo_membership) < cv_recovery_threshold (cluster_view 0 demo_pair)"
    by (simp add: demo_leading cluster_view_def Let_def)
  with recovery_line [OF demo_assemble, of 0] show ?thesis by simp
qed

lemma recovery_majority:
  "run_reshare_recovery E m s = (Inr u, s') \<Longrightarrow> majority (m_total m) \<le> length (leading_dealers m) + 1"
  by (auto simp: run_reshare_recovery_def Let_def split: if_splits)

text \<open>C13. Two recoveries share a node: when two nodes assembled their committees from the same on-chain list, and
  that list has exactly \<open>total_nodes\<close> entries, then whatever peers each of them sees, two recoveries
  that succeed have a listed node in common that took part in both, as the recovering node or as a
  dealer. Two disjoint groups of nodes can therefore not both advance the epoch. The common node may
  deal in both sessions when they run at the same time, which the README names as a limitation.\<close>

theorem recoveries_share_a_node:
  assumes "assemble_participants E1 s1 = (Inr (Some m1), s1')" "own_signer_list E1 s1 = (Inr nodes, s1')"
    and "assemble_participants E2 s2 = (Inr (Some m2), s2')" "own_signer_list E2 s2 = (Inr nodes, s2')"
    and "m_total m1 = length nodes" "m_total m2 = length nodes" "length nodes < 2 ^ 32"
    and "run_reshare_recovery E1 m1 s1' = (Inr u1, t1)" "run_reshare_recovery E2 m2 s2' = (Inr u2, t2)"
  shows "\<exists>a \<in> set nodes. a \<in> taking_part nodes s1' m1 \<and> a \<in> taking_part nodes s2' m2"
  using majorities_meet [OF assms(1-7)] recovery_majority [OF assms(8)] recovery_majority [OF assms(9)] assms(5,6) by simp

lemma demo_dealing_assemble: "assemble_participants demo_init demo_dealing = (Inr (Some demo_membership), demo_dealing)"
  by (simp add: assemble_participants_def sbind_def smap_err_def demo_dealing_list Let_def live_member_def hm_get_def
      is_live_def PEER_LIVENESS_WINDOW_SECS_def demo_derive_simps to_session_peer_def demo_membership_def demo_peer2_def
      demo_pk_def demo_addr_neq demo_addr_neq [symmetric])

theorem recoveries_share_a_node_witness:
  "\<exists>a s'. a \<in> taking_part [demo_addr1, demo_addr2] demo_dealing demo_membership \<and> a \<in> {demo_addr1, demo_addr2} \<and>
     run_reshare_recovery demo_init demo_membership demo_dealing = (Inr (), s')"
proof -
  obtain s' where r: "run_reshare_recovery demo_init demo_membership demo_dealing = (Inr (), s')" using demo_recovery_run ..
  have "m_total demo_membership = length [demo_addr1, demo_addr2]" by (simp add: demo_membership_def)
  moreover have "length [demo_addr1, demo_addr2] < 2 ^ 32" by simp
  ultimately have "\<exists>a \<in> set [demo_addr1, demo_addr2]. a \<in> taking_part [demo_addr1, demo_addr2] demo_dealing demo_membership"
    using recoveries_share_a_node [OF demo_dealing_assemble demo_dealing_list demo_dealing_assemble demo_dealing_list _ _ _ r r]
    by blast
  with r show ?thesis by auto
qed

section \<open>Sessions that overlap\<close>

text \<open>
  The epoch is compared with the own one when a dealer's session starts, not when it commits. When
  another session commits a later epoch while this one waits, this one still commits: the share goes
  back from epoch 9 to epoch 6.
\<close>

definition overtake :: "node \<Rightarrow> node" where
  "overtake s = s\<lparr>shard := Some \<lparr> shard_index = 1, shard_bytes = [1, 7], shard_epoch = 9 \<rparr>\<rparr>"

definition demo_race :: "(u8, u8 \<times> u8 \<times> bytes, u8 \<times> bytes, u8, nat, u8) init_env" where
  "demo_race = demo_init\<lparr>wakeups := (\<lambda>sid r t. [overtake, buffer_round (demo_msg sid r) [5]])\<rparr>"

definition demo_waiting :: node where
  "demo_waiting = demo_dealing\<lparr>dkg_sessions := [(''deal'', \<lparr> rounds = [(2, demo_map), (3, demo_map), (4, demo_map)] \<rparr>)]\<rparr>"

lemma demo_race_simps [simp]:
  "gennaro demo_race = demo_gennaro" "blsful demo_race = demo_bls" "net_dkg_round demo_race = net_dkg_round demo_init"
  "wakeups demo_race = (\<lambda>sid r t. [overtake, buffer_round (demo_msg sid r) [5]])"
  "utc_now demo_race = utc_now demo_init" "ecies_enc demo_race = ecies_enc demo_init"
  "sign_request demo_race = sign_request demo_init" "can_sign demo_race = can_sign demo_init"
  by (auto simp: demo_race_def sign_request_def sign_bytes_def can_sign_def intro!: ext)

lemma demo_waiting_simps [simp]:
  "node_cfg demo_waiting = demo_pair_config" "group_pubkey demo_waiting = Some [7]" "clock demo_waiting = 1000000000"
  "signing_key demo_waiting = \<lparr> private_key = demo_sk, eth_address = demo_addr1 \<rparr>"
  "peer_table demo_waiting = peer_table demo_pair"
  "shard demo_waiting = Some \<lparr> shard_index = 1, shard_bytes = [1, 7], shard_epoch = 5 \<rparr>"
  by (simp_all add: demo_waiting_def)

lemma demo_waiting_list: "own_signer_list E demo_waiting = (Inr [demo_addr1, demo_addr2], demo_waiting)"
proof -
  have "demo_waiting = demo_warm (demo_node1\<lparr>node_cfg := demo_pair_config, shard := shard demo_waiting, dkg_sessions := dkg_sessions demo_waiting\<rparr>)"
    by (simp add: demo_waiting_def demo_dealing_def demo_pair_def demo_warm_def)
  then show ?thesis
    using demo_warm_lookup(2) [of demo_pair_config
        "demo_node1\<lparr>node_cfg := demo_pair_config, shard := shard demo_waiting, dkg_sessions := dkg_sessions demo_waiting\<rparr>" E]
    by (simp add: demo_pair_config_def demo_config_def)
qed

text \<open>The state in which the session of the race goes on after its first round.\<close>

definition demo_overtaken :: node where
  "demo_overtaken = buffer_round (demo_msg ''deal'' 1) [5] (overtake demo_waiting)"

lemma demo_overtaken_simps:
  "own_epoch demo_overtaken = 9" "group_pubkey demo_overtaken = Some [7]" "private_key (signing_key demo_overtaken) = demo_sk"
  "session_msgs ''deal'' 2 demo_overtaken = Some demo_map" "session_msgs ''deal'' 3 demo_overtaken = Some demo_map"
  "session_msgs ''deal'' 4 demo_overtaken = Some demo_map"
  by (simp_all add: demo_overtaken_def buffer_round_def overtake_def demo_msg_def own_epoch_def session_msgs_def
      record_round_def Let_def) (simp_all add: demo_waiting_def hm_get_def)

lemma demo_race_round1: "run_round1 demo_race ''deal'' 1 [demo_peer2] T demo_waiting = (Inr (2, 1), demo_overtaken)"
proof -
  have sig: "is_ok (sign_request demo_init demo_sk ''DkgRound'' ts)" for ts
    using demo_init_can_sign [of demo_waiting] by (simp add: can_sign_def)
  have t0: "tick 0 s = s" for s :: node by (simp add: tick_def)
  have bc: "broadcast_round demo_race ''deal'' 1 1 b p [demo_peer2] demo_waiting = (Inr (), demo_waiting)" for b p
    using sig [of "utc_now demo_init (clock demo_waiting)"]
    by (cases "sign_request demo_init demo_sk ''DkgRound'' (utc_now demo_init (clock demo_waiting))")
      (simp_all add: broadcast_round_def Let_def send_dkg_round_def t0)
  have r0: "round_ready ''deal'' 1 [2] demo_waiting = None" "round_ready ''deal'' 1 [2] (overtake demo_waiting) = None"
    by (simp_all add: round_ready_def session_msgs_def demo_waiting_def overtake_def hm_get_def)
  have r1: "round_ready ''deal'' 1 [2] demo_overtaken = Some demo_map"
    by (simp add: round_ready_def session_msgs_def demo_overtaken_def buffer_round_def demo_msg_def record_round_def
        Let_def overtake_def round_full_def demo_map_def) (simp add: demo_waiting_def hm_get_def)
  have "open_session ''deal'' demo_waiting = demo_waiting" by (simp add: open_session_def demo_waiting_def hm_get_def)
  with r0 r1 have aw: "await_round demo_race ''deal'' 1 [2] T demo_waiting = (Inr demo_map, demo_overtaken)"
    by (simp add: await_round_def Let_def demo_overtaken_def)
  obtain enc where enc: "encrypt_p2p demo_race (\<lambda>i. Some 3) [demo_peer2] hm_empty = Inr enc"
    by (simp add: demo_peer2_def demo_gennaro_def dkg_ser_def ecies_encrypt_def demo_ecies2)
  have g: "round1 demo_gennaro 1 = Inr ((1, \<lambda>i. Some 3), 1)" "round2 demo_gennaro 1 bm pm = Inr (2, 1)" "data_to_vec demo_gennaro d = Inr [d]"
    "get_id demo_gennaro 1 = 1" "decode_round1 demo_gennaro demo_map (\<lambda>_. None, \<lambda>_. None) = Inr ((\<lambda>_. None)(2 := Some 4), (\<lambda>_. None)(2 := Some 5))"
    for bm pm d by (simp_all add: demo_gennaro_def demo_map_def hm_insert_def hm_empty_def dkg_de_def)
  have peer: "sp_id demo_peer2 = 2" by (simp add: demo_peer2_def)
  show ?thesis
    using bc aw enc g peer by (simp add: run_round1_def Let_def sbind_def step_err_def dkg_ser_def del: encrypt_p2p.simps)
qed

lemma demo_race_echo:
  assumes "session_msgs ''deal'' r demo_overtaken = Some demo_map"
  shows "\<exists>d m. echo_round demo_race ''deal'' r own b [demo_peer2] T (tick d0 demo_overtaken) = (Inr m, tick d demo_overtaken)"
proof -
  obtain m where m: "decode_echo demo_gennaro r demo_map ((\<lambda>_. None)(unat own := Some b)) = Inr m"
    by (simp add: demo_gennaro_def demo_map_def hm_insert_def hm_empty_def dkg_de_def)
  obtain d where "echo_round demo_race ''deal'' r own b [demo_peer2] T (tick d0 demo_overtaken) = (Inr m, tick d (tick d0 demo_overtaken))"
    by (rule echo_round_ready [of demo_race "tick d0 demo_overtaken" b "''deal''" r demo_map "[demo_peer2]" own m])
      (use assms m demo_init_can_sign demo_overtaken_simps(3) demo_session_hyps in simp_all)
  moreover have "tick d (tick d0 demo_overtaken) = tick (d0 + d) demo_overtaken" for d by (simp add: tick_def ac_simps)
  ultimately show ?thesis by metis
qed

lemma demo_race_session:
  "\<exists>s'. run_session demo_race ''deal'' 1 [demo_peer2] T demo_waiting = (Inr (7, [7]), s') \<and> group_pubkey s' = Some [7]"
proof -
  have g: "round3 demo_gennaro 1 bm = Inr (3, 1)" "round4 demo_gennaro 1 bm = Inr (4, 1)" "round5 demo_gennaro 1 bm = Inr 1"
    "get_secret_share demo_gennaro 1 = Some 7" "get_public_key demo_gennaro 1 = Some [7]" "get_id demo_gennaro 1 = 1" for bm
    by (simp_all add: demo_gennaro_def)
  obtain d1 m1 where e2: "echo_round demo_race ''deal'' 2 1 2 [demo_peer2] T demo_overtaken = (Inr m1, tick d1 demo_overtaken)"
    using demo_race_echo [OF demo_overtaken_simps(4), of 1 2 T 0] by (auto simp: tick_def)
  obtain d2 m2 where e3: "echo_round demo_race ''deal'' 3 1 3 [demo_peer2] T (tick d1 demo_overtaken) = (Inr m2, tick d2 demo_overtaken)"
    using demo_race_echo [OF demo_overtaken_simps(5)] by blast
  obtain d3 m3 where e4: "echo_round demo_race ''deal'' 4 1 4 [demo_peer2] T (tick d2 demo_overtaken) = (Inr m3, tick d3 demo_overtaken)"
    using demo_race_echo [OF demo_overtaken_simps(6)] by blast
  show ?thesis
    using e2 e3 e4 by (simp add: run_session_def Let_def sbind_def step_err_def demo_race_round1 g demo_overtaken_simps(2) del: One_nat_def)
qed

theorem reshare_race_moves_back:
  "own_epoch demo_waiting = 5 \<and> own_epoch demo_overtaken = 9 \<and>
   (\<exists>s'. run_reshare_dealer demo_race demo_req demo_waiting = (Inr (), s') \<and> own_epoch s' = 6)"
proof -
  obtain s1 where s1: "run_session demo_race ''deal'' 1 [demo_peer2] DKG_ROUND_TIMEOUT demo_waiting = (Inr (7, [7]), s1)"
    "group_pubkey s1 = Some [7]" using demo_race_session by blast
  have "own_position demo_race demo_waiting = (Inr 1, demo_waiting)"
    by (simp add: own_position_def sbind_def smap_err_def demo_waiting_list)
  moreover have "dealer_checks demo_race demo_req 1 demo_waiting = (Inr (0, 7), demo_waiting)"
    by (simp add: dealer_checks_def demo_req_def own_epoch_def share_from_bytes_def demo_bls_def blsful_share_scalar_def)
  moreover have "resolve_peers demo_race (participant_ids demo_req) 1 demo_waiting = (Inr [demo_peer2], demo_waiting)"
    by (simp add: resolve_peers_def sbind_def smap_err_def demo_waiting_list participant_ids_def demo_req_def hm_get_def
        to_session_peer_def demo_peer2_def demo_pk_def)
  moreover have "\<exists>s'. dealer_session demo_race demo_req 1 0 7 [demo_peer2] demo_waiting = (Inr (), s') \<and> own_epoch s' = 6"
    using s1 by (simp add: dealer_session_def sbind_def dkg_params_def step_err_def
        demo_gennaro_def [THEN arg_cong [where f = with_secret]] demo_req_def commit_reshare_def own_epoch_def
        store_share_simps new_shard_def)
  ultimately show ?thesis
    by (simp add: run_reshare_dealer_def sbind_def demo_overtaken_simps(1)) (simp add: own_epoch_def)
qed

end
