(* ===== verification/Formation.thy ===== *)
theory Formation
  imports Reshare
begin

text \<open>
  The startup task of a node (\<open>src/init.rs\<close>): \<open>form_cluster\<close>, which reloads a sealed share or retries
  until the node has a share, and \<open>fall_behind_watchdog\<close>, which rejoins when the cluster has moved
  on. The startup loop may run forever and has fuel, one unit per turn; \<open>None\<close> says that the fuel
  was used up without a share. Shown: where the share of a formed node comes from, in terms of the turn of
  the loop that gave it (the disaster gate: a new master only if no seed gave evidence of a cluster
  and every member is there), and that the watchdog replaces a share only on two consecutive observations.
\<close>

section \<open>Definitions\<close>

definition SUBSET_SETTLE :: nat where
  "SUBSET_SETTLE = from_secs 60"

text \<open>A failed attempt is retried after ten seconds.\<close>

definition retry_later ::
    "('sc, 'pa, 'sg, 'pk, 'st, 'd, 'y) init_env_scheme \<Rightarrow> unit anyhow \<times> node \<Rightarrow> node" where
  "retry_later E rs = (case fst rs of Inl _ \<Rightarrow> pause E (from_secs 10) (snd rs) | Inr _ \<Rightarrow> snd rs)"

text \<open>An established cluster: recover, from the live subset only after the settle window.\<close>

definition form_recover ::
    "('sc, 'pa, 'sg, 'pk, 'st, 'd, 'y) init_env_scheme \<Rightarrow> membership \<Rightarrow> instant option \<Rightarrow> node \<Rightarrow> instant option \<times> node" where
  "form_recover E m subset_wait_since s =
     (let run = (\<lambda>s. retry_later E (counted recovery_ok_update recovery_fail_update (run_reshare_recovery E m s))) in
      if all_discovered m then (None, run s)
      else let since = (case subset_wait_since of None \<Rightarrow> clock s | Some t \<Rightarrow> t) in
           if clock s - since < SUBSET_SETTLE then (Some since, pause E (from_secs 5) s)
           else (Some since, run s))"

definition form_genesis ::
    "('sc, 'pa, 'sg, 'pk, 'st, 'd, 'y) init_env_scheme \<Rightarrow> membership \<Rightarrow> node \<Rightarrow> node" where
  "form_genesis E m s =
     (if \<not> all_discovered m then pause E (from_secs 5) s
      else retry_later E (counted genesis_ok_update genesis_fail_update (run_genesis E m s)))"

text \<open>One turn of the loop, for a node without a share.\<close>

definition form_turn ::
    "('sc, 'pa, 'sg, 'pk, 'st, 'd, 'y) init_env_scheme \<Rightarrow> instant option \<Rightarrow> node \<Rightarrow> instant option \<times> node" where
  "form_turn E since s =
     (case assemble_participants E s of
        (Inr None, s1) \<Rightarrow> (since, pause E (from_secs 5) s1)
      | (Inl _, s1) \<Rightarrow> (since, pause E (from_secs 5) (bump membership_fail_update s1))
      | (Inr (Some m), s1) \<Rightarrow>
          (case join_cluster E s1 of
             (Inr Joined, s2) \<Rightarrow> (since, s2)
           | (Inr NoSeedReachable, s2) \<Rightarrow> (since, form_genesis E m s2)
           | (Inr SeedReachableDeclined, s2) \<Rightarrow> form_recover E m since s2
           | (Inl _, s2) \<Rightarrow> (since, pause E (from_secs 10) s2)))"

fun form_loop ::
    "('sc, 'pa, 'sg, 'pk, 'st, 'd, 'y) init_env_scheme \<Rightarrow> nat \<Rightarrow> instant option \<Rightarrow> node \<Rightarrow> node option" where
  "form_loop E fuel since s =
     (if shard s \<noteq> None then Some s
      else case fuel of 0 \<Rightarrow> None
           | Suc n \<Rightarrow> (let (since', s') = form_turn E since s in form_loop E n since' s'))"

declare form_loop.simps [simp del]

definition form_cluster ::
    "('sc, 'pa, 'sg, 'pk, 'st, 'd, 'y) init_env_scheme \<Rightarrow> nat \<Rightarrow> node \<Rightarrow> node option" where
  "form_cluster E fuel s =
     form_loop E fuel None (if shard s = None then snd (try_reload_sealed E s) else s)"

subsection \<open>The watchdog\<close>

definition stagger :: "node \<Rightarrow> nat" where
  "stagger s = unat (eth_address (signing_key s) ! 19) mod 23"

definition catch_up ::
    "('sc, 'pa, 'sg, 'pk, 'st, 'd, 'y) init_env_scheme \<Rightarrow> node \<Rightarrow> node" where
  "catch_up E s =
     (case assemble_participants E s of
        (Inr (Some m), s1) \<Rightarrow> snd (counted recovery_ok_update recovery_fail_update (run_reshare_recovery E m s1))
      | (Inr None, s1) \<Rightarrow> s1
      | (Inl _, s1) \<Rightarrow> bump membership_fail_update s1)"

text \<open>One turn of the watchdog, with the number of consecutive checks that found the node behind.\<close>

definition watchdog_turn ::
    "('sc, 'pa, 'sg, 'pk, 'st, 'd, 'y) init_env_scheme \<Rightarrow> u32 \<Rightarrow> node \<Rightarrow> u32 \<times> node" where
  "watchdog_turn E behind_checks s0 =
     (let s = pause E (from_secs (45 + stagger s0)) s0 in
      case shard s of
        None \<Rightarrow> (behind_checks, s)
      | Some sh \<Rightarrow>
          if known_epoch s \<le> shard_epoch sh then (0, s)
          else if behind_checks + 1 < 2 then (behind_checks + 1, s)
          else (0, catch_up E (bump fall_behind_update s)))"

text \<open>The watchdog never ends; this is its state after a number of turns.\<close>

fun fall_behind_watchdog ::
    "('sc, 'pa, 'sg, 'pk, 'st, 'd, 'y) init_env_scheme \<Rightarrow> nat \<Rightarrow> u32 \<times> node \<Rightarrow> u32 \<times> node" where
  "fall_behind_watchdog E 0 cs = cs"
| "fall_behind_watchdog E (Suc n) cs = (let (c, s) = cs in fall_behind_watchdog E n (watchdog_turn E c s))"

section \<open>Specification\<close>

text \<open>What other tasks do beside the startup task: they leave the share and the identity alone, and keep
  the chain and attestation tables of the process valid.\<close>

definition idle_step :: "'y gate_env_scheme \<Rightarrow> node \<Rightarrow> node \<Rightarrow> bool" where
  "idle_step E s s' \<longleftrightarrow> same_share s s' \<and> VERIFIER s' = VERIFIER s \<and> clock s \<le> clock s' \<and>
     (proc_inv E (node_cfg s) s \<longrightarrow> proc_inv E (node_cfg s) s')"

definition idle_tasks :: "'y gate_env_scheme \<Rightarrow> (node \<Rightarrow> node) set" where
  "idle_tasks E = {f. \<forall>s. idle_step E s (f s)}"

text \<open>The state of the loop after \<open>k\<close> turns: the beginning of the wait for a full committee, and the node.\<close>

definition form_turns ::
    "('sc, 'pa, 'sg, 'pk, 'st, 'd, 'y) init_env_scheme \<Rightarrow> nat \<Rightarrow> instant option \<times> node \<Rightarrow> instant option \<times> node" where
  "form_turns E k p = ((\<lambda>(since, s). form_turn E since s) ^^ k) p"

text \<open>
  Where the share of a node comes from that formed in the turn that started in \<open>s\<close>: the bootstrap node
  assigned it; or every member of the committee of this turn was there, every seed that this turn asked
  gave no evidence of a cluster, and the node took part in the genesis; or the node recovered it
  with enough dealers of this committee, at an epoch above every known one.
\<close>

definition formed_by ::
    "('sc, 'pa, 'sg, 'pk, 'st, 'd, 'y) init_env_scheme \<Rightarrow> instant option \<Rightarrow> node \<Rightarrow> node \<Rightarrow> bool" where
  "formed_by E since s s' \<longleftrightarrow>
     (\<exists>sh m s1 j s2. shard s' = Some sh \<and> assemble_participants E s = (Inr (Some m), s1) \<and> join_cluster E s1 = (Inr j, s2) \<and>
        (case j of
           Joined \<Rightarrow> shard_origin E s (clock s') sh \<and> group_pubkey s' = group_pubkey s
         | NoSeedReachable \<Rightarrow> shard_epoch sh = GENESIS_EPOCH \<and> all_discovered m \<and>
             (\<exists>md. \<forall>url \<in> set (seeds (cluster (node_cfg s))). seed_absent E md (clock s1) (clock s2) url)
         | SeedReachableDeclined \<Rightarrow> shard_epoch sh = known_epoch s + 1 \<and> m_threshold m \<le> length (leading_dealers m) \<and>
             majority (m_total m) \<le> length (leading_dealers m) + 1 \<and>
             (group_pubkey s = None \<or> group_pubkey s' = group_pubkey s) \<and>
             (all_discovered m \<or> (\<exists>t. since = Some t \<and> t + SUBSET_SETTLE \<le> clock s2))))"

text \<open>A turn in which a seed declined at \<open>t\<close>, with the committee \<open>m\<close>.\<close>

definition declined_turn ::
    "('sc, 'pa, 'sg, 'pk, 'st, 'd, 'y) init_env_scheme \<Rightarrow> node \<Rightarrow> membership \<Rightarrow> instant \<Rightarrow> bool" where
  "declined_turn E s m t \<longleftrightarrow>
     (\<exists>s1 s2. assemble_participants E s = (Inr (Some m), s1) \<and> join_cluster E s1 = (Inr SeedReachableDeclined, s2) \<and> clock s2 = t)"

text \<open>
  Turn \<open>k\<close> has been waiting since \<open>t\<close>: at that instant an earlier turn met an incomplete committee, and no turn in
  between met a complete one.
\<close>

definition waiting_since ::
    "('sc, 'pa, 'sg, 'pk, 'st, 'd, 'y) init_env_scheme \<Rightarrow> instant option \<times> node \<Rightarrow> nat \<Rightarrow> instant \<Rightarrow> bool" where
  "waiting_since E p k t \<longleftrightarrow>
     (\<exists>i < k. (\<exists>m. declined_turn E (snd (form_turns E i p)) m t \<and> \<not> all_discovered m) \<and>
        (\<forall>j m u. i < j \<and> j < k \<and> declined_turn E (snd (form_turns E j p)) m u \<longrightarrow> \<not> all_discovered m))"

section \<open>Lemmas\<close>

lemma proc_inv_cong:
  assumes "providers s' = providers s" "node_list_cache s' = node_list_cache s" "clock s' = clock s"
    "VERIFIER s' = VERIFIER s" "verdicts s' = verdicts s"
  shows "proc_inv E cfg s' = proc_inv E cfg s"
  using assms by (simp add: proc_inv_def chain_inv_def gate_inv_def gate_since_def)

lemma idle_refl: "idle_step E s s"
  by (simp add: idle_step_def quiet.R_refl)

lemma idle_trans: "idle_step E s s1 \<Longrightarrow> idle_step E s1 s2 \<Longrightarrow> idle_step E s s2"
  using quiet.R_trans [of s s1 s2] by (auto simp: idle_step_def same_share_def)

lemma idle_tick: "idle_step E s (tick d s)"
  using quiet.tick_R [of s d] proc_inv_tick [of E "node_cfg s" s d] by (simp add: idle_step_def)

lemma idle_upd:
  "idle_step E s (s\<lparr>dkg_sessions := x\<rparr>)" "idle_step E s (s\<lparr>mets := y\<rparr>)" "idle_step E s (bump f s)"
proof -
  have "proc_inv E c (s\<lparr>dkg_sessions := x\<rparr>) = proc_inv E c s" "proc_inv E c (s\<lparr>mets := y\<rparr>) = proc_inv E c s"
    "proc_inv E c (bump f s) = proc_inv E c s" for c
    by (rule proc_inv_cong; simp add: bump_def)+
  then show "idle_step E s (s\<lparr>dkg_sessions := x\<rparr>)" "idle_step E s (s\<lparr>mets := y\<rparr>)" "idle_step E s (bump f s)"
    by (simp_all add: idle_step_def same_share_def bump_def)
qed

interpretation idle: interference "idle_tasks E" "idle_step E" for E
  by unfold_locales (auto simp: idle_tasks_def idle_refl idle_tick idle_upd intro: idle_trans)

lemma idle_quiet: "idle_tasks E \<subseteq> quiet_tasks"
  by (auto simp: idle_tasks_def quiet_tasks_def idle_step_def)

lemma asks_idle: "asks_only E s s' \<Longrightarrow> idle_step E s s'"
  using asks_only_share [of E s s'] by (auto simp: asks_only_def idle_step_def)

text \<open>A session that fails leaves no trace but what other tasks did meanwhile.\<close>

context interference
begin

lemma sbind_error:
  assumes "sbind m f s = (Inl e, s')" "R s (snd (m s))" "\<And>a s1. m s = (Inr a, s1) \<Longrightarrow> f a s1 = (Inl e, s') \<Longrightarrow> R s1 s'"
  shows "R s s'"
  using assms(1)
proof (cases rule: sbind_cases)
  case (err e)
  with assms(2) show ?thesis by simp
next
  case (ok a s1)
  with assms(2,3) show ?thesis by (auto intro: R_trans)
qed

lemma session_error:
  assumes "\<And>sid r t. set (wakeups E sid r t) \<subseteq> others"
    and "sbind (run_session E sid part peers timeout) (\<lambda>(share, pk). commit_reshare E msg (new_shard B own share ep) pk) s = (Inl e, s')"
  shows "R s s'"
  using assms(2) run_session_R [OF assms(1)]
  by (rule sbind_error) (auto elim: commit_reshare_cases intro: R_refl)

lemma recovery_error:
  assumes "\<And>sid r t. set (wakeups E sid r t) \<subseteq> others" "run_reshare_recovery E m s = (Inl e, s')"
  shows "R s s'"
proof (cases "length (leading_dealers m) < m_threshold m \<or> length (leading_dealers m) + 1 < majority (m_total m)")
  case True
  with assms(2) show ?thesis by (auto simp: run_reshare_recovery_def Let_def R_refl split: if_splits)
next
  case False
  with assms(2) have "recovery_session E m s = (Inl e, s')" by (simp add: run_reshare_recovery_def Let_def)
  moreover have "R s (trigger_dealers E ps req sig ts s)" for ps req sig ts s
    using trigger_dealers_tick [of E ps req sig ts s] tick_R by metis
  ultimately show ?thesis
    unfolding recovery_session_def Let_def
    by (elim sbind_error) (auto simp: step_err_def R_refl split: prod.splits elim!: sbind_error session_error [OF assms(1)])
qed

lemma recovery_R:
  assumes "\<And>sid r t. set (wakeups E sid r t) \<subseteq> others" "\<And>msg sh pk s. R s (snd (commit_reshare E msg sh pk s))"
  shows "R s (snd (run_reshare_recovery E m s))"
proof -
  have "R s (trigger_dealers E ps req sig ts s)" for ps req sig ts s
    using trigger_dealers_tick [of E ps req sig ts s] tick_R by metis
  then show ?thesis
    unfolding run_reshare_recovery_def recovery_session_def Let_def
    by (auto intro!: sbind_R simp: R_refl step_err_def assms(2) run_session_R [OF assms(1)] split: prod.split)
qed

lemma genesis_error:
  assumes "\<And>sid r t. set (wakeups E sid r t) \<subseteq> others" "run_genesis E m s = (Inl e, s')"
  shows "R s s'"
  using assms(2) unfolding run_genesis_def
  by (elim sbind_error)
    (auto simp: step_err_def R_refl run_session_R [OF assms(1)] split: prod.splits elim!: sbind_error)

end

subsection \<open>One turn\<close>

abbreviation idle_env :: "('sc, 'pa, 'sg, 'pk, 'st, 'd, 'y) init_env_scheme \<Rightarrow> bool" where
  "idle_env E \<equiv> tasks_in E (idle_tasks E) \<and> (\<forall>t d. meanwhile E t d \<in> idle_tasks E)"

lemma pause_idle: "idle_env E \<Longrightarrow> idle_step E s (pause E d s)"
  using idle.others_R idle_tick idle_trans unfolding pause_def by blast

lemma recovery_outcome:
  assumes tasks: "idle_env E" and call: "run_reshare_recovery E m s = (r, s')"
  obtains (failed) e where "r = Inl e" "idle_step E s s'"
  | (recovered) sh where "r = Inr ()" "shard s' = Some sh" "shard_epoch sh = known_epoch s + 1"
    "m_threshold m \<le> length (leading_dealers m)" "majority (m_total m) \<le> length (leading_dealers m) + 1"
    "group_pubkey s = None \<or> group_pubkey s' = group_pubkey s"
proof (cases r)
  case (Inl e)
  with idle.recovery_error [of E E m s e s'] tasks call failed show thesis by blast
next
  case (Inr u)
  then have "majority (m_total m) \<le> length (leading_dealers m) + 1" "m_threshold m \<le> length (leading_dealers m)"
    using call by (auto simp: run_reshare_recovery_def Let_def split: if_splits)
  moreover have "share_moved (known_epoch s + 1) s r s'"
    by (rule recovery_moves [OF _ call]) (use tasks idle_quiet in blast)
  ultimately show thesis using Inr recovered unfolding share_moved_def by auto
qed

lemma genesis_outcome:
  assumes tasks: "idle_env E" and call: "run_genesis E m s = (r, s')"
  obtains (failed) e where "r = Inl e" "idle_step E s s'"
  | (formed) sh where "r = Inr ()" "shard s' = Some sh" "shard_epoch sh = GENESIS_EPOCH"
proof (cases r)
  case (Inl e)
  with idle.genesis_error [of E E m s e s'] tasks call failed show thesis by blast
next
  case (Inr u)
  with call have "\<exists>sh. shard s' = Some sh \<and> shard_epoch sh = GENESIS_EPOCH"
    by (auto simp: run_genesis_def sbind_Inr_iff store_share_simps new_shard_def)
  with Inr formed show thesis by auto
qed

lemma retry_later_cases:
  assumes "idle_env E"
  shows "fst rs = Inl e \<Longrightarrow> idle_step E (snd rs) (retry_later E rs)" "fst rs = Inr u \<Longrightarrow> retry_later E rs = snd rs"
  using pause_idle [OF assms] by (simp_all add: retry_later_def)

lemma known_epoch_asks: "asks_only E s s' \<Longrightarrow> known_epoch s' = known_epoch s"
  by (simp add: known_epoch_def own_epoch_def asks_only_node)

lemma form_genesis_cases:
  assumes "idle_env E"
  obtains (idle) "idle_step E s (form_genesis E m s)"
  | (formed) sh where "shard (form_genesis E m s) = Some sh" "shard_epoch sh = GENESIS_EPOCH" "all_discovered m"
proof (cases "all_discovered m")
  case True
  obtain r s1 where g: "run_genesis E m s = (r, s1)" by force
  let ?c = "counted genesis_ok_update genesis_fail_update (r, s1)"
  have c: "idle_step E s1 (snd ?c)" by (simp add: counted_def idle_upd)
  from g True have f: "form_genesis E m s = retry_later E ?c" by (simp add: form_genesis_def)
  from assms g show thesis
  proof (cases rule: genesis_outcome)
    case (failed e)
    with c retry_later_cases(1) [OF assms, of ?c e] idle f show thesis by (simp add: counted_def) (blast intro: idle_trans)
  next
    case (formed sh)
    with retry_later_cases(2) [OF assms, of ?c "()"] that(2) True f show thesis by (simp add: counted_def)
  qed
next
  case False
  with idle pause_idle [OF assms] show thesis by (simp add: form_genesis_def)
qed

lemma form_recover_cases:
  assumes "idle_env E" "form_recover E m since s = (since', s')"
  obtains (idle) "idle_step E s s'"
  | (recovered) sh where "shard s' = Some sh" "shard_epoch sh = known_epoch s + 1"
    "m_threshold m \<le> length (leading_dealers m)" "majority (m_total m) \<le> length (leading_dealers m) + 1"
    "group_pubkey s = None \<or> group_pubkey s' = group_pubkey s"
    "all_discovered m \<or> (\<exists>t. since = Some t \<and> t + SUBSET_SETTLE \<le> clock s)"
proof -
  obtain r s1 where g: "run_reshare_recovery E m s = (r, s1)" by force
  let ?c = "counted recovery_ok_update recovery_fail_update (r, s1)"
  have c: "idle_step E s1 (snd ?c)" "fst ?c = r" by (simp_all add: counted_def idle_upd)
  have wait: "all_discovered m \<or> SUBSET_SETTLE \<le> clock s - the since \<and> since \<noteq> None" and s': "s' = retry_later E ?c"
    if "\<not> idle_step E s s'"
    using that assms(2) pause_idle [OF assms(1)]
    by (auto simp: form_recover_def Let_def g SUBSET_SETTLE_def from_secs_def split: if_splits option.splits)
  show thesis
  proof (cases "idle_step E s s'")
    case True
    then show thesis by (rule idle)
  next
    case False
    note w = wait [OF False] and s' = s' [OF False]
    from assms(1) g show thesis
    proof (cases rule: recovery_outcome)
      case (failed e)
      with c retry_later_cases(1) [OF assms(1), of ?c e] have "idle_step E s s'" unfolding s' by (metis idle_trans)
      then show thesis by (rule idle)
    next
      case (recovered sh)
      with retry_later_cases(2) [OF assms(1), of ?c "()"] c have "s' = snd ?c" unfolding s' by simp
      then have "shard s' = shard s1" "group_pubkey s' = group_pubkey s1" by (simp_all add: counted_def)
      moreover have "0 < SUBSET_SETTLE" by (simp add: SUBSET_SETTLE_def from_secs_def)
      with w have "all_discovered m \<or> (\<exists>t. since = Some t \<and> t + SUBSET_SETTLE \<le> clock s)" by (cases since) auto
      ultimately show thesis using that(2) [of sh] recovered by simp
    qed
  qed
qed

text \<open>A turn after a seed declined, and one after no seed answered.\<close>

lemma form_declined_cases:
  assumes env: "idle_env E" and m: "assemble_participants E s = (Inr (Some m), s1)"
    and j: "join_cluster E s1 = (Inr SeedReachableDeclined, s2)"
    and as1: "asks_only E s s1" and as2: "asks_only E s1 s2" and t: "form_recover E m since s2 = (since', s')"
  shows "idle_step E s s' \<or> formed_by E since s s'"
proof -
  have i2: "idle_step E s s2" using asks_idle [OF as1] asks_idle [OF as2] by (rule idle_trans)
  have ke: "known_epoch s2 = known_epoch s" "group_pubkey s2 = group_pubkey s"
    using known_epoch_asks [OF as1] known_epoch_asks [OF as2] asks_only_node(7) [OF as1] asks_only_node(7) [OF as2] by simp_all
  from env t show ?thesis
  proof (cases rule: form_recover_cases)
    case idle
    with i2 show ?thesis by (blast intro: idle_trans)
  next
    case (recovered sh)
    with m j ke have "formed_by E since s s'" unfolding formed_by_def by auto
    then show ?thesis ..
  qed
qed

lemma form_absent_cases:
  assumes env: "idle_env E" and m: "assemble_participants E s = (Inr (Some m), s1)"
    and j: "join_cluster E s1 = (Inr NoSeedReachable, s2)" and as1: "asks_only E s s1" and as2: "asks_only E s1 s2"
    and absent: "\<forall>url \<in> set (seeds (cluster (node_cfg s1))). seed_absent E md (clock s1) (clock s2) url"
  shows "idle_step E s (form_genesis E m s2) \<or> formed_by E since s (form_genesis E m s2)"
  using env
proof (cases rule: form_genesis_cases [of E s2 m])
  case idle
  with asks_idle [OF as1] asks_idle [OF as2] show ?thesis by (blast intro: idle_trans)
next
  case (formed sh)
  with absent m j asks_only_node(1) [OF as1] have "formed_by E since s (form_genesis E m s2)" unfolding formed_by_def by auto
  then show ?thesis ..
qed

lemma form_turn_cases:
  assumes env: "idle_env E" and inv: "proc_inv E (node_cfg s) s" and turn: "form_turn E since s = (since', s')"
  obtains (idle) "idle_step E s s'" | (formed) "formed_by E since s s'"
proof -
  obtain r s1 where a: "assemble_participants E s = (r, s1)" by force
  have as1: "asks_only E s s1" by (rule assemble_asks [OF inv a])
  note i1 = asks_idle [OF as1]
  show thesis
  proof (cases "\<exists>m. r = Inr (Some m)")
    case False
    then have "s' = pause E (from_secs 5) s1 \<or> s' = pause E (from_secs 5) (bump membership_fail_update s1)"
      using turn a by (auto simp: form_turn_def split: sum.splits option.splits)
    with i1 pause_idle [OF env] idle_upd(3) [of E s1 membership_fail_update] idle show thesis by (blast intro: idle_trans)
  next
    case True
    then obtain m where m: "assemble_participants E s = (Inr (Some m), s1)" using a by blast
    obtain q s2 where j: "join_cluster E s1 = (q, s2)" by force
    from asks_only_node(12) [OF as1] j show thesis
    proof (cases rule: join_cluster_cases)
      case (error e)
      then have "s' = pause E (from_secs 10) s1" using turn m j by (simp add: form_turn_def)
      with i1 pause_idle [OF env] idle show thesis by (blast intro: idle_trans)
    next
      case (joined sh s3)
      then have s': "s' = s3\<lparr>shard := Some sh\<rparr>" using turn m j by (simp add: form_turn_def)
      have "shard_origin E s (clock s') sh" using joined(4) by (simp add: s' shard_origin_def asks_only_node [OF as1])
      moreover have "group_pubkey s' = group_pubkey s" by (simp add: s' asks_only_node [OF as1] asks_only_node [OF joined(3)])
      ultimately show thesis using m j joined(1) formed unfolding formed_by_def by (simp add: s')
    next
      case (absent md)
      then have "s' = form_genesis E m s2" using turn m j by (simp add: form_turn_def)
      with form_absent_cases [OF env m _ as1 absent(2,3)] j absent(1) idle formed show thesis by blast
    next
      case declined
      then have "form_recover E m since s2 = (since', s')" using turn m j by (simp add: form_turn_def)
      from form_declined_cases [OF env m _ as1 declined(2) this] j declined(1) idle formed show thesis by blast
    qed
  qed
qed

subsection \<open>The turns of a run\<close>

lemma form_turns_simps:
  "form_turns E 0 p = p" "form_turns E (Suc k) p = form_turn E (fst (form_turns E k p)) (snd (form_turns E k p))"
  by (simp_all add: form_turns_def case_prod_beta)

lemma form_turns_first: "form_turns E (Suc k) (since, s) = form_turns E k (form_turn E since s)"
  by (simp add: form_turns_def funpow_Suc_right del: funpow.simps)

text \<open>A turn goes on waiting, or begins to wait, or does not wait.\<close>

lemma form_turn_since:
  assumes turn: "form_turn E since s = (Some t, s')"
  shows "(\<exists>m. declined_turn E s m t \<and> \<not> all_discovered m) \<or>
    since = Some t \<and> (\<forall>m u. declined_turn E s m u \<longrightarrow> \<not> all_discovered m)"
proof -
  obtain r s1 where a: "assemble_participants E s = (r, s1)" by force
  show ?thesis
  proof (cases "\<exists>m s2. r = Inr (Some m) \<and> join_cluster E s1 = (Inr SeedReachableDeclined, s2)")
    case True
    then obtain m s2 where d: "r = Inr (Some m)" "join_cluster E s1 = (Inr SeedReachableDeclined, s2)" by blast
    with turn a have "form_recover E m since s2 = (Some t, s')" by (simp add: form_turn_def)
    moreover have "declined_turn E s m' u \<longleftrightarrow> m' = m \<and> u = clock s2" for m' u using a d by (auto simp: declined_turn_def)
    ultimately show ?thesis by (auto simp: form_recover_def Let_def split: if_splits option.splits)
  next
    case False
    with turn a have "since = Some t"
      by (auto simp: form_turn_def split: sum.splits option.splits prod.splits join_result.splits)
    moreover have "\<not> declined_turn E s m u" for m u using a False by (auto simp: declined_turn_def)
    ultimately show ?thesis by blast
  qed
qed

lemma form_turns_waiting:
  assumes "fst p = None" "fst (form_turns E k p) = Some t"
  shows "waiting_since E p k t"
  using assms(2)
proof (induction k)
  case 0
  with assms(1) show ?case by (simp add: form_turns_simps)
next
  case (Suc k)
  obtain since s where k: "form_turns E k p = (since, s)" by force
  obtain s' where "form_turn E since s = (Some t, s')" using Suc.prems k by (metis form_turns_simps(2) fst_conv snd_conv surj_pair)
  from form_turn_since [OF this] show ?case
  proof
    assume "\<exists>m. declined_turn E s m t \<and> \<not> all_discovered m"
    with k show ?thesis unfolding waiting_since_def by (intro exI [of _ k]) auto
  next
    assume w: "since = Some t \<and> (\<forall>m u. declined_turn E s m u \<longrightarrow> \<not> all_discovered m)"
    with Suc.IH k have "waiting_since E p k t" by simp
    then obtain i where i: "i < k" "\<exists>m. declined_turn E (snd (form_turns E i p)) m t \<and> \<not> all_discovered m"
      "\<forall>j m u. i < j \<and> j < k \<and> declined_turn E (snd (form_turns E j p)) m u \<longrightarrow> \<not> all_discovered m"
      unfolding waiting_since_def by blast
    have "\<not> all_discovered m" if "i < j" "j < Suc k" "declined_turn E (snd (form_turns E j p)) m u" for j m u
    proof (cases "j = k")
      case True
      with w that(3) k show ?thesis by auto
    next
      case False
      with i(3) that show ?thesis by (metis less_SucE)
    qed
    with i(1,2) show ?thesis unfolding waiting_since_def using less_SucI by blast
  qed
qed

text \<open>A run that ends with a share ends with a turn that gave the node the share.\<close>

lemma form_loop_origin:
  assumes "idle_env E" "proc_inv E (node_cfg s) s" "form_loop E n since s = Some s'" "shard s = None"
  shows "\<exists>k < n. \<exists>since1 s1. form_turns E k (since, s) = (since1, s1) \<and> idle_step E s s1 \<and>
    snd (form_turn E since1 s1) = s' \<and> formed_by E since1 s1 s'"
  using assms(2-4)
proof (induction n arbitrary: since s)
  case 0
  then show ?case by (simp add: form_loop.simps)
next
  case (Suc n)
  obtain since1 s1 where t: "form_turn E since s = (since1, s1)" by force
  with Suc.prems have loop: "form_loop E n since1 s1 = Some s'" by (simp add: form_loop.simps [of E "Suc n"])
  from assms(1) Suc.prems(1) t show ?case
  proof (cases rule: form_turn_cases)
    case idle
    then have "proc_inv E (node_cfg s1) s1" "shard s1 = None"
      using Suc.prems by (auto simp: idle_step_def same_share_def)
    with Suc.IH [OF _ loop] obtain k since2 s2 where k: "k < n" "form_turns E k (since1, s1) = (since2, s2)" "idle_step E s1 s2"
      "snd (form_turn E since2 s2) = s'" "formed_by E since2 s2 s'" by blast
    from k(2) t have "form_turns E (Suc k) (since, s) = (since2, s2)" by (simp add: form_turns_first)
    with k idle_trans [OF idle k(3)] show ?thesis by (intro exI [of _ "Suc k"]) auto
  next
    case formed
    then have "shard s1 \<noteq> None" by (auto simp: formed_by_def)
    with loop have "s' = s1" by (simp add: form_loop.simps [of E n])
    with formed t show ?thesis using idle_refl by (intro exI [of _ 0]) (simp add: form_turns_simps)
  qed
qed

subsection \<open>The sealed share at startup\<close>

lemma wait_for_peers_idle: "idle_env E \<Longrightarrow> idle_step E s (wait_for_peers E n s)"
  by (induction n arbitrary: s) (auto intro: idle_refl idle_trans [OF pause_idle])

lemma reload_blob_idle: "idle_step E s (snd (reload_blob s))"
  by (simp add: reload_blob_def idle_refl idle_upd split: option.split sum.split)

lemma reload_False_idle:
  assumes "idle_env E" "try_reload_sealed E s = (False, s')"
  shows "idle_step E s s'"
proof -
  obtain b s1 where b: "reload_blob s = (b, s1)" by force
  then have "idle_step E s s1" using reload_blob_idle [of E s] by simp
  moreover have "s' = s1 \<or> s' = bump sealed_identity_mismatch_update s1 \<or>
      s' = bump sealed_stale_discarded_update (wait_for_peers E 6 s1)"
    using assms(2) b by (auto simp: try_reload_sealed_def Let_def split: option.splits sum.splits if_splits)
  ultimately show ?thesis using wait_for_peers_idle [OF assms(1)] idle_upd(3) by (blast intro: idle_trans)
qed

lemma reload_True_shard: "try_reload_sealed E s = (True, s') \<Longrightarrow> shard s' \<noteq> None"
  by (auto simp: try_reload_sealed_def Let_def adopt_sealed_simps split: option.splits sum.splits if_splits prod.splits)

subsection \<open>The watchdog\<close>

lemma catch_up_moves:
  assumes "idle_env E" "proc_inv E (node_cfg s) s"
  shows "idle_step E s (catch_up E s) \<or> own_epoch (catch_up E s) = known_epoch s + 1 \<and>
    (group_pubkey s = None \<or> group_pubkey (catch_up E s) = group_pubkey s)"
proof -
  obtain r s1 where a: "assemble_participants E s = (r, s1)" by force
  then have asks: "asks_only E s s1" by (rule assemble_asks [OF assms(2)])
  note i1 = asks_idle [OF asks]
  show ?thesis
  proof (cases "\<exists>m. r = Inr (Some m)")
    case False
    then consider e where "r = Inl e" | "r = Inr None" by (cases r) auto
    then have "catch_up E s = s1 \<or> catch_up E s = bump membership_fail_update s1"
      by cases (simp_all add: catch_up_def a)
    then have "idle_step E s1 (catch_up E s)" using idle_upd(3) idle_refl by metis
    with i1 show ?thesis by (blast intro: idle_trans)
  next
    case True
    then obtain m where m: "r = Inr (Some m)" ..
    obtain q s2 where q: "run_reshare_recovery E m s1 = (q, s2)" by force
    with a m obtain y where f: "catch_up E s = s2\<lparr>mets := y\<rparr>" by (simp add: catch_up_def counted_def)
    from assms(1) q show ?thesis
    proof (cases rule: recovery_outcome)
      case (failed e)
      with i1 idle_upd(2) show ?thesis unfolding f by (blast intro: idle_trans)
    next
      case (recovered sh)
      then show ?thesis using known_epoch_asks [OF asks] asks_only_node(7) [OF asks] by (simp add: f own_epoch_def)
    qed
  qed
qed

section \<open>A cluster that forms\<close>

text \<open>The first node of the pair, with no share and no master, when all messages of the genesis have
  arrived.\<close>

definition demo_forming :: node where
  "demo_forming = demo_pair\<lparr>group_pubkey := None, dkg_sessions := [(''genesis:kms'', demo_full_session)]\<rparr>"

lemma demo_forming_simps [simp]:
  "node_cfg demo_forming = demo_pair_config" "group_pubkey demo_forming = None" "clock demo_forming = 1000000000"
  "signing_key demo_forming = \<lparr> private_key = demo_sk, eth_address = demo_addr1 \<rparr>"
  "peer_table demo_forming = peer_table demo_pair" "shard demo_forming = None" "env_vars demo_forming = env_vars demo_pair"
  by (simp_all add: demo_forming_def)

lemma demo_forming_warm:
  "demo_forming = demo_warm (demo_node1\<lparr>node_cfg := demo_pair_config, shard := None, group_pubkey := None,
     dkg_sessions := [(''genesis:kms'', demo_full_session)]\<rparr>)"
  by (simp add: demo_forming_def demo_pair_def demo_warm_def)

lemma demo_forming_inv: "proc_inv demo_init (node_cfg demo_forming) demo_forming"
  unfolding demo_forming_warm
  by (rule demo_warm_inv) (simp_all add: demo_pair_config_def demo_config_def demo_node1_def demo_node_simps)

lemma demo_forming_list: "own_signer_list E demo_forming = (Inr [demo_addr1, demo_addr2], demo_forming)"
  unfolding demo_forming_warm
  by (rule demo_warm_lookup(2) [of demo_pair_config]) (simp_all add: demo_pair_config_def demo_config_def)

lemma demo_forming_assemble: "assemble_participants demo_init demo_forming = (Inr (Some demo_membership), demo_forming)"
  by (simp add: assemble_participants_def sbind_def smap_err_def demo_forming_list Let_def live_member_def hm_get_def
      is_live_def PEER_LIVENESS_WINDOW_SECS_def demo_derive_simps to_session_peer_def demo_membership_def demo_peer2_def
      demo_pk_def demo_addr_neq demo_addr_neq [symmetric])

lemma demo_idle: "idle_env demo_init"
proof -
  have "buffer_round x y \<in> idle_tasks E" for x y and E :: "'y gate_env_scheme"
    using idle_upd(1) by (auto simp: idle_tasks_def buffer_round_def Let_def)
  moreover have "(\<lambda>s. s) \<in> idle_tasks E" for E :: "'y gate_env_scheme" by (simp add: idle_tasks_def idle_refl)
  ultimately show ?thesis by (auto simp: demo_init_def init_env.defs dkg_env.defs)
qed

lemma demo_genesis: "\<exists>s'. run_genesis demo_init demo_membership demo_forming = (Inr (), s') \<and> shard s' \<noteq> None"
proof -
  let ?sid = "''genesis:kms''"
  have msgs: "session_msgs ?sid 1 demo_forming = Some demo_map" "session_msgs ?sid 2 demo_forming = Some demo_map"
    "session_msgs ?sid 3 demo_forming = Some demo_map" "session_msgs ?sid 4 demo_forming = Some demo_map"
    by (simp_all add: session_msgs_def demo_forming_def demo_full_session_def hm_get_def)
  have enc: "encrypt_p2p demo_init (\<lambda>i. Some 3) [demo_peer2] hm_empty = encrypt_p2p demo_dkg (\<lambda>i. Some 3) [demo_peer2] hm_empty"
    by (simp add: ecies_encrypt_def)
  have "\<exists>s'. run_session demo_init ?sid 1 [demo_peer2] DKG_ROUND_TIMEOUT demo_forming = (Inr (7, [7]), s')"
    by (rule run_session_early [OF _ msgs]) (use demo_rounds demo_session_hyps demo_init_can_sign enc in simp_all)
  then obtain s1 where r: "run_session demo_init ?sid 1 [demo_peer2] DKG_ROUND_TIMEOUT demo_forming = (Inr (7, [7]), s1)" ..
  have n: "secret_new demo_gennaro 1 1 2 = Inr 1" by (simp add: demo_gennaro_def)
  have "run_genesis demo_init demo_membership demo_forming =
      (Inr (), store_share demo_init (new_shard demo_bls 1 7 GENESIS_EPOCH) [7] s1)"
    using r n by (simp add: run_genesis_def sbind_def dkg_params_def step_err_def demo_membership_def demo_pair_config_def
        demo_config_def del: One_nat_def)
  then show ?thesis by (simp add: store_share_simps)
qed

lemma demo_forming_reload: "try_reload_sealed demo_init demo_forming = (False, demo_forming)"
  by (simp add: try_reload_sealed_def reload_blob_def sealed_share_blob_def sealed_share_path_def non_blank_def or_else_def
      demo_pair_config_def demo_config_def)

lemma demo_form_cluster: "\<exists>s'. form_cluster demo_init 1 demo_forming = Some s' \<and> shard s' \<noteq> None"
proof -
  note demo_forming_reload
  moreover have "join_cluster demo_init demo_forming = (Inr NoSeedReachable, demo_forming)"
    by (simp add: join_cluster_def demo_pair_config_def demo_config_def)
  moreover have "all_discovered demo_membership" by (simp add: demo_membership_def)
  moreover obtain s1 where "run_genesis demo_init demo_membership demo_forming = (Inr (), s1)" "shard s1 \<noteq> None"
    using demo_genesis by blast
  ultimately show ?thesis
    by (simp add: form_cluster_def form_loop.simps form_turn_def demo_forming_assemble form_genesis_def counted_def retry_later_def)
qed

section \<open>Properties\<close>

text \<open>C6. The disaster gate: whatever other tasks do that leave the share and the process tables alone, a node
  that started without a share and has one now either reloaded its sealed share, or got it in the
  last turn of its startup loop, and then that turn, from the state it started in: joined and was assigned a
  shard by a listed and attested node that signed it for this node; or found every seed without
  evidence of a cluster in this very turn (no connection, or the answer that it holds nothing) and every
  member of its node list live, and took part in the genesis; or recovered with at least the
  threshold of dealers and a majority of the committee of this turn, at an epoch above every known
  one and under the known master, and from an incomplete committee only when 60 seconds had passed
  since a turn of this loop first met one, with no complete one in between.\<close>

theorem disaster_gate:
  assumes "idle_env E" "proc_inv E (node_cfg s) s" "shard s = None" "form_cluster E n s = Some s'"
    and "start = (None, snd (try_reload_sealed E s))"
  shows "try_reload_sealed E s = (True, s') \<or>
    (\<exists>k < n. \<exists>since s1. form_turns E k start = (since, s1) \<and> snd (form_turn E since s1) = s' \<and>
       same_share s s1 \<and> formed_by E since s1 s' \<and> (\<forall>t. since = Some t \<longrightarrow> waiting_since E start k t))"
proof -
  obtain b s0 where r: "try_reload_sealed E s = (b, s0)" by force
  with assms(3,4) have loop: "form_loop E n None s0 = Some s'" by (simp add: form_cluster_def)
  show ?thesis
  proof (cases b)
    case True
    with r have "shard s0 \<noteq> None" by (simp add: reload_True_shard)
    with loop have "s' = s0" by (simp add: form_loop.simps [of E n])
    with r True show ?thesis by simp
  next
    case False
    with r have i: "idle_step E s s0" using reload_False_idle [OF assms(1)] by simp
    with assms(2,3) have "proc_inv E (node_cfg s0) s0" "shard s0 = None"
      by (auto simp: idle_step_def same_share_def)
    with form_loop_origin [OF assms(1) _ loop] obtain k since s1 where k: "k < n" "form_turns E k (None, s0) = (since, s1)"
      "idle_step E s0 s1" "snd (form_turn E since s1) = s'" "formed_by E since s1 s'" by blast
    have "waiting_since E (None, s0) k t" if "since = Some t" for t
      using form_turns_waiting [of "(None, s0)" E k t] k(2) that by simp
    moreover have "same_share s s1" using idle_trans [OF i k(3)] by (simp add: idle_step_def)
    ultimately show ?thesis using k r assms(5) by auto
  qed
qed

theorem disaster_gate_witness:
  "\<exists>s' m s1. form_cluster demo_init 1 demo_forming = Some s' \<and> shard s' \<noteq> None \<and> shard demo_forming = None \<and>
     assemble_participants demo_init demo_forming = (Inr (Some m), s1) \<and> all_discovered m \<and> formed_by demo_init None demo_forming s'"
proof -
  obtain s' where s': "form_cluster demo_init 1 demo_forming = Some s'" "shard s' \<noteq> None" using demo_form_cluster by blast
  have "formed_by demo_init None demo_forming s'"
    using disaster_gate [OF demo_idle demo_forming_inv _ s'(1) refl] by (auto simp: demo_forming_reload form_turns_simps)
  with s' demo_forming_assemble show ?thesis by (auto simp: demo_membership_def)
qed

text \<open>C26. The watchdog confirms before it acts: a turn leaves the share alone unless this check and the one
  before found the cluster ahead of it; what it then stores is a share of the epoch after every
  known one, under the same master. Its counter is non-zero only after a check that found the
  node behind.\<close>

theorem watchdog_confirms:
  assumes "idle_env E" "proc_inv E (node_cfg s) s" "watchdog_turn E c s = (c', s')"
    and "p = pause E (from_secs (45 + stagger s)) s" "known_epoch p \<noteq> - 1"
  shows "(c' \<noteq> 0 \<and> shard s \<noteq> None \<longrightarrow> own_epoch s < known_epoch p) \<and>
    (same_share s s' \<or> c \<noteq> 0 \<and> own_epoch s < known_epoch p \<and> own_epoch s' = known_epoch p + 1 \<and>
       own_epoch s < own_epoch s' \<and> (group_pubkey s = None \<or> group_pubkey s' = group_pubkey s))"
proof -
  have ip: "idle_step E s p" unfolding assms(4) by (rule pause_idle [OF assms(1)])
  then have pp: "shard p = shard s" "same_share s p" "group_pubkey p = group_pubkey s" "proc_inv E (node_cfg p) p"
    using assms(2) by (auto simp: idle_step_def same_share_def)
  note turn = assms(3) [unfolded watchdog_turn_def Let_def, folded assms(4)]
  show ?thesis
  proof (cases "shard p")
    case None
    with turn pp show ?thesis by auto
  next
    case (Some sh)
    then have own: "own_epoch s = shard_epoch sh" using pp by (simp add: own_epoch_def)
    show ?thesis
    proof (cases "shard_epoch sh < known_epoch p \<and> \<not> c + 1 < 2")
      case False
      with turn Some pp(2) own show ?thesis by (auto split: if_splits)
    next
      case True
      let ?b = "bump fall_behind_update p"
      have b: "idle_step E p ?b" "known_epoch ?b = known_epoch p" "group_pubkey ?b = group_pubkey s"
        using pp(3) by (simp_all add: idle_upd known_epoch_def own_epoch_def bump_def)
      then have "proc_inv E (node_cfg ?b) ?b" using pp(4) by (simp add: idle_step_def same_share_def)
      note moves = catch_up_moves [OF assms(1) this]
      from True turn Some have s': "c' = 0" "s' = catch_up E ?b" by (auto split: if_splits)
      have "same_share s s'" if "idle_step E ?b s'"
        using idle_trans [OF ip idle_trans [OF b(1) that]] by (simp add: idle_step_def)
      moreover have "known_epoch p < known_epoch p + 1" using assms(5) by (rule known_epoch_next)
      moreover have "c \<noteq> 0" using True by auto
      ultimately show ?thesis using moves b s' own True by (auto dest: less_trans)
    qed
  qed
qed

definition demo_behind :: node where
  "demo_behind = demo_dealing\<lparr>shard := Some \<lparr> shard_index = 1, shard_bytes = [1, 7], shard_epoch = 4 \<rparr>\<rparr>"

theorem watchdog_confirms_witness:
  "\<exists>s'. watchdog_turn demo_init 0 demo_behind = (1, s') \<and> own_epoch demo_behind < known_epoch s' \<and> same_share demo_behind s'"
proof -
  let ?p = "pause demo_init (from_secs (45 + stagger demo_behind)) demo_behind"
  have p: "shard ?p = Some \<lparr> shard_index = 1, shard_bytes = [1, 7], shard_epoch = 4 \<rparr>" "known_epoch ?p = 5"
    using demo_known_epoch by (simp_all add: pause_def tick_def demo_behind_def known_epoch_def own_epoch_def hm_values_def max_or_0_def)
  then have t: "watchdog_turn demo_init 0 demo_behind = (1, ?p)" by (simp add: watchdog_turn_def Let_def)
  have "proc_inv demo_init (node_cfg demo_behind) demo_behind = proc_inv demo_init (node_cfg demo_dealing) demo_dealing"
    by (simp add: demo_behind_def) (rule proc_inv_cong; simp)
  then have inv: "proc_inv demo_init (node_cfg demo_behind) demo_behind" by (simp add: demo_dealing_inv del: demo_dealing_simps)
  have "known_epoch ?p \<noteq> - 1" "shard demo_behind \<noteq> None" using p by (simp_all add: demo_behind_def)
  with watchdog_confirms [OF demo_idle inv t refl] t p show ?thesis by auto
qed

end
