(* ===== verification/Exposition.thy ===== *)
theory Exposition
  imports Monitoring
begin

text \<open>
  \<open>render\<close> of \<open>src/metrics.rs\<close>: the Prometheus text of \<open>GET /metrics\<close>. The text is built from metric
  families (name, help, kind and labelled samples), grouped as the source groups them. Shown: no
  family is written twice and no sample either, so that the text is a valid exposition, and the
  text depends on the node only through the counters, the cluster snapshot and the clocks.
\<close>

record family =
  fam_name :: string
  fam_help :: string
  fam_kind :: string
  fam_samples :: "(string \<times> string) list"

section \<open>Definitions\<close>

definition CARGO_PKG_VERSION :: string where
  "CARGO_PKG_VERSION = ''0.1.0''"

definition newline :: string where
  "newline = [CHR 0x0A]"

fun comma_labels :: "(string \<times> string) list \<Rightarrow> string" where
  "comma_labels [] = []"
| "comma_labels [(k, v)] = k @ ''='' @ quoted v"
| "comma_labels ((k, v) # kv # kvs) = k @ ''='' @ quoted v @ '','' @ comma_labels (kv # kvs)"

definition labels :: "(string \<times> string) list \<Rightarrow> string" where
  "labels kvs = ''{'' @ comma_labels kvs @ ''}''"

definition show_word :: "'a :: len word \<Rightarrow> string" where
  "show_word w = show_nat (unat w)"

definition show_bit :: "bool \<Rightarrow> string" where
  "show_bit b = (if b then ''1'' else ''0'')"

definition uptime :: "instant \<Rightarrow> metrics \<Rightarrow> string" where
  "uptime now m = show_nat (elapsed now (started m) div 1000000000)"

text \<open>The macro \<open>g!\<close>: a family of one sample without labels.\<close>

definition family1 :: "string \<Rightarrow> string \<Rightarrow> string \<Rightarrow> string \<Rightarrow> family" where
  "family1 n h k v = \<lparr> fam_name = n, fam_help = h, fam_kind = k, fam_samples = [([], v)] \<rparr>"

definition write_family :: "family \<Rightarrow> string" where
  "write_family f =
     ''# HELP '' @ fam_name f @ '' '' @ fam_help f @ newline @
     ''# TYPE '' @ fam_name f @ '' '' @ fam_kind f @ newline @
     concat (map (\<lambda>(l, v). fam_name f @ l @ '' '' @ v @ newline) (fam_samples f))"

definition render_process :: "instant \<Rightarrow> metrics \<Rightarrow> family list" where
  "render_process now m =
    [family1 ''kms_build_info''
       ''Build metadata; always 1, read the labels.''
       ''gauge'' (''{version='' @ quoted CARGO_PKG_VERSION @ ''} 1''),
     family1 ''kms_uptime_seconds''
       ''Seconds since process start.''
       ''gauge'' (uptime now m)]"

definition render_share :: "instant \<Rightarrow> metrics \<Rightarrow> cluster_snapshot \<Rightarrow> family list" where
  "render_share now m v =
    [family1 ''kms_has_share''
       ''1 if this node holds a share of the master key.''
       ''gauge'' (show_bit (cv_has_share v)),
     family1 ''kms_shardless_seconds''
       ''Seconds this node has been running without a share. Stays 0 once a share is held. Unbounded growth means recovery is not converging and needs a human.''
       ''gauge'' (if cv_has_share v then ''0'' else uptime now m),
     family1 ''kms_own_id''
       ''This node's 1-based participant id, which is also its shard index. Derived from its position in the on-chain nodeList, so it changes if that list is reordered. 0 = no share.''
       ''gauge'' (show_word (cv_own_id v)),
     family1 ''kms_epoch''
       ''Polynomial epoch of this node's own share. 0 = none.''
       ''gauge'' (show_word (cv_own_epoch v)),
     family1 ''kms_cluster_epoch''
       ''Highest epoch known across self and all gossiped peers.''
       ''gauge'' (show_word (cv_cluster_epoch v)),
     family1 ''kms_epoch_lag''
       ''cluster_epoch - own epoch. Non-zero for more than a reshare's duration means this node is stranded on a stale polynomial and is silently not contributing to derives.''
       ''gauge'' (show_nat (unat (cv_cluster_epoch v) - unat (cv_own_epoch v)))]"

definition render_committee :: "cluster_snapshot \<Rightarrow> family list" where
  "render_committee v =
    [family1 ''kms_threshold''
       ''Partials required to derive a key (the service threshold).''
       ''gauge'' (show_nat (cv_threshold v)),
     family1 ''kms_total_nodes''
       ''Configured committee size.''
       ''gauge'' (show_nat (cv_total_nodes v)),
     family1 ''kms_recovery_threshold''
       (''max(threshold, floor(n/2)) '' @ em_dash @ '' live leading-epoch holders needed for a shardless node to rejoin. Alert on this, not on kms_threshold: derives keep working below it while the cluster has already lost the ability to heal.'')
       ''gauge'' (show_nat (cv_recovery_threshold v)),
     family1 ''kms_leading_holders''
       ''Live share-holders on the leading epoch, self included. The population a reshare can draw dealers from.''
       ''gauge'' (show_nat (cv_leading_holders v)),
     family1 ''kms_live_share_holders''
       ''Live share-holders on any epoch, self included. Reported for continuity; alert on kms_leading_holders, since a holder on a stale epoch cannot be a dealer.''
       ''gauge'' (show_nat (cv_live_share_holders v)),
     family1 ''kms_peers_known''
       ''Peers in the gossip table, alive or not.''
       ''gauge'' (show_nat (cv_peers_known v)),
     family1 ''kms_peers_live''
       ''Peers seen by direct contact within the liveness window.''
       ''gauge'' (show_nat (cv_peers_live v))]"

definition render_master :: "'y crates_scheme \<Rightarrow> metrics \<Rightarrow> cluster_snapshot \<Rightarrow> family list" where
  "render_master L m v =
    [family1 ''kms_group_pubkey_known''
       ''1 if this node knows the cluster's group public key.''
       ''gauge'' (show_bit (cv_group_pubkey v \<noteq> None))] @
    (case cv_group_pubkey v of
       None \<Rightarrow> []
     | Some pk \<Rightarrow> [\<lparr> fam_name = ''kms_group_pubkey_info'',
         fam_help = ''The cluster master this node holds, as a label. Always 1.'', fam_kind = ''gauge'',
         fam_samples = [(labels [(''hash'', take (min 16 (length pk * 2)) (hex_encode L pk))], ''1'')] \<rparr>]) @
    [family1 ''kms_group_pubkey_mismatch''
       (''Live peers whose gossiped master differs from ours. This node's own observation '' @ em_dash @ '' it says a fork exists, not who is right. Use kms_group_pubkey_info to decide that.'')
       ''gauge'' (show_nat (cv_group_pubkey_mismatch v)),
     family1 ''kms_master_matches_baseline''
       ''1 = the master matches the baseline recorded when this node first formed, 0 = it does NOT (the cluster forked, or a re-genesis ran without clearing the baseline), -1 = no baseline on file. Unlike the gossip comparison this survives a TEE identity change, which is precisely when a rejoining node has no other memory of which cluster it was in.''
       ''gauge'' (show_int (sint (master_matches_baseline m))),
     family1 ''kms_last_recovery_seconds''
       (''Seconds this node took to go from boot to holding a share. 0 = no such transition since boot. This is the single-node recovery time the committee's fault tolerance is spent in units of '' @ em_dash @ '' when it runs away, the margin goes with it.'')
       ''gauge'' (show_word (last_recovery_seconds m))]"

definition render_derive :: "metrics \<Rightarrow> family list" where
  "render_derive m =
    [\<lparr> fam_name = ''kms_appkey_requests_total'', fam_help = ''App-key requests by outcome.'', fam_kind = ''counter'',
       fam_samples = [(labels [(''result'', ''ok'')], show_word (appkey_ok m)),
         (labels [(''result'', ''unauthorized'')], show_word (appkey_unauthorized m)),
         (labels [(''result'', ''bad_request'')], show_word (appkey_bad_request m)),
         (labels [(''result'', ''not_ready'')], show_word (appkey_not_ready m)),
         (labels [(''result'', ''error'')], show_word (appkey_error m))] \<rparr>,
     \<lparr> fam_name = ''kms_dprf_discarded_total'', fam_help = ''Peer partials dropped during collection, by reason.'', fam_kind = ''counter'',
       fam_samples = [(labels [(''reason'', ''malformed'')], show_word (dprf_discarded_malformed m)),
         (labels [(''reason'', ''peer_error'')], show_word (dprf_discarded_peer_error m))] \<rparr>,
     family1 ''kms_dprf_short_total''
       ''Derives that failed because no single epoch reached threshold.''
       ''counter'' (show_word (dprf_short m))]"

definition render_sessions :: "metrics \<Rightarrow> family list" where
  "render_sessions m =
    [\<lparr> fam_name = ''kms_session_total'', fam_help = ''Key-formation sessions by kind and outcome.'', fam_kind = ''counter'',
       fam_samples = [(labels [(''kind'', ''genesis''), (''result'', ''ok'')], show_word (genesis_ok m)),
         (labels [(''kind'', ''genesis''), (''result'', ''fail'')], show_word (genesis_fail m)),
         (labels [(''kind'', ''recovery''), (''result'', ''ok'')], show_word (recovery_ok m)),
         (labels [(''kind'', ''recovery''), (''result'', ''fail'')], show_word (recovery_fail m)),
         (labels [(''kind'', ''dealer''), (''result'', ''ok'')], show_word (dealer_ok m)),
         (labels [(''kind'', ''dealer''), (''result'', ''fail'')], show_word (dealer_fail m)),
         (labels [(''kind'', ''refresh''), (''result'', ''ok'')], show_word (refresh_ok m)),
         (labels [(''kind'', ''refresh''), (''result'', ''fail'')], show_word (refresh_fail m))] \<rparr>,
     family1 ''kms_fall_behind_total''
       ''Times the watchdog found this node on a stale epoch and triggered a catch-up rejoin.''
       ''counter'' (show_word (fall_behind m)),
     family1 ''kms_membership_failures_total''
       ''Failures to assemble the committee (chain lookup failed, or this node's signer is not in the on-chain nodeList). While this climbs the node cannot form or rejoin.''
       ''counter'' (show_word (membership_fail m))]"

definition render_sealed :: "metrics \<Rightarrow> family list" where
  "render_sealed m =
    [family1 ''kms_sealed_persist_failures_total''
       (''Failures to write the sealed share to durable storage. Harmless while running, fatal on the next restart '' @ em_dash @ '' the node would have to rejoin instead of reloading.'')
       ''counter'' (show_word (sealed_persist_fail m)),
     family1 ''kms_sealed_stale_discarded_total''
       ''Sealed blobs dropped at boot for being older than the cluster epoch.''
       ''counter'' (show_word (sealed_stale_discarded m)),
     family1 ''kms_sealed_identity_mismatch_total''
       ''Sealed blobs that could not be opened by this TEE identity, meaning the hardware identity changed and a rejoin is required.''
       ''counter'' (show_word (sealed_identity_mismatch m)),
     family1 ''kms_share_path_writable''
       ''1 = the sealed-share path was writable at the last probe, 0 = not writable (a read-only filesystem looks healthy everywhere else), -1 = no path configured.''
       ''gauge'' (show_int (sint (share_path_writable m)))]"

definition render_verifier :: "metrics \<Rightarrow> family list" where
  "render_verifier m =
    [family1 ''kms_verifier_enabled''
       (''1 = attested-admission gate active ([verifier] configured), 0 = admission is on-chain membership only. The fleet must be uniformly 1 or 0 '' @ em_dash @ '' a mixed fleet gates inconsistently.'')
       ''gauge'' (show_int (sint (verifier_enabled m))),
     \<lparr> fam_name = ''kms_verifier_total'', fam_help = ''Attested-admission checks by outcome.'', fam_kind = ''counter'',
       fam_samples = [(labels [(''result'', ''allowed'')], show_word (verifier_allowed m)),
         (labels [(''result'', ''denied'')], show_word (verifier_denied m)),
         (labels [(''result'', ''unavailable_served_stale'')], show_word (verifier_stale_served m)),
         (labels [(''result'', ''unavailable_refused'')], show_word (verifier_unavailable_refused m)),
         (labels [(''result'', ''scan_behind'')], show_word (verifier_scan_behind m))] \<rparr>]"

definition render_network :: "i64 \<Rightarrow> metrics \<Rightarrow> family list" where
  "render_network utc m =
    [\<lparr> fam_name = ''kms_gossip_push_total'', fam_help = ''Outbound gossip pushes by outcome.'', fam_kind = ''counter'',
       fam_samples = [(labels [(''result'', ''ok'')], show_word (gossip_push_ok m)),
         (labels [(''result'', ''fail'')], show_word (gossip_push_fail m))] \<rparr>,
     family1 ''kms_gossip_last_success_age_seconds''
       ''Seconds since the last gossip push that reached any peer. -1 = never succeeded. Growing past a few rounds means this node is partitioned and its peer view is going stale.''
       ''gauge'' (if gossip_last_success m = 0 then ''-1'' else show_int (sint (utc - gossip_last_success m))),
     \<lparr> fam_name = ''kms_chain_rpc_total'', fam_help = ''nodeList lookups against the chain RPC, by outcome.'', fam_kind = ''counter'',
       fam_samples = [(labels [(''result'', ''ok'')], show_word (chain_rpc_ok m)),
         (labels [(''result'', ''fail'')], show_word (chain_rpc_fail m))] \<rparr>,
     family1 ''kms_chain_stale_served_total''
       ''RPC failures absorbed by serving the last known nodeList. Authorization is running on data that is no longer being refreshed.''
       ''counter'' (show_word (chain_stale_served m))]"

definition render_families :: "'y crates_scheme \<Rightarrow> instant \<Rightarrow> i64 \<Rightarrow> metrics \<Rightarrow> cluster_snapshot \<Rightarrow> family list" where
  "render_families L now utc m v =
     render_process now m @ render_share now m v @ render_committee v @ render_master L m v @ render_derive m @
     render_sessions m @ render_sealed m @ render_verifier m @ render_network utc m"

definition render :: "'y chain_env_scheme \<Rightarrow> node \<Rightarrow> string" where
  "render E s =
     (let utc = utc_now E (clock s)
      in concat (map write_family (render_families E (clock s) utc (mets s) (cluster_view utc s))))"

section \<open>Lemmas\<close>

lemma family1_simps [simp]:
  "fam_name (family1 n h k v) = n" "fam_samples (family1 n h k v) = [([], v)]" "fam_kind (family1 n h k v) = k"
  by (simp_all add: family1_def)

lemmas render_defs = render_process_def render_share_def render_committee_def render_master_def render_derive_def
  render_sessions_def render_sealed_def render_verifier_def render_network_def

lemma render_names:
  "map fam_name (render_families L now utc m v) =
     [''kms_build_info'', ''kms_uptime_seconds'', ''kms_has_share'', ''kms_shardless_seconds'', ''kms_own_id'', ''kms_epoch'',
      ''kms_cluster_epoch'', ''kms_epoch_lag'', ''kms_threshold'', ''kms_total_nodes'', ''kms_recovery_threshold'',
      ''kms_leading_holders'', ''kms_live_share_holders'', ''kms_peers_known'', ''kms_peers_live'', ''kms_group_pubkey_known''] @
     (if cv_group_pubkey v = None then [] else [''kms_group_pubkey_info'']) @
     [''kms_group_pubkey_mismatch'', ''kms_master_matches_baseline'', ''kms_last_recovery_seconds'', ''kms_appkey_requests_total'',
      ''kms_dprf_discarded_total'', ''kms_dprf_short_total'', ''kms_session_total'', ''kms_fall_behind_total'',
      ''kms_membership_failures_total'', ''kms_sealed_persist_failures_total'', ''kms_sealed_stale_discarded_total'',
      ''kms_sealed_identity_mismatch_total'', ''kms_share_path_writable'', ''kms_verifier_enabled'', ''kms_verifier_total'',
      ''kms_gossip_push_total'', ''kms_gossip_last_success_age_seconds'', ''kms_chain_rpc_total'', ''kms_chain_stale_served_total'']"
  by (cases "cv_group_pubkey v")
    (simp_all only: render_families_def render_defs map_append list.map append.simps family1_simps family.select_convs
      option.case if_True if_False option.distinct simp_thms)

lemma render_distinct: "distinct (map fam_name (render_families L now utc m v))"
  unfolding render_names by (cases "cv_group_pubkey v = None"; simp only: if_True if_False; code_simp)

lemma render_samples_distinct: "list_all (\<lambda>f. distinct (map fst (fam_samples f))) (render_families L now utc m v)"
  by (cases "cv_group_pubkey v")
    (simp_all only: render_families_def render_defs list_all_append list.pred_inject family1_simps family.select_convs
      option.case list.map fst_conv distinct_singleton simp_thms, simp_all add: labels_def quoted_def)

end
