(* ===== verification/Server.thy ===== *)
theory Server
  imports Formation Exposition
begin

text \<open>
  The HTTP side of a node (\<open>src/server.rs\<close>): the request of an app key, the refresh by the app owner,
  and the monitoring endpoints, up to the router. JSON bodies are represented by records, a
  response by its status code and body; the extractors that parse a request are part of the web
  framework. Shown: an app key is derived only for a listed and attested signer inside the time
  window and leaves the node encrypted; a refresh runs only for the owner the chain names; and the
  monitoring endpoints reveal nothing of a share or of the node's private key.
\<close>

record app_key_request =
  ak_app_id :: string
  ak_timestamp :: i64
  ak_pubkey :: string
  ak_signature :: string
  ak_material :: string

record refresh_request =
  rf_timestamp :: i64
  rf_signature :: string

record peer_view =
  pv_eth_addr :: string
  pv_grpc_url :: string
  pv_epoch :: u64
  pv_live :: bool
  pv_last_seen :: i64
  pv_group_pubkey :: "string option"

record self_view =
  sv_eth_addr :: string
  sv_grpc_url :: string
  sv_epoch :: u64
  sv_has_share :: bool
  sv_own_id :: u32
  sv_group_pubkey :: "string option"

record peers_view =
  pw_cluster_epoch :: u64
  pw_self :: self_view
  pw_peers :: "peer_view list"
  pw_threshold :: nat
  pw_total_nodes :: nat
  pw_recovery_threshold :: nat
  pw_leading_holders :: nat
  pw_live_share_holders :: nat
  pw_group_pubkey_mismatch :: nat

datatype http_body = Text string | EncryptedSecret string | ErrorBody string | PeersBody peers_view

datatype http_request =
    PostAppKey app_key_request
  | PostRefresh refresh_request
  | GetPeers
  | GetSealedShare
  | GetHealth
  | GetReady
  | GetMetrics

section \<open>Definitions\<close>

subsection \<open>App keys\<close>

definition eip191_text :: "string \<Rightarrow> string" where
  "eip191_text message =
     CHR 0x19 # ''Ethereum Signed Message:'' @ [CHR 0x0A] @ show_nat (length message) @ message"

text \<open>The last byte of a signature, as a recovery id.\<close>

definition eip191_recovery_id :: "u8 \<Rightarrow> kms_error + u8" where
  "eip191_recovery_id v =
     (if v = 0 \<or> v = 1 then Inr v
      else if v = 27 \<or> v = 28 then Inr (v - 27)
      else Inl (InvalidSignature (''invalid v byte: '' @ show_nat (unat v))))"

definition recover_eip191_address :: "'y crates_scheme \<Rightarrow> string \<Rightarrow> string \<Rightarrow> kms_error + address" where
  "recover_eip191_address L message signature_hex =
     (let hash = keccak256 L (as_bytes (eip191_text message)) in
      rbind (map_err (\<lambda>_. InvalidSignature ''invalid signature hex'') (hex_decode L (trim_0x signature_hex))) (\<lambda>sig_bytes.
      if length sig_bytes \<noteq> 65
      then Inl (InvalidSignature (''signature must be 65 bytes (r||s||v), got '' @ show_nat (length sig_bytes)))
      else rbind (map_err (\<lambda>_. InvalidSignature ''cannot parse r||s'') (k256_parse_sig L (take 64 sig_bytes))) (\<lambda>sig.
           rbind (eip191_recovery_id (sig_bytes ! 64)) (\<lambda>rid.
           rbind (map_err (\<lambda>_. InvalidSignature ''cannot recover signer'') (k256_recover L hash sig rid)) (\<lambda>pk.
             Inr (eth_address_from_pubkey L pk))))))"

definition check_timestamp :: "i64 \<Rightarrow> i64 \<Rightarrow> i64 \<Rightarrow> kms_error + unit" where
  "check_timestamp now timestamp tolerance =
     (if too_far now timestamp tolerance
      then Inl (InvalidTimestamp (''timestamp '' @ show_int (sint timestamp) @ '' is too far from now ('' @
             show_int (sint now) @ '')''))
      else Inr ())"

text \<open>Who may get keys of an app: a signer the chain lists for it, attested by scan.\<close>

definition admit_signer ::
    "'y gate_env_scheme \<Rightarrow> string \<Rightarrow> address \<Rightarrow> node \<Rightarrow> (kms_error + unit) \<times> node" where
  "admit_signer E app addr s =
     sbind (get_signer_addresses_for E (rpc_url (chain (node_cfg s))) (contract_address (chain (node_cfg s))) app addr)
       (\<lambda>signers.
         if signers = [] then (\<lambda>s. (Inl (AppNotFound app), s))
         else if addr \<notin> set signers
         then (\<lambda>s. (Inl (InvalidSignature (''recovered address '' @ debug_address E addr @
                 '' not in on-chain signer list for app '' @ app)), s))
         else smap_err NotAttested (require_verified E app addr SCAN_LAG_WAIT)) s"

definition app_key_inner ::
    "('sc, 'pa, 'sg, 'pk, 'y) derive_env_scheme \<Rightarrow> app_key_request \<Rightarrow> node
       \<Rightarrow> (kms_error + string \<times> derive_trace) \<times> node" where
  "app_key_inner E req =
     sbind (\<lambda>s. (check_timestamp (utc_now E (clock s)) (ak_timestamp req)
                   (timestamp_tolerance_secs (server (node_cfg s))), s)) (\<lambda>_.
     sbind (\<lambda>s. (recover_eip191_address E (''GetSecretResource:'' @ show_int (sint (ak_timestamp req)))
                   (ak_signature req), s)) (\<lambda>addr.
     sbind (admit_signer E (ak_app_id req) addr) (\<lambda>_.
     sbind (\<lambda>s. (map_err (\<lambda>_. BadRequest ''invalid material hex'') (hex_decode E (trim_0x (ak_material req))), s)) (\<lambda>material.
     sbind (collect_and_dprf E (ak_app_id req) material) (\<lambda>(app_key, trace) s.
       (rbind (map_err (\<lambda>_. BadRequest ''invalid pubkey hex'') (hex_decode E (trim_0x (ak_pubkey req)))) (\<lambda>pubkey.
        rbind (map_err (\<lambda>e. BadRequest (''cannot encrypt to caller pubkey: '' @ kms_error_to_string e))
                 (ecies_encrypt E pubkey app_key)) (\<lambda>ciphertext.
          Inr (hex_encode E ciphertext, trace))), s))))))"

text \<open>The counter an outcome goes to.\<close>

fun appkey_counter :: "kms_error + 'a \<Rightarrow> (u64 \<Rightarrow> u64) \<Rightarrow> metrics \<Rightarrow> metrics" where
  "appkey_counter (Inr _) = appkey_ok_update"
| "appkey_counter (Inl (InvalidTimestamp _)) = appkey_unauthorized_update"
| "appkey_counter (Inl (InvalidSignature _)) = appkey_unauthorized_update"
| "appkey_counter (Inl (AppNotFound _)) = appkey_unauthorized_update"
| "appkey_counter (Inl (BadRequest _)) = appkey_bad_request_update"
| "appkey_counter (Inl (NotAttested _)) = appkey_unauthorized_update"
| "appkey_counter (Inl (ConfigError _)) = appkey_not_ready_update"
| "appkey_counter (Inl (ChainError _)) = appkey_error_update"
| "appkey_counter (Inl (CryptoError _)) = appkey_error_update"

definition handle_app_key ::
    "('sc, 'pa, 'sg, 'pk, 'y) derive_env_scheme \<Rightarrow> app_key_request \<Rightarrow> node \<Rightarrow> (kms_error + nat \<times> http_body) \<times> node" where
  "handle_app_key E req s =
     (let (r, s') = app_key_inner E req s
      in (rbind r (\<lambda>(secret, trace). Inr (200, EncryptedSecret secret)), bump (appkey_counter r) s'))"

subsection \<open>Refresh\<close>

definition handle_refresh ::
    "('sc, 'pa, 'sg, 'pk, 'st, 'd, 'y) init_env_scheme \<Rightarrow> refresh_request \<Rightarrow> node \<Rightarrow> (kms_error + nat \<times> http_body) \<times> node" where
  "handle_refresh E req =
     sbind (\<lambda>s. (check_timestamp (utc_now E (clock s)) (rf_timestamp req)
                   (timestamp_tolerance_secs (server (node_cfg s))), s)) (\<lambda>_.
     sbind (\<lambda>s. (recover_eip191_address E (''Refresh:'' @ show_int (sint (rf_timestamp req))) (rf_signature req), s)) (\<lambda>recovered.
     sbind (\<lambda>s. get_app_owner E (rpc_url (chain (node_cfg s))) (contract_address (chain (node_cfg s)))
                   (app_id (tapp (node_cfg s))) s) (\<lambda>owner s.
       if recovered \<noteq> owner
       then (Inl (InvalidSignature (''recovered address '' @ debug_address E recovered @ '' is not the on-chain owner '' @
               debug_address E owner @ '' of app '' @ app_id (tapp (node_cfg s)))), s)
       else let (outcome, s') = counted refresh_ok_update refresh_fail_update (trigger_refresh E s)
            in (Inr (case outcome of
                       Inr _ \<Rightarrow> (200, Text ''refresh complete'')
                     | Inl e \<Rightarrow> (500, Text (''refresh failed: '' @ e))), s'))))"

subsection \<open>Monitoring\<close>

definition handle_peers :: "'y chain_env_scheme \<Rightarrow> node \<Rightarrow> peers_view" where
  "handle_peers E s =
     (let now = utc_now E (clock s); v = cluster_view now s in
      \<lparr> pw_cluster_epoch = cv_cluster_epoch v,
        pw_self = \<lparr> sv_eth_addr = ''0x'' @ hex_encode E (eth_address (signing_key s)),
                    sv_grpc_url = self_url (cluster (node_cfg s)), sv_epoch = cv_own_epoch v,
                    sv_has_share = cv_has_share v, sv_own_id = cv_own_id v,
                    sv_group_pubkey = map_option (hex_encode E) (cv_group_pubkey v) \<rparr>,
        pw_peers = map (\<lambda>(addr, p).
            \<lparr> pv_eth_addr = ''0x'' @ hex_encode E addr, pv_grpc_url = grpc_url p, pv_epoch = epoch p,
              pv_live = is_live p now, pv_last_seen = last_seen p,
              pv_group_pubkey = (if peer_group_pubkey p = [] then None else Some (hex_encode E (peer_group_pubkey p))) \<rparr>)
          (peer_table s),
        pw_threshold = cv_threshold v, pw_total_nodes = cv_total_nodes v,
        pw_recovery_threshold = cv_recovery_threshold v, pw_leading_holders = cv_leading_holders v,
        pw_live_share_holders = cv_live_share_holders v, pw_group_pubkey_mismatch = cv_group_pubkey_mismatch v \<rparr>)"

definition handle_health :: "nat \<times> string" where
  "handle_health = (200, ''ok'')"

definition handle_ready :: "node \<Rightarrow> nat \<times> string" where
  "handle_ready s =
     (if shard s \<noteq> None \<and> group_pubkey s \<noteq> None then (200, ''ready'')
      else if shard s \<noteq> None then (503, ''no group public key'')
      else (503, ''no share''))"

definition handle_metrics :: "'y chain_env_scheme \<Rightarrow> node \<Rightarrow> nat \<times> string" where
  "handle_metrics E s = (200, render E s)"

definition handle_sealed_share :: "node \<Rightarrow> nat \<times> string" where
  "handle_sealed_share s =
     (case sealed_blob s of Some b64 \<Rightarrow> (200, b64) | None \<Rightarrow> (404, ''no sealed share yet''))"

subsection \<open>Router\<close>

definition respond :: "kms_error + nat \<times> http_body \<Rightarrow> nat \<times> http_body" where
  "respond r = (case r of Inl e \<Rightarrow> (let (code, message) = into_response e in (code, ErrorBody message)) | Inr x \<Rightarrow> x)"

fun router ::
    "('sc, 'pa, 'sg, 'pk, 'st, 'd, 'y) init_env_scheme \<Rightarrow> http_request \<Rightarrow> node \<Rightarrow> (nat \<times> http_body) \<times> node" where
  "router E (PostAppKey req) s = (let (r, s') = handle_app_key E req s in (respond r, s'))"
| "router E (PostRefresh req) s = (let (r, s') = handle_refresh E req s in (respond r, s'))"
| "router E GetPeers s = ((200, PeersBody (handle_peers E s)), s)"
| "router E GetSealedShare s = (let (code, b) = handle_sealed_share s in ((code, Text b), s))"
| "router E GetHealth s = (let (code, b) = handle_health in ((code, Text b), s))"
| "router E GetReady s = (let (code, b) = handle_ready s in ((code, Text b), s))"
| "router E GetMetrics s = (let (code, b) = handle_metrics E s in ((code, Text b), s))"

section \<open>Specification\<close>

text \<open>The chain named an owner of the app, asked at an instant.\<close>

definition owner_said :: "'y chain_env_scheme \<Rightarrow> config \<Rightarrow> address \<Rightarrow> instant \<Rightarrow> bool" where
  "owner_said E cfg owner t \<longleftrightarrow>
     (\<exists>c d. parse_address E (contract_address (chain cfg)) = Some c \<and>
        rpc_app_owner E t (rpc_url (chain cfg)) c (app_id (tapp cfg)) = (Inr owner, d))"

section \<open>Lemmas\<close>

lemma admit_signer_ok:
  assumes inv: "proc_inv E (node_cfg s) s" and call: "admit_signer E app addr s = (r, s')"
  shows "asks_only E s s'"
    and "r = Inr () \<Longrightarrow> listed_for E (node_cfg s) app addr (clock s') \<and> gate_good E (app, addr) s'"
proof -
  obtain q s1 where q: "get_signer_addresses_for E (rpc_url (chain (node_cfg s))) (contract_address (chain (node_cfg s))) app addr s
      = (q, s1)" by force
  note ok = lookup_ok [OF inv q]
  then have fr: "chain_frame s s1" and inv1: "proc_inv E (node_cfg s) s1" by blast+
  have a1: "asks_only E s s1" using inv1 chain_frame_gate [OF fr] by (simp add: asks_only_def)
  show "asks_only E s s'"
    and "r = Inr () \<Longrightarrow> listed_for E (node_cfg s) app addr (clock s') \<and> gate_good E (app, addr) s'"
  proof (atomize (full), cases "\<exists>a. q = Inr a \<and> addr \<in> set a")
    case False
    then consider e where "q = Inl e" | "q = Inr []" | a where "q = Inr a" "a \<noteq> []" "addr \<notin> set a" by (cases q) auto
    then have "s' = s1 \<and> (\<exists>e. r = Inl e)" using call q by cases (auto simp: admit_signer_def sbind_def)
    with a1 show "asks_only E s s' \<and> (r = Inr () \<longrightarrow> listed_for E (node_cfg s) app addr (clock s') \<and> gate_good E (app, addr) s')"
      by auto
  next
    case True
    then obtain a where a: "q = Inr a" "addr \<in> set a" by blast
    obtain q2 s2 where q2: "require_verified E app addr SCAN_LAG_WAIT s1 = (q2, s2)" by force
    note ok2 = gate_ok [OF inv1 q2]
    have "a \<noteq> []" using a(2) by auto
    with a call q q2 have run: "s' = s2" "r = map_err NotAttested q2"
      by (simp_all add: admit_signer_def sbind_def smap_err_def)
    have "listed_for E (node_cfg s) app addr (clock s2)"
      using ok a ok2 by (auto intro: listed_for_mono simp: gate_frame_def)
    moreover have "asks_only E s1 s2" using ok2 asks_only_node(1) [OF a1] by (simp add: asks_only_def gate_frame_def)
    ultimately show "asks_only E s s' \<and> (r = Inr () \<longrightarrow> listed_for E (node_cfg s) app addr (clock s') \<and> gate_good E (app, addr) s')"
      using run(2) ok2 asks_only_trans [OF a1] unfolding run(1) by (cases q2) auto
  qed
qed

lemma app_key_inner_Inr:
  assumes inv: "proc_inv E (node_cfg s) s" and call: "app_key_inner E req s = (Inr (secret, trace), s')"
  obtains addr s1 material key pk ct where
    "\<not> too_far (utc_now E (clock s)) (ak_timestamp req) (timestamp_tolerance_secs (server (node_cfg s)))"
    "recover_eip191_address E (''GetSecretResource:'' @ show_int (sint (ak_timestamp req))) (ak_signature req) = Inr addr"
    "asks_only E s s1" "listed_for E (node_cfg s) (ak_app_id req) addr (clock s1)" "gate_good E (ak_app_id req, addr) s1"
    "hex_decode E (trim_0x (ak_material req)) = Inr material"
    "collect_and_dprf E (ak_app_id req) material s1 = (Inr (key, trace), s')"
    "hex_decode E (trim_0x (ak_pubkey req)) = Inr pk" "ecies_encrypt E pk key = Inr ct" "secret = hex_encode E ct"
proof -
  from call obtain addr s1 material key pk ct where a:
    "\<not> too_far (utc_now E (clock s)) (ak_timestamp req) (timestamp_tolerance_secs (server (node_cfg s)))"
    "recover_eip191_address E (''GetSecretResource:'' @ show_int (sint (ak_timestamp req))) (ak_signature req) = Inr addr"
    "admit_signer E (ak_app_id req) addr s = (Inr (), s1)"
    "hex_decode E (trim_0x (ak_material req)) = Inr material"
    "collect_and_dprf E (ak_app_id req) material s1 = (Inr (key, trace), s')"
    "hex_decode E (trim_0x (ak_pubkey req)) = Inr pk" "ecies_encrypt E pk key = Inr ct" "secret = hex_encode E ct"
    by (auto simp: app_key_inner_def sbind_Inr_iff rbind_Inr_iff check_timestamp_def split: if_splits)
  with admit_signer_ok [OF inv a(3)] that show thesis by blast
qed

lemma get_app_owner_ok:
  assumes inv: "proc_inv E (node_cfg s) s"
    and call: "get_app_owner E (rpc_url (chain (node_cfg s))) (contract_address (chain (node_cfg s))) (app_id (tapp (node_cfg s))) s = (r, s')"
  shows "asks_only E s s'" "r = Inr owner \<Longrightarrow> \<exists>t. clock s \<le> t \<and> t \<le> clock s' \<and> owner_said E (node_cfg s) owner t"
proof -
  let ?u = "rpc_url (chain (node_cfg s))"
  have prov: "\<forall>p. hm_get (providers s) ?u = Some p \<longrightarrow> p = ?u"
    using inv chain_inv_providers unfolding proc_inv_def by blast
  have f: "node_list_cache s' = node_list_cache s" "chain_frame s s'" "\<forall>p. hm_get (providers s') ?u = Some p \<longrightarrow> p = ?u"
    using call prov
    by (auto simp: get_app_owner_def sbind_def provider_for_def chain_frame_def split: prod.splits sum.splits option.splits unit.splits)
  have "chain_inv E ?u (contract_address (chain (node_cfg s))) s'"
    by (rule chain_inv_store [of E _ _ s]) (use inv f in \<open>auto simp: proc_inv_def chain_frame_def\<close>)
  then show "asks_only E s s'"
    using gate_inv_chain_frame [OF _ f(2)] inv chain_frame_gate [OF f(2)] unfolding asks_only_def proc_inv_def by blast
  show "\<exists>t. clock s \<le> t \<and> t \<le> clock s' \<and> owner_said E (node_cfg s) owner t" if "r = Inr owner"
  proof (rule exI [of _ "clock s"])
    show "clock s \<le> clock s \<and> clock s \<le> clock s' \<and> owner_said E (node_cfg s) owner (clock s)"
      using call that prov f(2)
      by (auto simp: get_app_owner_def sbind_def provider_for_def parse_contract_def owner_said_def chain_frame_def
          split: prod.splits sum.splits option.splits unit.splits)
  qed
qed

lemma recover_eip191_signed:
  assumes "hex_ok L" "k256_ok L" "k256_sign_prehash L sk (keccak256 L (as_bytes (eip191_text message))) = Inr (rs, v)"
    and "k256_verifying_key L sk = Inr pk" "w = v \<or> w = v + 27"
  shows "recover_eip191_address L message (hex_encode L (rs @ [w])) = Inr (eth_address_from_pubkey L pk)"
proof -
  from assms(2,3) obtain sig pk' where k: "length rs = 64" "v \<in> {0, 1}" "k256_parse_sig L rs = Inr sig"
    "k256_verifying_key L sk = Inr pk'" "k256_recover L (keccak256 L (as_bytes (eip191_text message))) sig v = Inr pk'"
    unfolding k256_ok_def by blast
  have "eip191_recovery_id w = Inr v" using assms(5) k(2) by (auto simp: eip191_recovery_id_def)
  with assms(1,4) k show ?thesis
    by (simp add: recover_eip191_address_def Let_def hex_ok_trim_0x hex_ok_roundtrip nth_append)
qed

lemma refresh_cases:
  assumes inv: "proc_inv E (node_cfg s) s" and call: "handle_refresh E req s = (r, s')"
  obtains (refused) e where "r = Inl e" "asks_only E s s'"
  | (run) owner t s1 q s2 where
      "\<not> too_far (utc_now E (clock s)) (rf_timestamp req) (timestamp_tolerance_secs (server (node_cfg s)))"
      "recover_eip191_address E (''Refresh:'' @ show_int (sint (rf_timestamp req))) (rf_signature req) = Inr owner"
      "clock s \<le> t" "t \<le> clock s1" "owner_said E (node_cfg s) owner t" "asks_only E s s1"
      "trigger_refresh E s1 = (q, s2)" "s' = s2\<lparr>mets := mets s'\<rparr>"
      "r = Inr (case q of Inr _ \<Rightarrow> (200, Text ''refresh complete'') | Inl e \<Rightarrow> (500, Text (''refresh failed: '' @ e)))"
  using call unfolding handle_refresh_def
proof (cases rule: sbind_cases)
  case (err e)
  then show thesis using refused asks_only_refl [OF inv] by auto
next
  case (ok u s0)
  then have s0: "s0 = s" and time: "\<not> too_far (utc_now E (clock s)) (rf_timestamp req) (timestamp_tolerance_secs (server (node_cfg s)))"
    by (auto simp: check_timestamp_def split: if_splits)
  from ok(2) [unfolded s0] show thesis
  proof (cases rule: sbind_cases)
    case (err e)
    then show thesis using refused asks_only_refl [OF inv] by auto
  next
    case (ok addr s0)
    then have s0: "s0 = s" and rec: "recover_eip191_address E (''Refresh:'' @ show_int (sint (rf_timestamp req))) (rf_signature req) = Inr addr"
      by auto
    from ok(2) [unfolded s0] show thesis
    proof (cases rule: sbind_cases)
      case (err e)
      then show thesis using refused get_app_owner_ok(1) [OF inv] by blast
    next
      case (ok owner s1)
      note asks = get_app_owner_ok(1) [OF inv ok(1)]
      obtain t where t: "clock s \<le> t" "t \<le> clock s1" "owner_said E (node_cfg s) owner t"
        using get_app_owner_ok(2) [OF inv ok(1) refl] by blast
      show thesis
      proof (cases "addr = owner")
        case False
        with ok(2) asks refused show thesis by auto
      next
        case True
        obtain q s2 where q: "trigger_refresh E s1 = (q, s2)" by force
        with True ok(2) have "r = Inr (case q of Inr _ \<Rightarrow> (200, Text ''refresh complete'') | Inl e \<Rightarrow> (500, Text (''refresh failed: '' @ e)))"
          "s' = s2\<lparr>mets := mets s'\<rparr>" by (auto simp: counted_def)
        with run [OF time _ t asks q] rec True show thesis by blast
      qed
    qed
  qed
qed

text \<open>What the monitoring endpoints may depend on: two nodes that agree on everything but the bytes of the
  share, the shares of others, the private key, the sealed blob and the disk.\<close>

definition public_eq :: "node \<Rightarrow> node \<Rightarrow> bool" where
  "public_eq s s2 \<longleftrightarrow> clock s2 = clock s \<and> mets s2 = mets s \<and> node_cfg s2 = node_cfg s \<and> peer_table s2 = peer_table s \<and>
     group_pubkey s2 = group_pubkey s \<and> eth_address (signing_key s2) = eth_address (signing_key s) \<and>
     map_option (\<lambda>sh. (shard_index sh, shard_epoch sh)) (shard s2) = map_option (\<lambda>sh. (shard_index sh, shard_epoch sh)) (shard s)"

lemma public_eq_shard:
  assumes "public_eq s s2"
  obtains (none) "shard s = None" "shard s2 = None"
  | (some) a b where "shard s = Some a" "shard s2 = Some b" "shard_index b = shard_index a" "shard_epoch b = shard_epoch a"
  using assms by (cases "shard s"; cases "shard s2") (auto simp: public_eq_def)

lemma cluster_view_public: "public_eq s s2 \<Longrightarrow> cluster_view now s2 = cluster_view now s"
proof -
  assume eq: "public_eq s s2"
  then have f: "peer_table s2 = peer_table s" "node_cfg s2 = node_cfg s" "group_pubkey s2 = group_pubkey s"
    by (simp_all add: public_eq_def)
  from eq show ?thesis
    by (cases rule: public_eq_shard) (simp_all add: cluster_view_def leading_epoch_def f)
qed

section \<open>A concrete request\<close>

text \<open>The first node of the pair asks itself for a key of its own app, with a wallet signature (last byte 27).\<close>

definition demo_ask :: "string \<Rightarrow> app_key_request" where
  "demo_ask key_hex =
     \<lparr> ak_app_id = ''kms'', ak_timestamp = 1, ak_pubkey = key_hex,
       ak_signature = hex_encode demo_init (demo_sk @ keccak256 demo_init
         (as_bytes (eip191_text (''GetSecretResource:'' @ show_int (sint (1 :: i64))))) @ [27]),
       ak_material = hex_encode demo_init [1] \<rparr>"

lemma demo_ask_simps [simp]:
  "ak_app_id (demo_ask k) = ''kms''" "ak_timestamp (demo_ask k) = 1" "ak_pubkey (demo_ask k) = k"
  "ak_material (demo_ask k) = hex_encode demo_init [1]" "demo_ask k\<lparr>ak_pubkey := k2\<rparr> = demo_ask k2"
  by (simp_all add: demo_ask_def)

lemma demo_wallet:
  "recover_eip191_address demo_init m
     (hex_encode demo_init (demo_sk @ keccak256 demo_init (as_bytes (eip191_text m)) @ [27])) = Inr demo_addr1"
proof -
  have pk: "k256_verifying_key demo_init demo_sk = Inr (demo_pk demo_sk)" by (simp add: demo_derive_simps demo_sk_def)
  have "length (keccak256 demo_init (as_bytes (eip191_text m))) = 32" using demo_init_crates(5) unfolding k256_ok_def by blast
  then have sig: "k256_sign_prehash demo_init demo_sk (keccak256 demo_init (as_bytes (eip191_text m)))
      = Inr (demo_sk @ keccak256 demo_init (as_bytes (eip191_text m)), 0)"
    by (simp add: demo_derive_simps demo_sk_def)
  have addr: "eth_address_from_pubkey demo_init (demo_pk demo_sk) = demo_addr1"
    by (simp add: eth_address_from_pubkey_def demo_derive_simps demo_hash_def demo_pk_def demo_sk_def demo_addr1_def)
  from recover_eip191_signed [OF demo_init_crates(1,5) sig pk, of 27] show ?thesis by (simp add: addr)
qed

lemma demo_recovers:
  "recover_eip191_address demo_init (''GetSecretResource:'' @ show_int (sint (1 :: i64))) (ak_signature (demo_ask k)) = Inr demo_addr1"
  using demo_wallet [of "''GetSecretResource:'' @ show_int (sint (1 :: i64))"] by (simp add: demo_ask_def)

lemma demo_admitted: "admit_signer demo_init ''kms'' demo_addr1 demo_dealing = (Inr (), demo_dealing)"
proof -
  have w: "demo_dealing = demo_warm (demo_node1\<lparr>node_cfg := demo_pair_config, shard := shard demo_dealing, dkg_sessions := dkg_sessions demo_dealing\<rparr>)"
    by (simp add: demo_dealing_def demo_pair_def demo_warm_def)
  have "own_node_list demo_init demo_pair_config demo_addr1 demo_dealing = (Inr [demo_addr1, demo_addr2], demo_dealing)"
    by (subst (1 2) w, rule demo_warm_lookup(1) [of demo_pair_config]) (simp_all add: demo_pair_config_def demo_config_def)
  moreover have "VERIFIER demo_dealing = None" by (subst w) simp
  ultimately show ?thesis
    by (simp add: admit_signer_def sbind_def smap_err_def own_node_list_def demo_pair_config_def demo_config_def require_verified_def)
qed

lemma demo_key: "\<exists>key tr. collect_and_dprf demo_init ''kms'' [1] demo_dealing = (Inr (key, tr), demo_dealing)"
proof -
  have "is_ok (sign_request demo_init demo_sk ''GetDprfPartial'' ts)" for ts
    using demo_init_can_sign [of demo_dealing "''GetDprfPartial''"] by (simp add: can_sign_def)
  from this [of "utc_now demo_init 1000000000"] obtain sig where
    "sign_request demo_init demo_sk ''GetDprfPartial'' (utc_now demo_init 1000000000) = Inr sig"
    by (cases "sign_request demo_init demo_sk ''GetDprfPartial'' (utc_now demo_init 1000000000)") auto
  then show ?thesis
    by (cases "completion_order demo_init (peer_urls demo_dealing)")
      (simp_all add: collect_and_dprf_def sbind_def Let_def share_from_bytes_def dprf_partial_def demo_bls_def
        add_partial_def collector_start_def hm_list_def hm_push_def finish_derive_def dprf_sigma_def dprf_verify_def
        sigma_to_app_key_def demo_pair_config_def)
qed

lemma demo_app_key:
  assumes "hex_decode demo_init (trim_0x k) = Inr (demo_pk demo_sk)"
  shows "\<exists>secret s'. handle_app_key demo_init (demo_ask k) demo_dealing = (Inr (200, EncryptedSecret secret), s')"
proof -
  obtain key tr where key: "collect_and_dprf demo_init ''kms'' [1] demo_dealing = (Inr (key, tr), demo_dealing)" using demo_key by blast
  have time: "check_timestamp (utc_now demo_init (clock demo_dealing)) 1 (timestamp_tolerance_secs (server (node_cfg demo_dealing))) = Inr ()"
    by (simp add: check_timestamp_def demo_derive_simps too_far_def i64_abs_def demo_pair_config_def demo_config_def)
  have enc: "ecies_encrypt demo_init (demo_pk demo_sk) key = Inr (demo_pk demo_sk @ key)" by (simp add: ecies_encrypt_def demo_ecies)
  have mat: "hex_decode demo_init (trim_0x (hex_encode demo_init [1])) = Inr [1]"
    using demo_init_crates(1) by (simp add: hex_ok_trim_0x hex_ok_roundtrip del: demo_init_simps)
  have "app_key_inner demo_init (demo_ask k) demo_dealing = (Inr (hex_encode demo_init (demo_pk demo_sk @ key), tr), demo_dealing)"
    using time demo_recovers [of k] demo_admitted mat key assms enc
    by (simp add: app_key_inner_def sbind_def del: demo_init_simps demo_dealing_simps)
  then show ?thesis by (simp add: handle_app_key_def)
qed

section \<open>Properties\<close>

text \<open>C1. An app key leaves a node only for an entitled caller: when \<open>POST /app-key\<close> answers with a secret,
  the timestamp was inside the window, the wallet signature over it recovers to an address that
  the chain listed for the app and that was attested (when a verifier is configured) when the
  derivation started, and the secret is the derived key of exactly this app and material,
  encrypted to the key of the request; the node had reported itself ready.\<close>

theorem app_key_released:
  assumes "proc_inv E (node_cfg s) s" "handle_app_key E req s = (Inr (code, body), s')"
  shows "\<exists>addr s1 material key trace s2 pk ct.
    \<not> too_far (utc_now E (clock s)) (ak_timestamp req) (timestamp_tolerance_secs (server (node_cfg s))) \<and>
    recover_eip191_address E (''GetSecretResource:'' @ show_int (sint (ak_timestamp req))) (ak_signature req) = Inr addr \<and>
    asks_only E s s1 \<and> listed_for E (node_cfg s) (ak_app_id req) addr (clock s1) \<and> gate_good E (ak_app_id req, addr) s1 \<and>
    hex_decode E (trim_0x (ak_material req)) = Inr material \<and>
    collect_and_dprf E (ak_app_id req) material s1 = (Inr (key, trace), s2) \<and>
    hex_decode E (trim_0x (ak_pubkey req)) = Inr pk \<and> ecies_encrypt E pk key = Inr ct \<and>
    code = 200 \<and> body = EncryptedSecret (hex_encode E ct) \<and> handle_ready s = (200, ''ready'')"
proof -
  obtain r s2 where i: "app_key_inner E req s = (r, s2)" by force
  with assms(2) obtain secret trace where r: "r = Inr (secret, trace)" "code = 200" "body = EncryptedSecret secret"
    by (auto simp: handle_app_key_def rbind_Inr_iff)
  from assms(1) i [unfolded r] obtain addr s1 material key pk ct where a:
    "\<not> too_far (utc_now E (clock s)) (ak_timestamp req) (timestamp_tolerance_secs (server (node_cfg s)))"
    "recover_eip191_address E (''GetSecretResource:'' @ show_int (sint (ak_timestamp req))) (ak_signature req) = Inr addr"
    "asks_only E s s1" "listed_for E (node_cfg s) (ak_app_id req) addr (clock s1)" "gate_good E (ak_app_id req, addr) s1"
    "hex_decode E (trim_0x (ak_material req)) = Inr material"
    "collect_and_dprf E (ak_app_id req) material s1 = (Inr (key, trace), s2)"
    "hex_decode E (trim_0x (ak_pubkey req)) = Inr pk" "ecies_encrypt E pk key = Inr ct" "secret = hex_encode E ct"
    by (rule app_key_inner_Inr)
  obtain own gpk where "shard s1 = Some own" "group_pubkey s1 = Some gpk"
    by (rule collect_and_dprf_ok [OF asks_only_node(12) [OF a(3)] a(7)])
  then have "handle_ready s = (200, ''ready'')" using asks_only_node(3,7) [OF a(3)] by (simp add: handle_ready_def)
  with a r show ?thesis by blast
qed

theorem app_key_released_witness:
  "\<exists>k code body s'. handle_app_key demo_init (demo_ask k) demo_dealing = (Inr (code, body), s') \<and> code = 200 \<and>
     handle_ready demo_dealing = (200, ''ready'')"
proof -
  let ?k = "hex_encode demo_init (demo_pk demo_sk)"
  have "hex_decode demo_init (trim_0x ?k) = Inr (demo_pk demo_sk)"
    using demo_init_crates(1) by (simp add: hex_ok_trim_0x hex_ok_roundtrip del: demo_init_simps)
  then obtain secret s' where "handle_app_key demo_init (demo_ask ?k) demo_dealing = (Inr (200, EncryptedSecret secret), s')"
    using demo_app_key by blast
  with app_key_released [OF demo_dealing_inv this] show ?thesis by blast
qed

text \<open>C39. The wallet signature does not cover the recipient: whoever presents an accepted request again inside
  the window, unchanged but for its own public key, is given the same app key, encrypted to that
  key.\<close>

theorem app_key_replay:
  assumes "handle_app_key E req s = (Inr (code, body), s')"
    and "hex_decode E (trim_0x key_hex) = Inr pk2" "\<forall>m. is_ok (ecies_encrypt E pk2 m)"
  shows "\<exists>key pk ct ct2. ecies_encrypt E pk key = Inr ct \<and> body = EncryptedSecret (hex_encode E ct) \<and>
    ecies_encrypt E pk2 key = Inr ct2 \<and>
    handle_app_key E (req\<lparr>ak_pubkey := key_hex\<rparr>) s = (Inr (200, EncryptedSecret (hex_encode E ct2)), s')"
proof -
  obtain r s2 where i: "app_key_inner E req s = (r, s2)" by force
  with assms(1) obtain secret trace where r: "r = Inr (secret, trace)" "body = EncryptedSecret secret" "s' = bump appkey_ok_update s2"
    by (auto simp: handle_app_key_def rbind_Inr_iff)
  from i [unfolded r] obtain addr s1 material key pk ct where a:
    "check_timestamp (utc_now E (clock s)) (ak_timestamp req) (timestamp_tolerance_secs (server (node_cfg s))) = Inr ()"
    "recover_eip191_address E (''GetSecretResource:'' @ show_int (sint (ak_timestamp req))) (ak_signature req) = Inr addr"
    "admit_signer E (ak_app_id req) addr s = (Inr (), s1)"
    "hex_decode E (trim_0x (ak_material req)) = Inr material"
    "collect_and_dprf E (ak_app_id req) material s1 = (Inr (key, trace), s2)"
    "ecies_encrypt E pk key = Inr ct" "secret = hex_encode E ct"
    by (auto simp: app_key_inner_def sbind_Inr_iff rbind_Inr_iff)
  obtain ct2 where ct2: "ecies_encrypt E pk2 key = Inr ct2" using assms(3) by (cases "ecies_encrypt E pk2 key") (auto dest: spec [of _ key])
  have "app_key_inner E (req\<lparr>ak_pubkey := key_hex\<rparr>) s = (Inr (hex_encode E ct2, trace), s2)"
    using a assms(2) ct2 by (simp add: app_key_inner_def sbind_def)
  then have "handle_app_key E (req\<lparr>ak_pubkey := key_hex\<rparr>) s = (Inr (200, EncryptedSecret (hex_encode E ct2)), s')"
    by (simp add: handle_app_key_def r)
  with a ct2 r show ?thesis by blast
qed

theorem app_key_replay_witness:
  "\<exists>k k2 secret secret2 s'. handle_app_key demo_init (demo_ask k) demo_dealing = (Inr (200, EncryptedSecret secret), s') \<and>
     handle_app_key demo_init (demo_ask k2) demo_dealing = (Inr (200, EncryptedSecret secret2), s') \<and>
     hex_decode demo_init (trim_0x k) = Inr (demo_pk demo_sk) \<and> hex_decode demo_init (trim_0x k2) = Inr (demo_pk demo_sk2)"
proof -
  let ?k = "hex_encode demo_init (demo_pk demo_sk)" and ?k2 = "hex_encode demo_init (demo_pk demo_sk2)"
  have k: "hex_decode demo_init (trim_0x ?k) = Inr (demo_pk demo_sk)" "hex_decode demo_init (trim_0x ?k2) = Inr (demo_pk demo_sk2)"
    using demo_init_crates(1) by (simp_all add: hex_ok_trim_0x hex_ok_roundtrip del: demo_init_simps)
  obtain secret s' where h: "handle_app_key demo_init (demo_ask ?k) demo_dealing = (Inr (200, EncryptedSecret secret), s')"
    using demo_app_key [OF k(1)] by blast
  have "\<forall>m. is_ok (ecies_encrypt demo_init (demo_pk demo_sk2) m)" by (simp add: ecies_encrypt_def demo_ecies2)
  from app_key_replay [OF h k(2) this] h k show ?thesis unfolding demo_ask_simps by blast
qed

text \<open>C19. Only the owner can have the shares refreshed: \<open>POST /refresh\<close> keeps a known master whatever it does,
  and changes the share only if the timestamp was inside the window and the wallet signature over
  it recovers to the owner that the chain named, when asked during this request, for the node's
  own app.\<close>

theorem refresh_only_by_owner:
  assumes "tasks_in E steady_tasks" "proc_inv E (node_cfg s) s" "handle_refresh E req s = (r, s')"
  shows "keeps_master s s' \<and>
    (same_share s s' \<or> (\<exists>owner t.
       \<not> too_far (utc_now E (clock s)) (rf_timestamp req) (timestamp_tolerance_secs (server (node_cfg s))) \<and>
       recover_eip191_address E (''Refresh:'' @ show_int (sint (rf_timestamp req))) (rf_signature req) = Inr owner \<and>
       clock s \<le> t \<and> owner_said E (node_cfg s) owner t \<and> is_ok r))"
  using assms(2,3)
proof (cases rule: refresh_cases)
  case (refused e)
  then show ?thesis using asks_keeps_master asks_only_share by blast
next
  case (run owner t s1 q s2)
  have "keeps_master s1 s2" by (rule refresh_keeps_master [OF assms(1) asks_only_node(12) [OF run(6)] run(7)])
  moreover have "keeps_master s2 s'" by (subst run(8)) (simp add: keeps_master_def)
  ultimately have "keeps_master s s'" using asks_keeps_master [OF run(6)] steady.R_trans by blast
  then show ?thesis using run by auto
qed

definition demo_refresh :: refresh_request where
  "demo_refresh =
     \<lparr> rf_timestamp = 1, rf_signature = hex_encode demo_init (demo_sk @ keccak256 demo_init
         (as_bytes (eip191_text (''Refresh:'' @ show_int (sint (1 :: i64))))) @ [27]) \<rparr>"

theorem refresh_only_by_owner_witness:
  "\<exists>r s'. handle_refresh demo_init demo_refresh demo_dealing = (r, s') \<and> group_pubkey s' = Some [7]"
proof -
  obtain r s' where h: "handle_refresh demo_init demo_refresh demo_dealing = (r, s')" by force
  from refresh_only_by_owner [OF demo_quiet(2) demo_dealing_inv h] have "keeps_master demo_dealing s'" by blast
  with h show ?thesis by (auto simp: keeps_master_def)
qed

text \<open>C40. The monitoring endpoints reveal no secret: what \<open>GET /peers\<close>, \<open>/health\<close>, \<open>/ready\<close> and \<open>/metrics\<close>
  answer is the same for any two nodes that differ in the bytes of their share, in the shares
  kept for others, in the private key, in the sealed blob and in the files only; and no GET
  request changes the node.\<close>

theorem monitoring_reveals_no_secret:
  assumes "public_eq s s2" "req \<in> {GetPeers, GetHealth, GetReady, GetMetrics}"
  shows "fst (router E req s2) = fst (router E req s) \<and> snd (router E req s) = s \<and> snd (router E GetSealedShare s) = s"
proof -
  from assms(1) have f: "clock s2 = clock s" "mets s2 = mets s" "peer_table s2 = peer_table s" "node_cfg s2 = node_cfg s"
    "group_pubkey s2 = group_pubkey s" "eth_address (signing_key s2) = eth_address (signing_key s)"
    by (simp_all add: public_eq_def)
  note view = cluster_view_public [OF assms(1)]
  have "handle_ready s2 = handle_ready s"
    using assms(1) by (cases rule: public_eq_shard) (simp_all add: handle_ready_def f)
  moreover have "handle_peers E s2 = handle_peers E s" by (simp add: handle_peers_def f view)
  moreover have "render E s2 = render E s" by (simp add: render_def f view)
  ultimately show ?thesis using assms(2) by (auto simp: handle_metrics_def case_prod_beta)
qed

theorem monitoring_reveals_no_secret_witness:
  "fst (router demo_init GetReady (demo_dealing\<lparr>signing_key := \<lparr> private_key = [], eth_address = demo_addr1 \<rparr>\<rparr>))
     = fst (router demo_init GetReady demo_dealing)"
proof -
  have "public_eq demo_dealing (demo_dealing\<lparr>signing_key := \<lparr> private_key = [], eth_address = demo_addr1 \<rparr>\<rparr>)"
    by (simp add: public_eq_def)
  from monitoring_reveals_no_secret [OF this, of GetReady demo_init] show ?thesis by blast
qed

end
