(* ===== verification/Availability.thy ===== *)
theory Availability
  imports Derive "HOL-Library.Sublist"
begin

text \<open>
  That the derivation of \<open>src/grpc.rs\<close> succeeds when it should: a coordinator that hears from enough
  peers of its own epoch returns a key, whatever order the answers come in, however many other
  peers are down or on another epoch. The peers that answer are taken to answer with the partial
  of the share they hold; one that lies can make a derivation fail (it is never given a wrong key).
\<close>

section \<open>Specification\<close>

text \<open>The collection after the given peers were asked.\<close>

definition polled ::
    "('sc, 'pa, 'sg, 'pk, 'y) derive_env_scheme \<Rightarrow> string \<Rightarrow> bytes \<Rightarrow> shard_state \<Rightarrow> 'pa \<Rightarrow> bytes \<Rightarrow> string list \<Rightarrow> node
       \<Rightarrow> 'pa collector \<times> node" where
  "polled E app material own p sig urls s =
     (let thr = unat (threshold (cluster (node_cfg s))) in
      collect_partials E thr app material sig (utc_now E (clock s)) urls
        (add_partial thr (shard_epoch own) (shard_index own) p
          (collector_start\<lparr>seen := hm_push (shard_epoch own) (shard_index own) hm_empty\<rparr>)) s)"

text \<open>What the peer asked after the given ones answers.\<close>

definition answers ::
    "('sc, 'pa, 'sg, 'pk, 'y) derive_env_scheme \<Rightarrow> string \<Rightarrow> bytes \<Rightarrow> shard_state \<Rightarrow> 'pa \<Rightarrow> bytes \<Rightarrow> node
       \<Rightarrow> string list \<Rightarrow> u64 \<Rightarrow> u32 \<Rightarrow> bytes \<Rightarrow> bool" where
  "answers E app material own p sig s urls ep idx b \<longleftrightarrow>
     (\<exists>us url. urls = us @ [url] \<and>
        fst (get_dprf_partial E url app material sig (utc_now E (clock s)) (snd (polled E app material own p sig us s)))
          = Inr (idx, b, ep))"

definition holds_answers ::
    "('sc, 'pa, 'sg, 'pk, 'y) derive_env_scheme \<Rightarrow> string \<Rightarrow> bytes \<Rightarrow> shard_state \<Rightarrow> 'pa \<Rightarrow> bytes \<Rightarrow> node
       \<Rightarrow> string list \<Rightarrow> 'pa collector \<Rightarrow> bool" where
  "holds_answers E app material own p sig s urls c \<longleftrightarrow>
     (\<forall>ep. set (hm_list (seen c) ep) = set (hm_list (contributors c) ep)) \<and>
     shard_index own \<in> set (hm_list (contributors c) (shard_epoch own)) \<and>
     (\<forall>vs ep idx b. prefix vs urls \<longrightarrow> answers E app material own p sig s vs ep idx b \<longrightarrow>
        idx \<in> set (hm_list (contributors c) ep))"

text \<open>\<open>blsful\<close>: partials of as many different shares of one polynomial as the threshold combine to a
  signature of the group.\<close>

definition bls_combines :: "('sc, 'pa, 'sg, 'pk) bls \<Rightarrow> nat \<Rightarrow> (u64 \<Rightarrow> u32 \<Rightarrow> 'sc \<times> 'sc) \<Rightarrow> bytes \<Rightarrow> bool" where
  "bls_combines B thr sharing gpk \<longleftrightarrow>
     (\<forall>ep ids ps msg. distinct ids \<longrightarrow> length ids = max 1 thr \<longrightarrow>
        list_all2 (\<lambda>i q. dprf_partial B (sharing ep i) msg = Inr q) ids ps \<longrightarrow>
        (\<exists>sigma. sig_from_shares B ps = Inr sigma \<and> dprf_verify B sigma gpk msg = Inr ()))"

section \<open>Lemmas\<close>

lemma collect_partials_append:
  "collect_partials E thr app material sig ts (us @ vs) c s =
     (let (c1, s1) = collect_partials E thr app material sig ts us c s
      in collect_partials E thr app material sig ts vs c1 s1)"
proof (induction us arbitrary: c s)
  case (Cons u us)
  have stop: "ready c \<noteq> None \<Longrightarrow> collect_partials E thr app material sig ts vs c s = (c, s)" by (cases vs) auto
  show ?case
    by (cases "ready c") (auto simp: Cons.IH stop Let_def split: prod.split sum.split)
qed simp

lemma polled_snoc:
  "polled E app material own p sig (us @ [url]) s =
     (let (c, s1) = polled E app material own p sig us s
      in collect_partials E (unat (threshold (cluster (node_cfg s)))) app material sig (utc_now E (clock s)) [url] c s1)"
  by (simp add: polled_def Let_def collect_partials_append)

text \<open>When every answer is a genuine partial, the collection either has its threshold or holds every
  index that answered at the node's epoch.\<close>

lemma answers_snoc:
  assumes "polled E app material own p sig us s = (c, s1)"
    and "get_dprf_partial E url app material sig (utc_now E (clock s)) s1 = (q, s2)"
  shows "prefix vs (us @ [url]) \<and> answers E app material own p sig s vs ep idx b \<longleftrightarrow>
    (vs = us @ [url] \<and> q = Inr (idx, b, ep)) \<or> (prefix vs us \<and> answers E app material own p sig s vs ep idx b)"
proof -
  have "answers E app material own p sig s (us @ [url]) ep idx b \<longleftrightarrow> q = Inr (idx, b, ep)"
    using assms by (simp add: answers_def)
  then show ?thesis by auto
qed

lemma holds_answers_skip:
  assumes "polled E app material own p sig us s = (c, s1)"
    and "get_dprf_partial E url app material sig (utc_now E (clock s)) s1 = (q, s2)"
    and held: "holds_answers E app material own p sig s us c"
    and old: "\<And>idx b ep. q = Inr (idx, b, ep) \<Longrightarrow> idx \<in> set (hm_list (contributors c) ep)"
  shows "holds_answers E app material own p sig s (us @ [url]) c"
proof -
  have "idx \<in> set (hm_list (contributors c) ep)"
    if "prefix vs (us @ [url])" "answers E app material own p sig s vs ep idx b" for vs ep idx b
    using answers_snoc [OF assms(1,2), of vs ep idx b] that held old [of idx b ep] unfolding holds_answers_def by blast
  with held show ?thesis unfolding holds_answers_def by blast
qed

lemma holds_answers_add:
  assumes "polled E app material own p sig us s = (c, s1)"
    and "get_dprf_partial E url app material sig (utc_now E (clock s)) s1 = (Inr (idx, b, ep), s2)"
    and held: "holds_answers E app material own p sig s us c"
  shows "holds_answers E app material own p sig s (us @ [url])
    (add_partial thr ep idx pa (c\<lparr>seen := hm_push ep idx (seen c)\<rparr>))"
proof -
  let ?c = "add_partial thr ep idx pa (c\<lparr>seen := hm_push ep idx (seen c)\<rparr>)"
  have con: "set (hm_list (contributors ?c) e) = set (hm_list (contributors c) e) \<union> (if e = ep then {idx} else {})"
    "set (hm_list (seen ?c) e) = set (hm_list (seen c) e) \<union> (if e = ep then {idx} else {})" for e
    by (auto simp: add_partial_def Let_def)
  have "idx' \<in> set (hm_list (contributors ?c) ep')"
    if "prefix vs (us @ [url])" "answers E app material own p sig s vs ep' idx' b'" for vs ep' idx' b'
  proof (cases "prefix vs us")
    case True
    with held that(2) show ?thesis unfolding holds_answers_def con by blast
  next
    case False
    with answers_snoc [OF assms(1,2), of vs ep' idx' b'] that show ?thesis unfolding con by simp
  qed
  with held show ?thesis unfolding holds_answers_def con by blast
qed

lemma polled_collects:
  assumes genuine: "\<And>vs ep idx b. prefix vs us \<Longrightarrow> answers E app material own p sig s vs ep idx b \<Longrightarrow>
      \<exists>q. partial_from_bytes (blsful E) b = Inr q \<and> V ep idx q"
    and own: "V (shard_epoch own) (shard_index own) p"
    and "polled E app material own p sig us s = (c, s1)"
  shows "coll_inv (unat (threshold (cluster (node_cfg s)))) V c \<and>
    (ready c = None \<longrightarrow> holds_answers E app material own p sig s us c)"
  using genuine assms(3)
proof (induction us arbitrary: c s1 rule: rev_induct)
  case Nil
  have "coll_inv (unat (threshold (cluster (node_cfg s)))) V
      (add_partial (unat (threshold (cluster (node_cfg s)))) (shard_epoch own) (shard_index own) p
      (collector_start\<lparr>seen := hm_push (shard_epoch own) (shard_index own) hm_empty\<rparr>))" using own by (rule coll_inv_start)
  with Nil.prems(2) show ?case
    by (auto simp: polled_def holds_answers_def answers_def add_partial_def collector_start_def Let_def split: if_splits)
next
  case (snoc url us)
  let ?thr = "unat (threshold (cluster (node_cfg s)))"
  obtain c0 s0 where c0: "polled E app material own p sig us s = (c0, s0)" by force
  have "prefix vs us \<Longrightarrow> prefix vs (us @ [url])" for vs by simp
  from snoc.IH [OF snoc.prems(1) [OF this] c0]
  have IH: "coll_inv ?thr V c0" "ready c0 = None \<longrightarrow> holds_answers E app material own p sig s us c0" by auto
  obtain q s2 where q: "get_dprf_partial E url app material sig (utc_now E (clock s)) s0 = (q, s2)" by force
  consider (stopped) "ready c0 \<noteq> None" | (failed) e where "ready c0 = None" "q = Inl e"
    | (again) idx b ep where "ready c0 = None" "q = Inr (idx, b, ep)" "idx \<in> set (hm_list (seen c0) ep)"
    | (new) idx b ep where "ready c0 = None" "q = Inr (idx, b, ep)" "idx \<notin> set (hm_list (seen c0) ep)"
    by (cases q) (auto simp: prod_eq_iff)
  then show ?case
  proof cases
    case stopped
    with IH(1) snoc.prems(2) show ?thesis by (auto simp: polled_snoc c0)
  next
    case failed
    with snoc.prems(2) q have "c = c0" by (simp add: polled_snoc c0)
    with failed IH holds_answers_skip [OF c0 q] show ?thesis by simp
  next
    case again
    with snoc.prems(2) q have "c = c0" by (simp add: polled_snoc c0)
    moreover from again IH(2) have "idx \<in> set (hm_list (contributors c0) ep)" by (simp add: holds_answers_def)
    ultimately show ?thesis using again IH holds_answers_skip [OF c0 q] by simp
  next
    case new
    with answers_snoc [OF c0 q, of "us @ [url]" ep idx b] snoc.prems(1) [of "us @ [url]" ep idx b] obtain pa where
      pa: "partial_from_bytes (blsful E) b = Inr pa" "V ep idx pa" by auto
    with new snoc.prems(2) q have "c = add_partial ?thr ep idx pa (c0\<lparr>seen := hm_push ep idx (seen c0)\<rparr>)"
      by (simp add: polled_snoc c0)
    with new IH holds_answers_add [OF c0 q [unfolded new(2)]] coll_inv_add [OF IH(1) new(1,3) pa(2)] show ?thesis by simp
  qed
qed

lemma coll_inv_short: "coll_inv thr P c \<Longrightarrow> ready c = None \<Longrightarrow> length (hm_list (contributors c) ep) < max 1 thr"
  by (simp add: coll_inv_def, metis)

lemma polled_node:
  assumes "proc_inv E (node_cfg s) s" "own_origin E msg own (shard_epoch own) (shard_index own) p"
    and "polled E app material own p sig urls s = (c, s1)"
  shows "gate_proc.more s1 = gate_proc.more s"
proof -
  let ?thr = "unat (threshold (cluster (node_cfg s)))"
  have "coll_inv ?thr (\<lambda>ep idx p. own_origin E msg own ep idx p \<or> peer_origin E s (clock s) ep idx p)
      (add_partial ?thr (shard_epoch own) (shard_index own) p
        (collector_start\<lparr>seen := hm_push (shard_epoch own) (shard_index own) hm_empty\<rparr>))"
    using assms(2) by (intro coll_inv_start) simp
  from collect_partials_ok [OF assms(1) refl refl this] assms(3) show ?thesis by (auto simp: polled_def Let_def)
qed

lemma demo_bls_combines: "bls_combines demo_bls thr (\<lambda>ep i. (ucast i, 7)) [7]"
  unfolding bls_combines_def
proof (intro allI impI)
  fix ids :: "u32 list" and ps msg
  assume len: "length ids = max 1 thr" and all: "list_all2 (\<lambda>i q. dprf_partial demo_bls (ucast i, 7) msg = Inr q) ids ps"
  then have "list_all (\<lambda>(_, v', m'). v' = 7 \<and> m' = msg) ps" "ps \<noteq> []"
    by (auto simp: list_all2_conv_all_nth list_all_length dprf_partial_def demo_bls_def)
  then show "\<exists>sigma. sig_from_shares demo_bls ps = Inr sigma \<and> dprf_verify demo_bls sigma [7] msg = Inr ()"
    by (cases ps) (auto simp: demo_bls_def dprf_verify_def)
qed

section \<open>Properties\<close>

text \<open>C11. Any threshold of nodes derives: when the node holds its share of the group's polynomial, every
  peer that answers answers with the partial of the share of its index and epoch, and at least
  threshold minus one peers with indices different from each other and from the node's answer
  at the node's epoch, the derivation returns a key, in whatever order and however many other
  peers fail.\<close>

theorem any_threshold_derives:
  assumes inv: "proc_inv E (node_cfg s) s" and own: "shard s = Some own" and gpk: "group_pubkey s = Some gpk"
    and share: "share_from_bytes (blsful E) (shard_bytes own) = Inr (sharing (shard_epoch own) (shard_index own))"
    and p: "dprf_partial (blsful E) (sharing (shard_epoch own) (shard_index own)) (dprf_message app material) = Inr p"
    and sig: "sign_request E (private_key (signing_key s)) ''GetDprfPartial'' (utc_now E (clock s)) = Inr sig"
    and bls: "bls_combines (blsful E) (unat (threshold (cluster (node_cfg s)))) sharing gpk"
    and genuine: "\<forall>vs ep idx b. prefix vs (completion_order E (peer_urls s)) \<longrightarrow>
      answers E app material own p sig s vs ep idx b \<longrightarrow>
      (\<exists>q. partial_from_bytes (blsful E) b = Inr q \<and> dprf_partial (blsful E) (sharing ep idx) (dprf_message app material) = Inr q)"
    and enough: "unat (threshold (cluster (node_cfg s))) \<le> Suc (card {idx. idx \<noteq> shard_index own \<and>
      (\<exists>vs b. prefix vs (completion_order E (peer_urls s)) \<and> answers E app material own p sig s vs (shard_epoch own) idx b)})"
  shows "\<exists>key tr s'. collect_and_dprf E app material s = (Inr (key, tr), s')"
proof -
  let ?thr = "unat (threshold (cluster (node_cfg s)))" and ?B = "blsful E" and ?msg = "dprf_message app material"
  let ?urls = "completion_order E (peer_urls s)" and ?V = "\<lambda>ep idx q. dprf_partial ?B (sharing ep idx) ?msg = Inr q"
  obtain c s1 where c: "polled E app material own p sig ?urls s = (c, s1)" by force
  have col: "coll_inv ?thr ?V c" "ready c = None \<longrightarrow> holds_answers E app material own p sig s ?urls c"
    using polled_collects [of ?urls E app material own p sig s ?V] genuine p c by blast+
  have "ready c \<noteq> None"
  proof
    assume r: "ready c = None"
    let ?held = "set (hm_list (contributors c) (shard_epoch own))"
    let ?others = "{idx. idx \<noteq> shard_index own \<and>
      (\<exists>vs b. prefix vs ?urls \<and> answers E app material own p sig s vs (shard_epoch own) idx b)}"
    have "insert (shard_index own) ?others \<subseteq> ?held"
      using col(2) r unfolding holds_answers_def by blast
    then have "card (insert (shard_index own) ?others) \<le> length (hm_list (contributors c) (shard_epoch own))"
      by (meson List.finite_set card_length card_mono order_trans)
    with enough have "max 1 ?thr \<le> length (hm_list (contributors c) (shard_epoch own))" by simp
    moreover have "length (hm_list (contributors c) (shard_epoch own)) < max 1 ?thr"
      using col(1) r by (rule coll_inv_short)
    ultimately show False by (meson leD)
  qed
  then obtain ep where ep: "ready c = Some ep" by blast
  with col(1) have ids: "distinct (hm_list (contributors c) ep)" "length (hm_list (contributors c) ep) = max 1 ?thr"
    "length (hm_list (buckets c) ep) = length (hm_list (contributors c) ep)"
    "\<forall>(i, q) \<in> set (zip (hm_list (contributors c) ep) (hm_list (buckets c) ep)). ?V ep i q"
    by (auto simp: coll_inv_def)
  then have "list_all2 (?V ep) (hm_list (contributors c) ep) (hm_list (buckets c) ep)"
    by (auto simp: list_all2_iff)
  with bls ids obtain sigma where sigma: "sig_from_shares ?B (hm_list (buckets c) ep) = Inr sigma" "dprf_verify ?B sigma gpk ?msg = Inr ()"
    unfolding bls_combines_def by blast
  have more: "gate_proc.more s1 = gate_proc.more s"
    using polled_node [OF inv _ c] share p by (simp add: own_origin_def)
  have run: "collect_and_dprf E app material s = finish_derive E ?thr ?msg own c s1"
    using own share p sig c by (simp add: collect_and_dprf_def sbind_def Let_def polled_def)
  show ?thesis unfolding run finish_derive_def using ep sigma gpk gate_more_node(7) [OF more] by (simp add: dprf_sigma_def)
qed

theorem any_threshold_derives_witness:
  "\<exists>key tr s'. collect_and_dprf demo_derive ''app'' [1] demo_node1 = (Inr (key, tr), s')"
proof -
  let ?own = "\<lparr> shard_index = 1, shard_bytes = [1, 7], shard_epoch = 5 \<rparr>" and ?msg = "dprf_message ''app'' [1]"
  let ?sharing = "\<lambda>(ep :: u64) (i :: u32). (ucast i :: u8, 7 :: u8)"
  have urls: "completion_order demo_derive (peer_urls demo_node1) = [''http://b'']"
    by (simp add: demo_node1_def demo_node_simps demo_derive_simps)
  have "\<exists>sig. sign_request demo_derive (private_key (signing_key demo_node1)) ''GetDprfPartial'' (utc_now demo_derive (clock demo_node1)) = Inr sig"
    by (simp add: sign_request_def sign_bytes_def Let_def demo_derive_simps demo_sk_def demo_hash_def
        demo_node1_def demo_node_simps)
  then obtain sig where sig: "sign_request demo_derive (private_key (signing_key demo_node1)) ''GetDprfPartial''
      (utc_now demo_derive (clock demo_node1)) = Inr sig" ..
  have ans: "prefix vs [''http://b''] \<and> answers demo_derive ''app'' [1] ?own (1, 7, ?msg) sig demo_node1 vs ep idx b \<longleftrightarrow>
      vs = [''http://b''] \<and> ep = 5 \<and> idx = 2 \<and> b = 2 # 7 # ?msg" for vs ep idx b
  proof -
    obtain s2 where g: "get_dprf_partial demo_derive ''http://b'' ''app'' [1] sig (utc_now demo_derive (clock demo_node1)) demo_node1
        = (Inr (2, 2 # 7 # ?msg, 5), s2)" using demo_exchange by blast
    show ?thesis by (auto simp: answers_def polled_def Let_def prefix_Cons Cons_eq_append_conv g)
  qed
  show ?thesis
  proof (rule any_threshold_derives [where sharing = ?sharing and own = ?own and gpk = "[7]" and sig = sig and p = "(1, 7, ?msg)"])
    show "proc_inv demo_derive (node_cfg demo_node1) demo_node1" unfolding demo_node1_def by (rule demo_node_inv)
    have good: "\<exists>q. partial_from_bytes (blsful demo_derive) (2 # 7 # ?msg) = Inr q \<and>
        dprf_partial (blsful demo_derive) (?sharing 5 2) ?msg = Inr q"
      by (simp add: partial_from_bytes_def dprf_partial_def demo_derive_simps demo_bls_def)
    have "\<exists>q. partial_from_bytes (blsful demo_derive) b = Inr q \<and> dprf_partial (blsful demo_derive) (?sharing ep idx) ?msg = Inr q"
      if "prefix vs [''http://b'']" "answers demo_derive ''app'' [1] ?own (1, 7, ?msg) sig demo_node1 vs ep idx b" for vs ep idx b
    proof -
      from ans [of vs ep idx b] that have "b = 2 # 7 # ?msg" "ep = 5" "idx = 2" by simp_all
      with good show ?thesis by (simp only:)
    qed
    then show "\<forall>vs ep idx b. prefix vs (completion_order demo_derive (peer_urls demo_node1)) \<longrightarrow>
        answers demo_derive ''app'' [1] ?own (1, 7, ?msg) sig demo_node1 vs ep idx b \<longrightarrow>
        (\<exists>q. partial_from_bytes (blsful demo_derive) b = Inr q \<and> dprf_partial (blsful demo_derive) (?sharing ep idx) ?msg = Inr q)"
      unfolding urls by (intro allI impI)
    have "{idx. idx \<noteq> 1 \<and> (\<exists>vs b. prefix vs [''http://b''] \<and> answers demo_derive ''app'' [1] ?own (1, 7, ?msg) sig demo_node1 vs 5 idx b)} = {2}"
      using ans by auto
    then show "unat (threshold (cluster (node_cfg demo_node1))) \<le> Suc (card {idx. idx \<noteq> shard_index ?own \<and>
        (\<exists>vs b. prefix vs (completion_order demo_derive (peer_urls demo_node1)) \<and>
           answers demo_derive ''app'' [1] ?own (1, 7, ?msg) sig demo_node1 vs (shard_epoch ?own) idx b)})"
      unfolding urls by (simp add: demo_node1_def demo_node_simps demo_config_def)
    show "bls_combines (blsful demo_derive) (unat (threshold (cluster (node_cfg demo_node1)))) ?sharing [7]"
      by (simp add: demo_derive_simps demo_bls_combines)
  qed (use sig in \<open>simp_all add: demo_node1_def demo_node_simps share_from_bytes_def dprf_partial_def demo_derive_simps demo_bls_def\<close>)
qed

end
