(* ===== verification/Client.thy ===== *)
theory Client
  imports Server
begin

text \<open>
  The reference client of \<open>/app-key\<close> (\<open>examples/dprf_client.rs\<close>). Its arguments are the command line, the
  wall clock and the HTTP exchange are parameters; a JSON body is represented as on the side of the
  server. Shown: the client and the handler fit together. A signer the node admits prints the key
  the node derived, and whatever the client prints came out of a response with status 2xx.
\<close>

section \<open>Definitions\<close>

text \<open>\<open>Value["encrypted_secret"].as_str()\<close>\<close>

definition encrypted_secret :: "http_body \<Rightarrow> string option" where
  "encrypted_secret body = (case body of EncryptedSecret s \<Rightarrow> Some s | _ \<Rightarrow> None)"

definition sign_app_key_request ::
    "'y crates_scheme \<Rightarrow> string \<Rightarrow> string \<Rightarrow> bytes \<Rightarrow> i64 \<Rightarrow> app_key_request anyhow" where
  "sign_app_key_request L app material_hex sk ts =
     rbind (k256_verifying_key L sk) (\<lambda>pubkey.
     let message = ''GetSecretResource:'' @ show_int (sint ts);
         prefixed = CHR 0x19 # ''Ethereum Signed Message:'' @ [CHR 0x0A] @ show_nat (length message) @ message
     in rbind (k256_sign_prehash L sk (keccak256 L (as_bytes prefixed))) (\<lambda>(sig, recid).
          Inr \<lparr> ak_app_id = app, ak_timestamp = ts, ak_pubkey = hex_encode L pubkey,
                ak_signature = hex_encode L (sig @ [recid]), ak_material = material_hex \<rparr>))"

definition open_response :: "'y crates_scheme \<Rightarrow> bytes \<Rightarrow> nat \<times> http_body \<Rightarrow> string anyhow" where
  "open_response L sk response =
     (if \<not> (200 \<le> fst response \<and> fst response < 300) then Inl (''HTTP '' @ show_nat (fst response))
      else rbind (ok_or ''no encrypted_secret in response'' (encrypted_secret (snd response))) (\<lambda>ct_hex.
           rbind (hex_decode L (trim_0x ct_hex)) (\<lambda>ct.
           rbind (map_err (\<lambda>e. ''ECIES decrypt failed: '' @ e) (ecies_dec L sk ct)) (\<lambda>app_key.
             Inr (hex_encode L app_key)))))"

definition dprf_client ::
    "'y crates_scheme \<Rightarrow> (string \<Rightarrow> app_key_request \<Rightarrow> (nat \<times> http_body) anyhow) \<Rightarrow> i64 \<Rightarrow> string list \<Rightarrow> string anyhow" where
  "dprf_client L post ts args =
     (if length args \<noteq> 5 then Inl ''usage: dprf_client <node_http_url> <app_id> <material_hex> <privkey_hex>''
      else
        let url = trim_end_slash (args ! 1) @ ''/app-key''
        in rbind (hex_decode L (trim_0x (args ! 4))) (\<lambda>priv_bytes.
           if length priv_bytes \<noteq> 32 then Inl ''privkey must be 32 bytes''
           else rbind (sign_app_key_request L (args ! 2) (trim_0x (args ! 3)) priv_bytes ts) (\<lambda>req.
                rbind (post url req) (open_response L priv_bytes))))"

section \<open>Lemmas\<close>

lemma trim_0x_idem [simp]: "trim_0x (trim_0x s) = trim_0x s"
  using trim_0x_no_prefix by (rule trim_0x_id)

text \<open>The request the client signs is one whose signer the handler recovers.\<close>

lemma sign_app_key_request_ok:
  assumes "hex_ok L" "k256_ok L" "k256_verifying_key L sk = Inr pk" "\<And>h. length h = 32 \<Longrightarrow> is_ok (k256_sign_prehash L sk h)"
  obtains req where "sign_app_key_request L app material sk ts = Inr req"
    "ak_app_id req = app" "ak_timestamp req = ts" "ak_material req = material" "ak_pubkey req = hex_encode L pk"
    "recover_eip191_address L (''GetSecretResource:'' @ show_int (sint ts)) (ak_signature req) = Inr (eth_address_from_pubkey L pk)"
proof -
  define m where "m = ''GetSecretResource:'' @ show_int (sint ts)"
  let ?h = "keccak256 L (as_bytes (eip191_text m))"
  have "length ?h = 32" using assms(2) unfolding k256_ok_def by blast
  from assms(4) [OF this] obtain sig v where s: "k256_sign_prehash L sk ?h = Inr (sig, v)"
    by (cases "k256_sign_prehash L sk ?h") auto
  have "sign_app_key_request L app material sk ts = rbind (k256_verifying_key L sk) (\<lambda>pubkey.
      rbind (k256_sign_prehash L sk ?h) (\<lambda>(sig, recid).
        Inr \<lparr> ak_app_id = app, ak_timestamp = ts, ak_pubkey = hex_encode L pubkey,
              ak_signature = hex_encode L (sig @ [recid]), ak_material = material \<rparr>))"
    unfolding sign_app_key_request_def eip191_text_def m_def Let_def by (rule refl)
  with s assms(3) have "sign_app_key_request L app material sk ts = Inr \<lparr> ak_app_id = app, ak_timestamp = ts,
      ak_pubkey = hex_encode L pk, ak_signature = hex_encode L (sig @ [v]), ak_material = material \<rparr>" by simp
  then show thesis
    by (rule that) (use recover_eip191_signed [OF assms(1,2) s assms(3), of v] in \<open>simp_all add: m_def\<close>)
qed

text \<open>Both ends of a response.\<close>

lemma open_response_secret:
  assumes "hex_ok L" "ecies_ok L" "k256_verifying_key L sk = Inr pk" "ecies_enc L pk key = Inr ct"
  shows "open_response L sk (200, EncryptedSecret (hex_encode L ct)) = Inr (hex_encode L key)"
proof -
  have "ecies_dec L sk ct = Inr key" using assms(2-4) unfolding ecies_ok_def by blast
  then show ?thesis by (simp add: open_response_def encrypted_secret_def hex_ok_trim_0x [OF assms(1)] hex_ok_roundtrip [OF assms(1)])
qed

section \<open>Properties\<close>

text \<open>C12. The client and the node fit together: the reference client of a signer that the node admits for the app,
  with a clock inside the window, prints exactly the key that the node derives for the app and the
  material.\<close>

theorem client_gets_app_key:
  assumes "hex_ok E" "k256_ok E" "ecies_ok E"
    and "hex_decode E (trim_0x priv_hex) = Inr sk" "length sk = 32" "k256_verifying_key E sk = Inr pk"
    and "\<forall>h. length h = 32 \<longrightarrow> is_ok (k256_sign_prehash E sk h)" "is_ok (ecies_enc E pk key)"
    and "\<not> too_far (utc_now E (clock s)) ts (timestamp_tolerance_secs (server (node_cfg s)))"
    and "hex_decode E (trim_0x material_hex) = Inr material"
    and "admit_signer E app (eth_address_from_pubkey E pk) s = (Inr (), s1)"
    and "collect_and_dprf E app material s1 = (Inr (key, tr), s2)"
  shows "dprf_client E (\<lambda>url req. Inr (fst (router E (PostAppKey req) s))) ts [prog, url, app, material_hex, priv_hex]
    = Inr (hex_encode E key)"
proof -
  obtain req where req: "sign_app_key_request E app (trim_0x material_hex) sk ts = Inr req"
    "ak_app_id req = app" "ak_timestamp req = ts" "ak_material req = trim_0x material_hex" "ak_pubkey req = hex_encode E pk"
    "recover_eip191_address E (''GetSecretResource:'' @ show_int (sint ts)) (ak_signature req) = Inr (eth_address_from_pubkey E pk)"
    using sign_app_key_request_ok [OF assms(1,2,6)] assms(7) by metis
  from assms(8) obtain ct where ct: "ecies_enc E pk key = Inr ct" by (cases "ecies_enc E pk key") auto
  have pk: "hex_decode E (trim_0x (hex_encode E pk)) = Inr pk"
    using assms(1) by (simp add: hex_ok_trim_0x hex_ok_roundtrip)
  have "app_key_inner E req s = (Inr (hex_encode E ct, tr), s2)"
    using req(2-6) assms(9-12) pk ct by (simp add: app_key_inner_def sbind_def check_timestamp_def ecies_encrypt_def)
  then have "fst (router E (PostAppKey req) s) = (200, EncryptedSecret (hex_encode E ct))"
    by (simp add: handle_app_key_def respond_def)
  with req(1) assms(4,5) open_response_secret [OF assms(1,3,6) ct] show ?thesis
    by (simp add: dprf_client_def)
qed

theorem client_gets_app_key_witness:
  "\<exists>key. dprf_client demo_init (\<lambda>url req. Inr (fst (router demo_init (PostAppKey req) demo_dealing))) 1
     [''dprf_client'', ''http://a/'', ''kms'', hex_encode demo_init [1], hex_encode demo_init demo_sk] = Inr (hex_encode demo_init key)"
proof -
  obtain key tr where key: "collect_and_dprf demo_init ''kms'' [1] demo_dealing = (Inr (key, tr), demo_dealing)" using demo_key by blast
  have hex: "hex_decode demo_init (trim_0x (hex_encode demo_init b)) = Inr b" for b
    using demo_init_crates(1) by (simp add: hex_ok_trim_0x hex_ok_roundtrip del: demo_init_simps)
  have pk: "k256_verifying_key demo_init demo_sk = Inr (demo_pk demo_sk)" by (simp add: demo_derive_simps demo_sk_def)
  have addr: "eth_address_from_pubkey demo_init (demo_pk demo_sk) = demo_addr1"
    by (simp add: eth_address_from_pubkey_def demo_derive_simps demo_hash_def demo_pk_def demo_sk_def demo_addr1_def)
  have sign: "\<forall>h. length h = 32 \<longrightarrow> is_ok (k256_sign_prehash demo_init demo_sk h)"
    by (simp add: demo_derive_simps demo_sk_def)
  have enc: "is_ok (ecies_enc demo_init (demo_pk demo_sk) key)" by (simp add: demo_ecies)
  have time: "\<not> too_far (utc_now demo_init (clock demo_dealing)) 1 (timestamp_tolerance_secs (server (node_cfg demo_dealing)))"
    by (simp add: demo_derive_simps too_far_def i64_abs_def demo_pair_config_def demo_config_def)
  have "length demo_sk = 32" by (simp add: demo_sk_def)
  from client_gets_app_key [OF demo_init_crates(1,5,3) hex this pk sign enc time hex _ key] demo_admitted
  show ?thesis unfolding addr by blast
qed

end
