(* ===== verification/Startup.thy ===== *)
theory Startup
  imports Server
begin

text \<open>
  \<open>main\<close> of \<open>src/main.rs\<close> up to the state its tasks share: logging, the configuration file, the
  attestation gate, the signing key, \<open>AppState\<close>. The TOML parser, the log library and the answers of the
  TEE service are parameters. Shown: a node that starts has the configuration of its file, a gate
  exactly when the file configures one, and a complete key; anything else stops it.
\<close>

record launch =
  cli_args :: "string list"
  os_vars :: "string \<Rightarrow> string option"
  env_filter :: "string anyhow"
  open_appender :: "nat \<Rightarrow> string \<Rightarrow> unit anyhow"
  stdout_is_terminal :: bool
  toml_from_str :: "string \<Rightarrow> config anyhow"
  tapp_unix :: "string + unit"
  tapp_tcp :: "string + unit"
  tapp_rpc :: "nat \<Rightarrow> string + secret_key_reply"

record log_setup =
  log_filter :: string
  log_dir :: "string option"
  log_ansi :: bool
  log_json :: bool

section \<open>Definitions\<close>

definition LOG_FILES_KEPT :: nat where
  "LOG_FILES_KEPT = 7"

text \<open>\<open>init_logging\<close>: standard output always, daily files in \<open>KMS_LOG_DIR\<close> when it is set.\<close>

definition init_logging :: "launch \<Rightarrow> log_setup anyhow" where
  "init_logging l =
     (let filt = (case env_filter l of Inr f \<Rightarrow> f | Inl _ \<Rightarrow> ''kms=info'') in
      rbind (case os_vars l ''KMS_LOG_DIR'' of
               Some dir \<Rightarrow>
                 (if trim dir \<noteq> []
                  then rbind (map_err (\<lambda>_. ''cannot open log directory '' @ trim dir)
                               (open_appender l LOG_FILES_KEPT (trim dir))) (\<lambda>_. Inr (Some (trim dir)))
                  else Inr None)
             | None \<Rightarrow> Inr None) (\<lambda>guard.
        Inr \<lparr> log_filter = filt, log_dir = guard, log_ansi = (guard = None \<and> stdout_is_terminal l),
              log_json = (os_vars l ''KMS_LOG_FORMAT'' = Some ''json'') \<rparr>))"

definition config_load :: "(string \<Rightarrow> config anyhow) \<Rightarrow> string \<Rightarrow> file_system \<Rightarrow> config anyhow" where
  "config_load from_str path fs =
     (case fs_read_to_string path fs of Inl _ \<Rightarrow> Inl ''cannot read'' | Inr content \<Rightarrow> from_str content)"

definition config_path :: "string list \<Rightarrow> string" where
  "config_path args = (case args of _ # path # _ \<Rightarrow> path | _ \<Rightarrow> ''kms.toml'')"

text \<open>The process before its first task: empty tables, counters at zero.\<close>

definition fresh_process :: "instant \<Rightarrow> gate_proc" where
  "fresh_process now =
     \<lparr> clock = now, mets = metrics_new now, providers = hm_empty, node_list_cache = hm_empty,
       VERIFIER = None, verdicts = hm_empty, fetch_locks = hm_empty \<rparr>"

definition boot ::
    "'y gate_env_scheme \<Rightarrow> (string \<Rightarrow> string option) \<Rightarrow> (string + unit) \<Rightarrow> (string + unit) \<Rightarrow> (nat \<Rightarrow> string + secret_key_reply)
       \<Rightarrow> config \<Rightarrow> file_system \<Rightarrow> instant \<Rightarrow> node anyhow" where
  "boot E vars unix_connect tcp_connect rpc cfg fs now =
     (case verifier_init E cfg (fresh_process now) of
        (Inl _, p) \<Rightarrow> Inl ''verifier init''
      | (Inr _, p) \<Rightarrow>
          (case fetch_signing_key E vars unix_connect tcp_connect rpc (tapp cfg) of
             (Inl _, calls, slept) \<Rightarrow> Inl ''Failed to fetch signing key''
           | (Inr key, calls, slept) \<Rightarrow> Inr (app_state_new cfg key (tick (from_secs slept) p) fs vars)))"

definition start :: "'y gate_env_scheme \<Rightarrow> launch \<Rightarrow> file_system \<Rightarrow> instant \<Rightarrow> node anyhow" where
  "start E l fs now =
     rbind (init_logging l) (\<lambda>_.
     let path = config_path (cli_args l) in
     rbind (map_err (\<lambda>_. ''Failed to load config from '' @ path) (config_load (toml_from_str l) path fs)) (\<lambda>cfg.
       boot E (os_vars l) (tapp_unix l) (tapp_tcp l) (tapp_rpc l) cfg fs now))"

section \<open>Lemmas\<close>

lemma boot_cases:
  assumes "boot E vars unix_connect tcp_connect rpc cfg fs now = Inr s"
  obtains p key calls slept where "verifier_init E cfg (fresh_process now) = (Inr (), p)"
    "fetch_signing_key E vars unix_connect tcp_connect rpc (tapp cfg) = (Inr key, calls, slept)"
    "s = app_state_new cfg key (tick (from_secs slept) p) fs vars"
  using assms by (auto simp: boot_def split: prod.splits sum.splits)

lemma app_state_new_fields [simp]:
  "node_cfg (app_state_new cfg key p fs vars) = cfg" "signing_key (app_state_new cfg key p fs vars) = key"
  "shard (app_state_new cfg key p fs vars) = None" "group_pubkey (app_state_new cfg key p fs vars) = None"
  "VERIFIER (app_state_new cfg key p fs vars) = VERIFIER p" "clock (app_state_new cfg key p fs vars) = clock p"
  "providers (app_state_new cfg key p fs vars) = providers p" "node_list_cache (app_state_new cfg key p fs vars) = node_list_cache p"
  "verdicts (app_state_new cfg key p fs vars) = verdicts p"
  by (simp_all add: app_state_new_def gate_proc.defs node.defs)

text \<open>The gate after its initialisation: there is one exactly when the configuration has a section for it.\<close>

lemma verifier_init_gate:
  assumes "verifier_init E cfg p = (Inr (), p')"
  shows "case verifier_cfg cfg of None \<Rightarrow> VERIFIER p' = Some None
    | Some c \<Rightarrow> \<exists>v. verifier_new E c = Inr v \<and> VERIFIER p' = Some (Some v)"
  using assms by (auto simp: verifier_init_def Let_def rbind_Inr_iff split: option.splits sum.splits if_splits)

lemma start_boot:
  assumes "start E l fs now = Inr s"
  obtains content cfg where "fs_read_to_string (config_path (cli_args l)) fs = Inr content" "toml_from_str l content = Inr cfg"
    "boot E (os_vars l) (tapp_unix l) (tapp_tcp l) (tapp_rpc l) cfg fs now = Inr s"
  using assms by (auto simp: start_def config_load_def Let_def rbind_Inr_iff split: sum.splits)

lemma start_no_master: "start E l fs now = Inr s \<Longrightarrow> shard s = None \<and> group_pubkey s = None"
  by (elim start_boot boot_cases) simp

lemma init_logging_dir:
  "init_logging l = Inr x \<Longrightarrow> os_vars l ''KMS_LOG_DIR'' = Some dir \<Longrightarrow> trim dir \<noteq> [] \<Longrightarrow>
     is_ok (open_appender l LOG_FILES_KEPT (trim dir)) \<and> \<not> log_ansi x"
  by (auto simp: init_logging_def Let_def rbind_Inr_iff)

section \<open>A node that starts\<close>

definition demo_launch :: "config \<Rightarrow> launch" where
  "demo_launch cfg =
     \<lparr> cli_args = [''kms'', ''node.toml''], os_vars = (\<lambda>v. if v = ''KMS_LOG_DIR'' then Some ''/logs'' else None),
       env_filter = Inl ''unset'', open_appender = (\<lambda>kept dir. Inr ()), stdout_is_terminal = True,
       toml_from_str = (\<lambda>_. Inr cfg), tapp_unix = Inr (), tapp_tcp = Inr (),
       tapp_rpc = (\<lambda>a. Inr \<lparr> success = True, reply_message = [], reply_private_key = demo_sk, reply_eth_address = demo_addr1 \<rparr>) \<rparr>"

definition demo_disk :: file_system where
  "demo_disk = demo_fs\<lparr>files := [(''node.toml'', ''[server]'')]\<rparr>"

lemma demo_start:
  assumes "verifier_init E cfg (fresh_process 0) = (Inr (), p)" "\<not> mock_tee (tapp cfg)" "tapp_socket (tapp cfg) = None"
  shows "\<exists>s. start E (demo_launch cfg) demo_disk 0 = Inr s"
proof -
  have "\<exists>x. init_logging (demo_launch cfg) = Inr x"
    by (simp add: init_logging_def demo_launch_def Let_def)
  moreover have "config_load (toml_from_str (demo_launch cfg)) (config_path (cli_args (demo_launch cfg))) demo_disk = Inr cfg"
    by (simp add: config_load_def config_path_def demo_launch_def demo_disk_def demo_fs_def fs_read_to_string_def hm_get_def)
  moreover have "\<exists>s. boot E vars (Inr ()) (Inr ()) (tapp_rpc (demo_launch cfg)) cfg fs 0 = Inr s" for vars fs
    using assms by (simp add: boot_def fetch_signing_key_def fetch_grpc_def fetch_attempts.simps check_reply_def demo_launch_def
        demo_sk_def demo_addr1_def)
  ultimately show ?thesis by (auto simp: start_def Let_def) (simp add: demo_launch_def)
qed

section \<open>Properties\<close>

text \<open>C29. A node starts as configured or not at all: when it starts, its configuration is what the parser gave for
  the file named on the command line (by default \<open>kms.toml\<close>), its attestation gate is on exactly
  when the file has a section for it, with the settings of that section (a malformed section never
  leaves the node ungated), a log directory that was asked for could be opened, the signing key has 32 bytes and
  its address 20, and the node holds no share and is not ready.\<close>

theorem starts_as_configured:
  assumes "start E l fs now = Inr s"
  shows "(\<exists>content. fs_read_to_string (config_path (cli_args l)) fs = Inr content \<and> toml_from_str l content = Inr (node_cfg s)) \<and>
    (case verifier_cfg (node_cfg s) of None \<Rightarrow> VERIFIER s = Some None
     | Some c \<Rightarrow> \<exists>v. verifier_new E c = Inr v \<and> VERIFIER s = Some (Some v)) \<and>
    (\<forall>dir. os_vars l ''KMS_LOG_DIR'' = Some dir \<longrightarrow> trim dir \<noteq> [] \<longrightarrow> is_ok (open_appender l LOG_FILES_KEPT (trim dir))) \<and>
    node_key_wf (signing_key s) \<and> shard s = None \<and> handle_ready s = (503, ''no share'')"
proof -
  from assms obtain content cfg where cfg: "fs_read_to_string (config_path (cli_args l)) fs = Inr content"
    "toml_from_str l content = Inr cfg" and b: "boot E (os_vars l) (tapp_unix l) (tapp_tcp l) (tapp_rpc l) cfg fs now = Inr s"
    by (rule start_boot)
  from b obtain p key calls slept where p: "verifier_init E cfg (fresh_process now) = (Inr (), p)"
    and key: "fetch_signing_key E (os_vars l) (tapp_unix l) (tapp_tcp l) (tapp_rpc l) (tapp cfg) = (Inr key, calls, slept)"
    and s: "s = app_state_new cfg key (tick (from_secs slept) p) fs (os_vars l)" by (rule boot_cases)
  from assms obtain x where "init_logging l = Inr x" by (auto simp: start_def rbind_Inr_iff)
  note log = init_logging_dir [OF this]
  have fields: "node_cfg s = cfg" "signing_key s = key" "shard s = None" "VERIFIER s = VERIFIER p" by (simp_all add: s tick_def)
  show ?thesis
    unfolding fields handle_ready_def using cfg verifier_init_gate [OF p] fetch_signing_key_wf [OF key] log by auto
qed

theorem starts_as_configured_witness:
  "\<exists>s v. start demo_gate (demo_launch demo_config) demo_disk 0 = Inr s \<and> VERIFIER s = Some (Some v)"
proof -
  have "\<exists>p. verifier_init demo_gate demo_config (fresh_process 0) = (Inr (), p)"
    by (simp add: verifier_init_def demo_config_def verifier_new_def demo_verifier_cfg_def starts_with_def
        decode_pin_def demo_gate_def demo_chain_def demo_seal_def demo_crates_def crates.defs
        seal_crates.defs chain_env.defs gate_env.defs fresh_process_def Let_def demo_pin)
  then obtain s where s: "start demo_gate (demo_launch demo_config) demo_disk 0 = Inr s"
    using demo_start [of demo_gate demo_config] by (auto simp: demo_config_def)
  note conf = starts_as_configured [OF s]
  from conf have "node_cfg s = demo_config" by (auto simp: demo_launch_def)
  then have "verifier_cfg (node_cfg s) = Some demo_verifier_cfg" by (simp add: demo_config_def)
  with conf have "\<exists>v. VERIFIER s = Some (Some v)" by auto
  with s show ?thesis by blast
qed

end
