(* ===== verification/Lifetime.thy ===== *)
theory Lifetime
  imports Startup
begin

text \<open>
  A node from its start on: every event the tasks that \<open>main\<close> of \<open>src/main.rs\<close> spawns react to (the calls of the gRPC service, the HTTP requests, the turns of the
  gossip task, of the startup task and of the watchdog, the dealer tasks), in any order. Shown:
  the invariant that the statements about single operations assume holds in every state a node
  can reach; its identity never changes, a share is never lost, and a master once known is never
  replaced, for the whole life of the process.
\<close>

section \<open>Definitions\<close>

datatype node_event =
    OnGetDprfPartial metadata string bytes
  | OnGetShardContribution metadata
  | OnRequestShard metadata
  | OnGossip metadata "node_info option"
  | OnDkgRound metadata dkg_round_msg
  | OnStartReshare metadata reshare_request
  | DealerTask reshare_request
  | OnHttp http_request
  | GossipTurn
  | Reload
  | FormTurn "instant option"
  | WatchdogTurn u32
  | TimePasses nat

text \<open>The startup task acts on a node without a share, the watchdog on one with a share.\<close>

fun react :: "('sc, 'pa, 'sg, 'pk, 'st, 'd, 'y) init_env_scheme \<Rightarrow> node_event \<Rightarrow> node \<Rightarrow> node" where
  "react E (OnGetDprfPartial m app material) s = snd (get_dprf_partial_handler E m app material s)"
| "react E (OnGetShardContribution m) s = snd (get_shard_contribution E m s)"
| "react E (OnRequestShard m) s = snd (request_shard E m s)"
| "react E (OnGossip m info) s = snd (gossip_handler E m info s)"
| "react E (OnDkgRound m msg) s = snd (dkg_round_handler E m msg s)"
| "react E (OnStartReshare m req) s = snd (start_reshare E m req s)"
| "react E (DealerTask req) s = dealer_task E req s"
| "react E (OnHttp req) s = snd (router E req s)"
| "react E GossipTurn s = gossip_tick E s"
| "react E Reload s = (if shard s = None then snd (try_reload_sealed E s) else s)"
| "react E (FormTurn since) s = (if shard s = None then snd (form_turn E since s) else s)"
| "react E (WatchdogTurn checks) s = (if shard s \<noteq> None then snd (watchdog_turn E checks s) else s)"
| "react E (TimePasses d) s = tick d s"

text \<open>A later state of a node: any events, in any order.\<close>

inductive evolves :: "('sc, 'pa, 'sg, 'pk, 'st, 'd, 'y) init_env_scheme \<Rightarrow> node \<Rightarrow> node \<Rightarrow> bool" for E where
  now: "evolves E s s"
| event: "evolves E s s1 \<Longrightarrow> evolves E s (react E ev s1)"

section \<open>Specification\<close>

definition node_inv :: "'y gate_env_scheme \<Rightarrow> node \<Rightarrow> bool" where
  "node_inv E s \<longleftrightarrow> proc_inv E (node_cfg s) s \<and> (shard s = None \<longrightarrow> group_pubkey s = None)"

text \<open>What the events of a running node respect; \<open>holding\<close> is about a node with a share, \<open>gains\<close> about one that
  may be getting its first.\<close>

definition kept :: "node \<Rightarrow> node \<Rightarrow> bool" where
  "kept s s' \<longleftrightarrow> node_cfg s' = node_cfg s \<and> signing_key s' = signing_key s \<and> clock s \<le> clock s' \<and>
     (\<forall>g. group_pubkey s = Some g \<longrightarrow> group_pubkey s' = Some g) \<and> (shard s \<noteq> None \<longrightarrow> shard s' \<noteq> None)"

definition beside :: "'y gate_env_scheme \<Rightarrow> node \<Rightarrow> node \<Rightarrow> bool" where
  "beside E s s' \<longleftrightarrow> (node_inv E s \<longrightarrow> node_inv E s' \<and> kept s s' \<and> (shard s = None \<longrightarrow> shard s' = None))"

definition beside_tasks :: "'y gate_env_scheme \<Rightarrow> (node \<Rightarrow> node) set" where
  "beside_tasks E = {f. \<forall>s. beside E s (f s)}"

definition holding :: "'y gate_env_scheme \<Rightarrow> node \<Rightarrow> node \<Rightarrow> bool" where
  "holding E s s' \<longleftrightarrow> (node_inv E s \<and> shard s \<noteq> None \<longrightarrow> node_inv E s' \<and> kept s s')"

definition gains :: "'y gate_env_scheme \<Rightarrow> node \<Rightarrow> node \<Rightarrow> bool" where
  "gains E s s' \<longleftrightarrow> (node_inv E s \<longrightarrow>
     node_inv E s' \<and> node_cfg s' = node_cfg s \<and> signing_key s' = signing_key s \<and> clock s \<le> clock s')"

section \<open>Lemmas\<close>

lemma proc_inv_later:
  assumes "proc_inv E cfg s" "providers s' = providers s" "node_list_cache s' = node_list_cache s" "clock s \<le> clock s'"
    "VERIFIER s' = VERIFIER s" "verdicts s' = verdicts s"
  shows "proc_inv E cfg s'"
proof -
  from assms(1) have c: "chain_inv E (rpc_url (chain cfg)) (contract_address (chain cfg)) s" and g: "gate_inv E s"
    by (simp_all add: proc_inv_def)
  have "chain_inv E (rpc_url (chain cfg)) (contract_address (chain cfg)) s'"
    by (rule chain_inv_store [OF c assms(4)]) (simp_all add: assms(2,3) chain_inv_providers [OF c])
  moreover have "gate_inv E s'" using g gate_since_mono [OF _ assms(5,4,6)] by (auto simp: gate_inv_def assms(5))
  ultimately show ?thesis by (simp add: proc_inv_def)
qed

lemma kept_refl: "kept s s"
  by (simp add: kept_def)

lemma kept_trans: "kept s s1 \<Longrightarrow> kept s1 s2 \<Longrightarrow> kept s s2"
  by (auto simp: kept_def)

lemma same_tables_beside:
  assumes "providers s' = providers s" "node_list_cache s' = node_list_cache s" "clock s \<le> clock s'"
    "VERIFIER s' = VERIFIER s" "verdicts s' = verdicts s"
    and "node_cfg s' = node_cfg s" "signing_key s' = signing_key s" "shard s' = shard s" "group_pubkey s' = group_pubkey s"
  shows "beside E s s'"
  using assms proc_inv_later [of E "node_cfg s" s s'] by (auto simp: beside_def node_inv_def kept_def)

interpretation side: interference "beside_tasks E" "beside E" for E
proof unfold_locales
  show "beside E s s" for s by (simp add: beside_def kept_refl)
  show "beside E s s1 \<Longrightarrow> beside E s1 s2 \<Longrightarrow> beside E s s2" for s s1 s2
    using kept_trans [of s s1 s2] by (auto simp: beside_def)
  show "f \<in> beside_tasks E \<Longrightarrow> beside E s (f s)" for f s by (simp add: beside_tasks_def)
qed (rule same_tables_beside; simp add: tick_def)+

lemma beside_holding: "beside E s s' \<Longrightarrow> holding E s s'"
  by (simp add: beside_def holding_def)

lemma holding_beside: "holding E s s' \<Longrightarrow> shard s \<noteq> None \<Longrightarrow> beside E s s'"
  by (auto simp: beside_def holding_def)

interpretation held: interference "beside_tasks E" "holding E" for E
proof unfold_locales
  show "holding E s s" for s by (simp add: holding_def kept_refl)
  show "holding E s s1 \<Longrightarrow> holding E s1 s2 \<Longrightarrow> holding E s s2" for s s1 s2
    using kept_trans [of s s1 s2] by (auto simp: holding_def kept_def)
qed (auto intro: beside_holding side.others_R side.sessions_R side.tick_R)

lemma beside_gains: "beside E s s' \<Longrightarrow> gains E s s'"
  by (auto simp: beside_def gains_def kept_def)

interpretation gain: interference "beside_tasks E" "gains E" for E
proof unfold_locales
  show "gains E s s" for s by (simp add: gains_def)
  show "gains E s s1 \<Longrightarrow> gains E s1 s2 \<Longrightarrow> gains E s s2" for s s1 s2 by (auto simp: gains_def)
qed (auto intro: beside_gains side.others_R side.sessions_R side.tick_R)

lemma store_share_tables:
  "providers (store_share L sh gpk s) = providers s" "node_list_cache (store_share L sh gpk s) = node_list_cache s"
  "VERIFIER (store_share L sh gpk s) = VERIFIER s" "verdicts (store_share L sh gpk s) = verdicts s"
proof -
  obtain b d mm where p: "persist_sealed L sh gpk s = s\<lparr>sealed_blob := b, disk := d, mets := mm\<rparr>"
    by (rule persist_sealed_shape)
  let ?s1 = "persist_sealed L sh gpk s"
  obtain v d2 m2 where c: "check_master_baseline L (sealed_share_path ?s1) gpk ?s1 = (v, ?s1\<lparr>disk := d2, mets := m2\<rparr>)"
    by (rule check_master_baseline_shape)
  show "providers (store_share L sh gpk s) = providers s" "node_list_cache (store_share L sh gpk s) = node_list_cache s"
    "VERIFIER (store_share L sh gpk s) = VERIFIER s" "verdicts (store_share L sh gpk s) = verdicts s"
    by (simp_all add: store_share_def Let_def c acquired_def) (simp_all add: p)
qed

lemma store_share_gains: "gains E s (store_share E sh gpk s)"
  using proc_inv_later [of E "node_cfg s" s "store_share E sh gpk s"]
  by (simp add: gains_def node_inv_def store_share_simps store_share_tables)

lemma commit_reshare_gains: "gains E s (snd (commit_reshare E msg sh pk s))"
  by (simp add: commit_reshare_def store_share_gains gain.R_refl split: option.split)

lemma commit_reshare_holding: "holding E s (snd (commit_reshare E msg sh pk s))"
proof -
  have "gains E s (snd (commit_reshare E msg sh pk s))" by (rule commit_reshare_gains)
  moreover have "shard s \<noteq> None \<longrightarrow> shard (snd (commit_reshare E msg sh pk s)) \<noteq> None"
    by (simp add: commit_reshare_def store_share_simps split: option.split)
  moreover have "keeps_master s (snd (commit_reshare E msg sh pk s))" by (rule commit_reshare_master)
  ultimately show ?thesis by (auto simp: holding_def gains_def kept_def keeps_master_def)
qed

context interference
begin

lemma dealer_session_R:
  assumes "\<And>sid r t. set (wakeups E sid r t) \<subseteq> others" "\<And>msg sh pk s. R s (snd (commit_reshare E msg sh pk s))"
  shows "R s (snd (dealer_session E req own own_index scalar peers s))"
  unfolding dealer_session_def
  by (auto intro!: sbind_R simp: R_refl step_err_def assms(2) run_session_R [OF assms(1)] split: prod.split)

lemma genesis_R:
  assumes "\<And>sid r t. set (wakeups E sid r t) \<subseteq> others" "\<And>sh pk s. R s (store_share E sh pk s)"
  shows "R s (snd (run_genesis E m s))"
  unfolding run_genesis_def
  by (auto intro!: sbind_R simp: R_refl step_err_def assms(2) run_session_R [OF assms(1)] split: prod.split)

end

subsection \<open>Calls of the gRPC service\<close>

lemma gate_beside:
  assumes "proc_inv E (node_cfg s) s'" "gate_proc.more s' = gate_proc.more s" "clock s \<le> clock s'"
  shows "beside E s s'"
  using assms gate_more_node [OF assms(2)] by (auto simp: beside_def node_inv_def kept_def)

lemma asks_beside: "asks_only E s s' \<Longrightarrow> beside E s s'"
  by (rule gate_beside) (simp_all add: asks_only_def)

lemma node_inv_proc: "node_inv E s \<Longrightarrow> proc_inv E (node_cfg s) s"
  by (simp add: node_inv_def)

lemma beside_if: "(node_inv E s \<Longrightarrow> beside E s s') \<Longrightarrow> beside E s s'"
  by (auto simp: beside_def)

lemma authenticate_beside: "beside E s (snd (authenticate E (node_cfg s) rpc m s))"
proof (rule beside_if)
  assume "node_inv E s"
  from authenticate_ok [OF node_inv_proc [OF this]] show "beside E s (snd (authenticate E (node_cfg s) rpc m s))"
    by (cases "authenticate E (node_cfg s) rpc m s") (auto intro: gate_beside)
qed

text \<open>A handler: what comes after the authentication acts on the state it left.\<close>

lemma authenticated_beside:
  assumes "\<And>ctx s1. beside E s1 (snd (f ctx s1))"
  shows "beside E s (snd (sbind (authenticate E (node_cfg s) rpc m) f s))"
  by (rule side.sbind_R [OF authenticate_beside assms])

lemma upd_beside:
  "beside E s (s\<lparr>peer_table := x\<rparr>)" "beside E s (s\<lparr>mets := y\<rparr>)" "beside E s (bump c s)" "beside E s (s\<lparr>disk := d, mets := y\<rparr>)"
  by (rule same_tables_beside; simp add: bump_def)+

lemma own_signer_list_beside: "beside E s (snd (own_signer_list E s))"
proof (rule beside_if)
  assume "node_inv E s"
  then show "beside E s (snd (own_signer_list E s))"
    using own_signer_list_ok(1) [OF node_inv_proc] by (metis asks_beside prod.collapse)
qed

lemma grpc_beside:
  "beside E s (snd (get_dprf_partial_handler E m app material s))" "beside E s (snd (get_shard_contribution E m s))"
  "beside E s (snd (request_shard E m s))" "beside E s (snd (gossip_handler E m info s))"
  "beside E s (snd (dkg_round_handler E m msg s))" "beside E s (snd (start_reshare E m req s))"
proof -
  show "beside E s (snd (get_dprf_partial_handler E m app material s))"
    unfolding get_dprf_partial_handler_def by (rule authenticated_beside) (simp add: side.R_refl)
  show "beside E s (snd (get_shard_contribution E m s))"
    unfolding get_shard_contribution_def by (rule authenticated_beside) (simp add: side.R_refl)
  show "beside E s (snd (start_reshare E m req s))"
    unfolding start_reshare_def by (rule authenticated_beside) (simp add: side.R_refl)
  show "beside E s (snd (gossip_handler E m info s))"
    unfolding gossip_handler_def
    by (rule authenticated_beside) (simp add: Let_def register_caller_def side.R_refl upd_beside split: option.split)
  show "beside E s (snd (dkg_round_handler E m msg s))"
    unfolding dkg_round_handler_def
    by (intro authenticated_beside side.sbind_R) (simp_all add: side.R_refl side.sessions_R buffer_round_def Let_def)
  have "beside E s (snd (try_assign_init_shard E pk s))" for pk s
    by (auto simp: try_assign_init_shard_def Let_def side.R_refl smap_err_state own_signer_list_beside
        intro!: side.sbind_R split: option.split)
  then show "beside E s (snd (request_shard E m s))"
    unfolding request_shard_def by (intro authenticated_beside side.sbind_R) (simp_all add: side.R_refl)
qed

subsection \<open>Tasks and HTTP requests\<close>

text \<open>The other tasks that run while one of them sleeps or waits for messages are such events too.\<close>

abbreviation beside_env :: "('sc, 'pa, 'sg, 'pk, 'st, 'd, 'y) init_env_scheme \<Rightarrow> bool" where
  "beside_env E \<equiv> tasks_in E (beside_tasks E) \<and> (\<forall>t d. meanwhile E t d \<in> beside_tasks E)"

lemma pause_beside: "beside_env E \<Longrightarrow> beside E s (pause E d s)"
  unfolding pause_def using side.R_trans [OF side.others_R side.tick_R] by blast

lemma dealer_beside:
  assumes "beside_env E"
  shows "beside E s (snd (run_reshare_dealer E req s))"
proof (rule beside_if)
  assume "node_inv E s"
  obtain r s' where r: "run_reshare_dealer E req s = (r, s')" by force
  from node_inv_proc [OF \<open>node_inv E s\<close>] r have "beside E s s'"
  proof (cases rule: run_reshare_dealer_cases)
    case (refused e)
    then show ?thesis by (simp add: asks_beside)
  next
    case (session own own_index scalar peers s1)
    have "holding E s1 (snd (dealer_session E req own own_index scalar peers s1))"
      by (rule held.dealer_session_R) (use assms commit_reshare_holding in blast)+
    moreover have "shard s1 \<noteq> None" using session(4) asks_only_node(3) [OF session(1)] by simp
    ultimately have "beside E s1 s'" using session(5) by (simp add: holding_beside)
    with asks_beside [OF session(1)] show ?thesis by (rule side.R_trans)
  qed
  with r show "beside E s (snd (run_reshare_dealer E req s))" by simp
qed

lemma counted_beside: "beside E s (snd rs) \<Longrightarrow> beside E s (snd (counted ok fail rs))"
  unfolding counted_def snd_conv using side.R_trans [OF _ upd_beside(2)] by blast

lemma assemble_beside: "beside E s (snd (assemble_participants E s))"
proof (rule beside_if)
  assume "node_inv E s"
  then show "beside E s (snd (assemble_participants E s))"
    using assemble_asks [OF node_inv_proc] by (metis asks_beside prod.collapse)
qed

lemma trigger_refresh_beside:
  assumes "beside_env E"
  shows "beside E s (snd (trigger_refresh E s))"
proof (rule beside_if)
  assume "node_inv E s"
  obtain r s' where r: "trigger_refresh E s = (r, s')" by force
  from node_inv_proc [OF \<open>node_inv E s\<close>] r have "beside E s s'"
  proof (cases rule: trigger_refresh_cases)
    case (refused e)
    then show ?thesis by (simp add: asks_beside)
  next
    case (dealing m req s1)
    from asks_beside [OF dealing(1)] dealer_beside [OF assms, of s1 req] dealing(7) show ?thesis
      by (simp add: side.R_trans)
  qed
  with r show "beside E s (snd (trigger_refresh E s))" by simp
qed

lemma response_beside: "beside E s (snd (verify_cluster_response E (node_cfg s) msg sig s))"
proof (rule beside_if)
  assume "node_inv E s"
  from verify_cluster_response_ok [OF node_inv_proc [OF this]]
  show "beside E s (snd (verify_cluster_response E (node_cfg s) msg sig s))"
    by (cases "verify_cluster_response E (node_cfg s) msg sig s") (auto intro: gate_beside)
qed

lemma get_dprf_partial_beside: "beside E s (snd (get_dprf_partial E url app material sig ts s))"
  unfolding get_dprf_partial_def
  by (intro side.sbind_R) (simp_all add: case_prod_beta Let_def side.tick_R smap_err_state response_beside side.R_refl)

lemma collect_partials_step:
  obtains (ready) "collect_partials E thr app material sig ts (url # urls) c s = (c, s)"
  | (next_url) c1 s1 where "beside E s s1"
      "collect_partials E thr app material sig ts (url # urls) c s = collect_partials E thr app material sig ts urls c1 s1"
proof (cases "ready c = None")
  case True
  obtain r s1 where r: "get_dprf_partial E url app material sig ts s = (r, s1)" by force
  then have b: "beside E s s1" using get_dprf_partial_beside [of E s url app material sig ts] by simp
  from True r show thesis
  proof (cases rule: collect_partials_next [where thr = thr and urls = urls])
    case (skipped c2 s2)
    then have "beside E s s2" using b side.R_trans [OF b upd_beside(3)] by blast
    with skipped(3) show thesis by (rule next_url [rotated])
  next
    case added
    with b show thesis by (intro next_url)
  qed
next
  case False
  then show thesis by (intro ready) simp
qed

lemma collect_partials_beside: "beside E s (snd (collect_partials E thr app material sig ts urls c s))"
proof (induction urls arbitrary: c s)
  case Nil
  show ?case by (simp add: side.R_refl)
next
  case (Cons url urls)
  show ?case
  proof (cases rule: collect_partials_step [of E thr app material sig ts url urls c s])
    case ready
    then show ?thesis by (simp only: snd_conv side.R_refl)
  next
    case (next_url c1 s1)
    from side.R_trans [OF this(1) Cons [of s1 c1]] show ?thesis unfolding next_url(2) .
  qed
qed

lemma collect_and_dprf_beside: "beside E s (snd (collect_and_dprf E app material s))"
  unfolding collect_and_dprf_def Let_def
  by (auto intro!: side.sbind_R simp: side.R_refl case_prod_beta finish_derive_def
      intro: collect_partials_beside side.R_trans [OF collect_partials_beside upd_beside(3)] split: option.split)

lemma app_key_beside: "beside E s (snd (handle_app_key E req s))"
proof -
  have adm: "beside E s (snd (admit_signer E a x s))" for a x s
  proof (rule beside_if)
    assume "node_inv E s"
    then show "beside E s (snd (admit_signer E a x s))"
      using admit_signer_ok(1) [OF node_inv_proc] by (metis asks_beside prod.collapse)
  qed
  have "beside E s (snd (app_key_inner E req s))"
    unfolding app_key_inner_def
    by (intro side.sbind_R) (auto simp: side.R_refl adm collect_and_dprf_beside)
  then show ?thesis
    unfolding handle_app_key_def Let_def case_prod_beta snd_conv using side.R_trans [OF _ upd_beside(3)] by blast
qed

lemma refresh_beside:
  assumes "beside_env E"
  shows "beside E s (snd (handle_refresh E req s))"
proof -
  have own: "beside E s (snd (get_app_owner E (rpc_url (chain (node_cfg s))) (contract_address (chain (node_cfg s)))
      (app_id (tapp (node_cfg s))) s))" for s
  proof (rule beside_if)
    assume "node_inv E s"
    then show "beside E s (snd (get_app_owner E (rpc_url (chain (node_cfg s))) (contract_address (chain (node_cfg s)))
      (app_id (tapp (node_cfg s))) s))"
      using get_app_owner_ok(1) [OF node_inv_proc] by (metis asks_beside prod.collapse)
  qed
  show ?thesis
    unfolding handle_refresh_def
    by (intro side.sbind_R)
      (auto simp: side.R_refl own case_prod_beta Let_def counted_beside [OF trigger_refresh_beside [OF assms]])
qed

lemma router_beside: "beside_env E \<Longrightarrow> beside E s (snd (router E req s))"
  by (cases req) (simp_all add: case_prod_beta Let_def app_key_beside refresh_beside side.R_refl)

lemma node_rest_tables:
  assumes "node_rest s' = node_rest s"
  shows "providers s' = providers s" "node_list_cache s' = node_list_cache s" "verdicts s' = verdicts s"
  using assms by (cases s; cases s'; simp add: node_rest_def)+

lemma gossip_tick_beside: "beside E s (gossip_tick E s)"
proof -
  let ?p = "snd (probe_share_path (sealed_share_path s) s)"
  have "beside E s ?p" by (simp add: probe_share_path_def Let_def case_prod_beta upd_beside)
  moreover have "contact_le ?p (gossip_round E ?p)" by (rule gossip_round_contact)
  then have n: "node_rest (gossip_round E ?p) = node_rest ?p" and t: "clock ?p \<le> clock (gossip_round E ?p)"
    unfolding contact_le_def by blast+
  then have "beside E ?p (gossip_round E ?p)"
    using same_tables_beside [OF node_rest_tables(1,2) [OF n] t node_rest_simps(10) [OF n] node_rest_tables(3) [OF n]
      node_rest_simps(1,2,3,6) [OF n]] by blast
  ultimately show ?thesis unfolding gossip_tick_def by (rule side.R_trans)
qed

subsection \<open>Startup and the watchdog\<close>

lemma lookup_cases:
  obtains e where "r = Inl e" | "r = Inr None" | m where "r = Inr (Some m)"
proof (cases r)
  case (Inr x)
  with that(2,3) show thesis by (cases x) auto
qed (rule that(1))

lemma bump_gains: "gains E s (bump f s)"
  by (rule beside_gains [OF upd_beside(3)])

lemma pause_gains: "beside_env E \<Longrightarrow> gains E s (pause E d s)"
  by (rule beside_gains [OF pause_beside])

lemma gains_if: "(node_inv E s \<Longrightarrow> gains E s s') \<Longrightarrow> gains E s s'"
  by (auto simp: gains_def)

lemma retry_gains:
  assumes "beside_env E" "gains E s (snd rs)"
  shows "gains E s (retry_later E (counted ok fail rs))"
proof -
  have "gains E s (snd (counted ok fail rs))"
    unfolding counted_def snd_conv by (rule gain.R_trans [OF assms(2) beside_gains [OF upd_beside(2)]])
  then show ?thesis
    using gain.R_trans [OF _ pause_gains [OF assms(1)]] by (auto simp: retry_later_def split: sum.split)
qed

lemma form_genesis_gains:
  assumes "beside_env E"
  shows "gains E s (form_genesis E m s)"
proof -
  have "gains E s (snd (run_genesis E m s))"
    by (rule gain.genesis_R) (use assms store_share_gains in blast)+
  then show ?thesis unfolding form_genesis_def using retry_gains [OF assms] pause_gains [OF assms] by simp
qed

lemma form_recover_gains:
  assumes "beside_env E"
  shows "gains E s (snd (form_recover E m since s))"
proof -
  have "gains E s (snd (run_reshare_recovery E m s))"
    by (rule gain.recovery_R) (use assms commit_reshare_gains in blast)+
  then show ?thesis unfolding form_recover_def Let_def using retry_gains [OF assms] pause_gains [OF assms] by simp
qed

lemma join_gains:
  assumes "node_inv E s" "join_cluster E s = (r, s')"
  shows "gains E s s'"
  using node_inv_proc [OF assms(1)] assms(2)
proof (cases rule: join_cluster_cases)
  case (joined sh s1)
  have "proc_inv E (node_cfg s1) (s1\<lparr>shard := Some sh\<rparr>) = proc_inv E (node_cfg s1) s1" by (rule proc_inv_cong) simp_all
  then have "gains E s1 s'" by (simp add: joined(2) gains_def node_inv_def)
  with beside_gains [OF asks_beside [OF joined(3)]] show ?thesis by (rule gain.R_trans)
qed (auto simp: gain.R_refl intro: beside_gains asks_beside)

lemma form_turn_gains:
  assumes env: "beside_env E"
  shows "gains E s (snd (form_turn E since s))"
proof (rule gains_if)
  assume inv: "node_inv E s"
  obtain r s1 where a: "assemble_participants E s = (r, s1)" by force
  then have g1: "gains E s s1" using assemble_beside [of E s] by (simp add: beside_gains)
  consider e where "r = Inl e" | "r = Inr None" | m where "r = Inr (Some m)" by (rule lookup_cases)
  then show "gains E s (snd (form_turn E since s))"
  proof cases
    case 1
    then have "snd (form_turn E since s) = pause E (from_secs 5) (bump membership_fail_update s1)" by (simp add: form_turn_def a)
    then show ?thesis using gain.R_trans [OF g1 gain.R_trans [OF bump_gains pause_gains [OF env]]] by simp
  next
    case 2
    then have "snd (form_turn E since s) = pause E (from_secs 5) s1" by (simp add: form_turn_def a)
    then show ?thesis using gain.R_trans [OF g1 pause_gains [OF env]] by simp
  next
    case (3 m)
    obtain q s2 where j: "join_cluster E s1 = (q, s2)" by force
    have "node_inv E s1" using g1 inv by (simp add: gains_def)
    note g2 = gain.R_trans [OF g1 join_gains [OF this j]]
    have "gains E s2 (snd (form_turn E since s))"
    proof (cases q)
      case (Inl e)
      then show ?thesis using 3 pause_gains [OF env] by (simp add: form_turn_def a j)
    next
      case (Inr x)
      then show ?thesis using 3 form_genesis_gains [OF env] form_recover_gains [OF env]
        by (cases x) (simp_all add: form_turn_def a j gain.R_refl)
    qed
    with g2 show ?thesis by (rule gain.R_trans)
  qed
qed

lemma adopt_gains: "gains E s (adopt_sealed E b64 rec s)"
proof -
  let ?s1 = "s\<lparr>sealed_blob := Some (trim b64)\<rparr>"
  obtain v d m where c: "check_master_baseline E (sealed_share_path ?s1) (master_id rec) ?s1 = (v, ?s1\<lparr>disk := d, mets := m\<rparr>)"
    by (rule check_master_baseline_shape)
  have "proc_inv E (node_cfg s) (adopt_sealed E b64 rec s) = proc_inv E (node_cfg s) s"
    by (rule proc_inv_cong) (simp_all add: adopt_sealed_def Let_def c acquired_def)
  then show ?thesis by (simp add: gains_def node_inv_def adopt_sealed_def Let_def c acquired_def)
qed

lemma reload_gains:
  assumes "beside_env E"
  shows "gains E s (snd (try_reload_sealed E s))"
proof -
  have w: "gains E s (wait_for_peers E n s)" for n s
    by (induction n arbitrary: s) (auto simp: gain.R_refl intro: gain.R_trans [OF pause_gains [OF assms]])
  obtain b s1 where b: "reload_blob s = (b, s1)" by force
  have "gains E s (snd (reload_blob s))"
    by (simp add: reload_blob_def gain.R_refl bump_gains split: option.split sum.split)
  then have g1: "gains E s s1" by (simp add: b)
  have "gains E s1 (snd (try_reload_sealed E s))"
    using gain.R_trans [OF w adopt_gains] gain.R_trans [OF w bump_gains]
    by (auto simp: try_reload_sealed_def b Let_def gain.R_refl bump_gains split: option.split sum.split)
  with g1 show ?thesis by (rule gain.R_trans)
qed

lemma catch_up_holding:
  assumes "beside_env E"
  shows "holding E s (catch_up E s)"
proof -
  obtain r s1 where a: "assemble_participants E s = (r, s1)" by force
  then have h1: "holding E s s1" using assemble_beside [of E s] by (simp add: beside_holding)
  have rec: "holding E s1 (snd (run_reshare_recovery E m s1))" for m
    by (rule held.recovery_R) (use assms commit_reshare_holding in blast)+
  have cnt: "holding E s1 (snd (counted ok fail (run_reshare_recovery E m s1)))" for ok fail m
    unfolding counted_def snd_conv by (rule held.R_trans [OF rec beside_holding [OF upd_beside(2)]])
  consider e where "r = Inl e" | "r = Inr None" | m where "r = Inr (Some m)" by (rule lookup_cases)
  then have "holding E s1 (catch_up E s)"
    by cases (simp_all add: catch_up_def a cnt held.R_refl beside_holding [OF upd_beside(3)])
  with h1 show ?thesis by (rule held.R_trans)
qed

lemma watchdog_holding:
  assumes "beside_env E"
  shows "holding E s (snd (watchdog_turn E c s))"
proof -
  let ?p = "pause E (from_secs (45 + stagger s)) s"
  have p: "holding E s ?p" by (rule beside_holding [OF pause_beside [OF assms]])
  have "holding E ?p (snd (watchdog_turn E c s))"
    using held.R_trans [OF beside_holding [OF upd_beside(3)] catch_up_holding [OF assms]]
    by (auto simp: watchdog_turn_def Let_def held.R_refl split: option.split)
  with p show ?thesis by (rule held.R_trans)
qed

subsection \<open>All events\<close>

text \<open>Every event but those of the startup task is one that may run beside any task.\<close>

lemma react_beside:
  assumes "beside_env E" "ev \<noteq> Reload" "\<And>since. ev \<noteq> FormTurn since"
  shows "react E ev \<in> beside_tasks E"
proof -
  have task: "beside E s (dealer_task E req s)" for req s
    unfolding dealer_task_def by (rule counted_beside [OF dealer_beside [OF assms(1)]])
  have "beside E s (react E ev s)" for s
    using assms(2,3) grpc_beside task router_beside [OF assms(1)] gossip_tick_beside watchdog_holding [OF assms(1)]
    by (cases ev) (auto simp: side.R_refl side.tick_R intro: holding_beside)
  then show ?thesis by (simp add: beside_tasks_def)
qed

lemma gains_kept: "gains E s s' \<Longrightarrow> node_inv E s \<Longrightarrow> shard s = None \<Longrightarrow> node_inv E s' \<and> kept s s'"
  by (auto simp: gains_def kept_def node_inv_def)

lemma react_inv:
  assumes "beside_env E" "node_inv E s"
  shows "node_inv E (react E ev s) \<and> kept s (react E ev s)"
proof (cases "ev = Reload \<or> (\<exists>since. ev = FormTurn since)")
  case True
  show ?thesis
  proof (cases "shard s = None")
    case True
    with \<open>ev = Reload \<or> _\<close> have "gains E s (react E ev s)"
      using reload_gains [OF assms(1)] form_turn_gains [OF assms(1)] by auto
    from gains_kept [OF this assms(2) True] show ?thesis .
  next
    case False
    with \<open>ev = Reload \<or> _\<close> have "react E ev s = s" by auto
    with assms(2) show ?thesis by (simp add: kept_refl)
  qed
next
  case False
  with react_beside [OF assms(1), of ev] assms(2) show ?thesis by (auto simp: beside_tasks_def beside_def)
qed

lemma evolves_inv:
  assumes "evolves E s s'" "beside_env E" "node_inv E s"
  shows "node_inv E s' \<and> kept s s'"
  using assms
proof (induction rule: evolves.induct)
  case (now s)
  then show ?case by (simp add: kept_refl)
next
  case (event s s1 ev)
  then show ?case using react_inv [of E s1 ev] kept_trans by blast
qed

lemma start_inv:
  assumes "start E l fs now = Inr s"
  shows "node_inv E s"
proof -
  from assms obtain content cfg where "boot E (os_vars l) (tapp_unix l) (tapp_tcp l) (tapp_rpc l) cfg fs now = Inr s"
    by (rule start_boot)
  then obtain p key calls slept where p: "verifier_init E cfg (fresh_process now) = (Inr (), p)"
    and s: "s = app_state_new cfg key (tick (from_secs slept) p) fs (os_vars l)" by (rule boot_cases)
  from p have tables: "providers p = hm_empty" "node_list_cache p = hm_empty" "verdicts p = hm_empty"
    by (auto simp: verifier_init_def fresh_process_def Let_def split: option.splits sum.splits if_splits)
  have "proc_inv E cfg s"
    by (simp add: proc_inv_def chain_inv_def gate_inv_def gate_since_def s tables tick_def)
  then show ?thesis by (simp add: node_inv_def s)
qed

section \<open>A concrete node\<close>

lemma demo_beside: "beside_env demo_init"
proof -
  have "buffer_round x y \<in> beside_tasks E" for x y and E :: "'y gate_env_scheme"
    using side.sessions_R by (auto simp: beside_tasks_def buffer_round_def Let_def)
  moreover have "(\<lambda>s. s) \<in> beside_tasks E" for E :: "'y gate_env_scheme" by (simp add: beside_tasks_def side.R_refl)
  ultimately show ?thesis by (auto simp: demo_init_def init_env.defs dkg_env.defs)
qed

lemma demo_starts: "\<exists>s. start demo_init (demo_launch (demo_config\<lparr>verifier_cfg := None\<rparr>)) demo_disk 0 = Inr s"
  by (rule demo_start) (simp_all add: verifier_init_def fresh_process_def demo_config_def Let_def)

lemma demo_key_later: "\<exists>key tr. collect_and_dprf demo_init ''kms'' [1] (tick 1 demo_dealing) = (Inr (key, tr), tick 1 demo_dealing)"
proof -
  have "is_ok (sign_request demo_init demo_sk ''GetDprfPartial'' ts)" for ts
    using demo_init_can_sign [of demo_dealing "''GetDprfPartial''"] by (simp add: can_sign_def)
  from this [of "utc_now demo_init 1000000001"] obtain sig where
    "sign_request demo_init demo_sk ''GetDprfPartial'' (utc_now demo_init 1000000001) = Inr sig"
    by (cases "sign_request demo_init demo_sk ''GetDprfPartial'' (utc_now demo_init 1000000001)") auto
  then show ?thesis
    by (cases "completion_order demo_init (peer_urls (tick 1 demo_dealing))")
      (simp_all add: collect_and_dprf_def sbind_def Let_def share_from_bytes_def dprf_partial_def demo_bls_def
        add_partial_def collector_start_def hm_list_def hm_push_def finish_derive_def dprf_sigma_def dprf_verify_def
        sigma_to_app_key_def demo_pair_config_def tick_def)
qed

end
