(* ===== verification/Service.thy ===== *)
theory Service
  imports Lifetime
begin

text \<open>
  What the cluster offers to its callers, as an abstract specification: one function from apps and
  materials to keys, the same on every node and for as long as the nodes run, encrypted to the
  caller. A run of a node is a list of events; its responses are the secrets \<open>POST /app-key\<close> returns
  along the run.
\<close>

section \<open>Definitions\<close>

primrec run :: "('sc, 'pa, 'sg, 'pk, 'st, 'd, 'y) init_env_scheme \<Rightarrow> node_event list \<Rightarrow> node \<Rightarrow> node" where
  "run E [] s = s"
| "run E (ev # evs) s = run E evs (react E ev s)"

definition secret_of :: "('sc, 'pa, 'sg, 'pk, 'st, 'd, 'y) init_env_scheme \<Rightarrow> node_event \<Rightarrow> node \<Rightarrow> (app_key_request \<times> string) list" where
  "secret_of E ev s =
     (case ev of
        OnHttp (PostAppKey req) \<Rightarrow>
          (case fst (router E (PostAppKey req) s) of (code, EncryptedSecret secret) \<Rightarrow> [(req, secret)] | _ \<Rightarrow> [])
      | _ \<Rightarrow> [])"

primrec responses ::
    "('sc, 'pa, 'sg, 'pk, 'st, 'd, 'y) init_env_scheme \<Rightarrow> node_event list \<Rightarrow> node \<Rightarrow> (app_key_request \<times> string) list" where
  "responses E [] s = []"
| "responses E (ev # evs) s = secret_of E ev s @ responses E evs (react E ev s)"

section \<open>Specification\<close>

text \<open>A response of the ideal service with the given function.\<close>

definition ideal_response :: "'y crates_scheme \<Rightarrow> (string \<Rightarrow> bytes \<Rightarrow> bytes) \<Rightarrow> app_key_request \<Rightarrow> string \<Rightarrow> bool" where
  "ideal_response L f req secret \<longleftrightarrow>
     (\<exists>material pk ct. hex_decode L (trim_0x (ak_material req)) = Inr material \<and>
        hex_decode L (trim_0x (ak_pubkey req)) = Inr pk \<and>
        ecies_encrypt L pk (f (ak_app_id req) material) = Inr ct \<and> secret = hex_encode L ct)"

text \<open>The function of a group: the key from the signature that verifies under its public key.\<close>

definition group_function :: "('sc, 'pa, 'sg, 'pk) bls \<Rightarrow> bytes \<Rightarrow> string \<Rightarrow> bytes \<Rightarrow> bytes" where
  "group_function B gpk app material =
     sigma_to_app_key B (THE sigma. dprf_verify B sigma gpk (dprf_message app material) = Inr ())"

section \<open>Lemmas\<close>

lemma group_function_eq:
  assumes "bls_unique B" "dprf_verify B sigma gpk (dprf_message app material) = Inr ()"
  shows "group_function B gpk app material = sigma_to_app_key B sigma"
proof -
  have "(THE x. dprf_verify B x gpk (dprf_message app material) = Inr ()) = sigma"
    using assms(2) dprf_verify_unique [OF assms(1) _ assms(2)] by (rule the_equality)
  then show ?thesis by (simp add: group_function_def)
qed

text \<open>One response, on a node whose master is known.\<close>

lemma secret_ideal:
  assumes "bls_unique (blsful E)" "node_inv E s" "(req, secret) \<in> set (secret_of E ev s)"
  obtains gpk where "group_pubkey s = Some gpk" "ideal_response E (group_function (blsful E) gpk) req secret"
proof -
  have inv: "proc_inv E (node_cfg s) s" using assms(2) by (simp add: node_inv_def)
  obtain r s2 where i: "app_key_inner E req s = (r, s2)" by force
  from assms(3) obtain code where "fst (router E (PostAppKey req) s) = (code, EncryptedSecret secret)"
    by (auto simp: secret_of_def split: node_event.splits http_request.splits prod.splits http_body.splits) metis
  with i obtain trace where r: "r = Inr (secret, trace)"
    by (cases r) (auto simp: handle_app_key_def respond_def into_response_def Let_def split: prod.splits)
  from inv i [unfolded r] obtain s1 material key pk ct where a: "asks_only E s s1"
    "hex_decode E (trim_0x (ak_material req)) = Inr material"
    "collect_and_dprf E (ak_app_id req) material s1 = (Inr (key, trace), s2)"
    "hex_decode E (trim_0x (ak_pubkey req)) = Inr pk" "ecies_encrypt E pk key = Inr ct" "secret = hex_encode E ct"
    by (rule app_key_inner_Inr)
  obtain gpk sigma where k: "group_pubkey s1 = Some gpk"
    "dprf_verify (blsful E) sigma gpk (dprf_message (ak_app_id req) material) = Inr ()" "key = sigma_to_app_key (blsful E) sigma"
    by (rule collect_and_dprf_ok [OF asks_only_node(12) [OF a(1)] a(3)])
  have "ideal_response E (group_function (blsful E) gpk) req secret"
    using a k(3) group_function_eq [OF assms(1) k(2)] by (auto simp: ideal_response_def)
  moreover have "group_pubkey s = Some gpk" using k(1) asks_only_node(7) [OF a(1)] by simp
  ultimately show thesis by (rule that [rotated])
qed

lemma run_inv:
  assumes "beside_env E" "node_inv E s"
  shows "node_inv E (run E evs s) \<and> kept s (run E evs s)"
  using assms(2)
proof (induction evs arbitrary: s)
  case (Cons ev evs)
  then show ?case using react_inv [OF assms(1), of s ev] kept_trans by simp blast
qed (simp add: kept_refl)

text \<open>All responses of a run come from the function of the master known at its end.\<close>

lemma responses_ideal:
  assumes "bls_unique (blsful E)" "beside_env E" "node_inv E s" "(req, secret) \<in> set (responses E evs s)"
  shows "\<exists>gpk. group_pubkey (run E evs s) = Some gpk \<and> ideal_response E (group_function (blsful E) gpk) req secret"
  using assms(3,4)
proof (induction evs arbitrary: s)
  case (Cons ev evs)
  note step = react_inv [OF assms(2) Cons.prems(1), of ev]
  from Cons.prems(2) consider "(req, secret) \<in> set (secret_of E ev s)" | "(req, secret) \<in> set (responses E evs (react E ev s))"
    by auto
  then show ?case
  proof cases
    case 1
    then obtain gpk where g: "group_pubkey s = Some gpk" "ideal_response E (group_function (blsful E) gpk) req secret"
      by (rule secret_ideal [OF assms(1) Cons.prems(1)])
    have "kept s (run E (ev # evs) s)" using run_inv [OF assms(2) Cons.prems(1)] by blast
    with g show ?thesis by (simp add: kept_def)
  next
    case 2
    with Cons.IH [of "react E ev s"] step show ?thesis by simp
  qed
qed simp

end
