(* ===== verification/Spec2Isabelle.thy ===== *)
theory Spec2Isabelle
  imports KmsPrelude UintZigzag UintOps Crates KmsError MetricsCore NodeSetup Crypto Seal Process Chain
    Lookups Verifier Checks Auth Node Derive Monitoring
    Gossip Dkg Assign Membership Reshare Formation Exposition Server Availability Client Startup Lifetime Service
begin

text \<open>
  0g-kms, a distributed key-management service: a cluster of nodes derives the secret of an app
  with a threshold-BLS pseudo-random function. The master key is generated by a distributed key
  generation and never reconstructed; each node holds a share on a polynomial that has an epoch.

  \<^bold>\<open>The program and its parts.\<close> A node (\<open>src/main.rs\<close>) reads its configuration (\<open>config.rs\<close>), gets its
  signing key from the TEE service (\<open>tee.rs\<close>), and then runs four tasks on one shared state
  (\<open>AppState\<close> of \<open>server.rs\<close>): the HTTP server (\<open>server.rs\<close>: \<open>/app-key\<close>, \<open>/refresh\<close>, monitoring), the
  gRPC service for other nodes (\<open>grpc.rs\<close>), the gossip task (\<open>grpc.rs\<close>) and the startup task with its
  watchdog (\<open>init.rs\<close>). Every call from outside is admitted by its signature, by the node list the
  chain keeps for the app (\<open>chain.rs\<close>) and by the attestation service scan (\<open>verifier.rs\<close>). Shares
  come from a five-round session (\<open>dkg.rs\<close>) at genesis and at every reshare, are sealed to the node's
  identity (\<open>seal.rs\<close>), and give partials from which a coordinator combines a key (\<open>crypto.rs\<close>,
  \<open>collect_and_dprf\<close>).

  \<^bold>\<open>Conventions.\<close> The state of a process is a record that grows along the components: \<open>proc\<close> (clock and
  counters), \<open>chain_proc\<close> (node-list cache), \<open>gate_proc\<close> (verdict cache), \<open>node\<close> (\<open>AppState\<close>, disk, environment
  variables). An operation takes the state and returns a result with the new state; \<open>sbind\<close> is the
  question mark operator. Errors are the left side of a sum: texts for \<open>anyhow\<close>, a code and a text for
  gRPC statuses, \<open>kms_error\<close> for HTTP; error texts are kept up to the part a library appends.
  Integers that can wrap are words, \<open>HashMap\<close> is \<open>hash_map\<close> (an association list; what is read does not
  depend on its order), instants and durations are nanoseconds. Crates, the network, the chain,
  scan and the wall clock are fields of an environment record, again growing along the components
  (\<open>crates\<close>, \<open>seal_crates\<close>, \<open>chain_env\<close>, \<open>gate_env\<close>, \<open>derive_env\<close>, \<open>gossip_env\<close>, \<open>dkg_env\<close>, \<open>init_env\<close>); what the code
  relies on is a named hypothesis (\<open>hex_ok\<close>, \<open>ecies_ok\<close>, \<open>k256_ok\<close>, \<open>bls_unique\<close> and others), and each theorem
  with hypotheses has a witness on concrete instances of those records.

  \<^bold>\<open>Theories.\<close>
  \<^item> \<open>KmsPrelude\<close>, \<open>Crates\<close>, \<open>Process\<close>: machine types, library functions, \<open>hash_table\<close> (the laws of a map), the
    crates with their hypotheses, and two interfaces: \<open>admission\<close>, of every check, and \<open>task_system\<close>, of
    tasks that run side by side.
  \<^item> \<open>UintZigzag\<close>, \<open>UintOps\<close> (\<open>vendor/uint-zigzag\<close>): the variable-length integers of the round messages,
    their round trip and length bounds; conversions, operators and serde, generic in the width.
  \<^item> \<open>KmsError\<close>, \<open>MetricsCore\<close>, \<open>Exposition\<close> (\<open>error.rs\<close>, \<open>metrics.rs\<close>): errors and their responses, the
    counters, the text of \<open>/metrics\<close>, whose families and samples are shown to be pairwise different.
  \<^item> \<open>NodeSetup\<close> (\<open>config.rs\<close>, \<open>tee.rs\<close>): configuration records and the key a node starts with.
  \<^item> \<open>Crypto\<close>, \<open>Seal\<close> (\<open>crypto.rs\<close>, \<open>seal.rs\<close>): derivation and signed messages determine what they are about
    (locales \<open>self_delimiting\<close> and \<open>fixed_width\<close>), formats and sealed shares read back what was written.
  \<^item> \<open>Chain\<close>, \<open>Verifier\<close>, \<open>Auth\<close>: the two caches and the checks on top of them. Shown: invariants that say
    where every cached answer comes from and how old it may be, soundness and completeness of
    admission, waiting bounds, behaviour in an outage.
  \<^item> \<open>Lookups\<close>, \<open>Checks\<close>: the same two caches as their tasks use them, many at once (\<open>chain.rs\<close>, \<open>verifier.rs\<close>). A
    task moves from one await to the next, in any order with the others, and may be dropped. Shown: the
    origin and age of what is returned, single-flight, how far calls of the chain keep from calls that ended before
    them, that no lookup is stuck, that a refusal stands, how long a call may hold the lock of a key, and that the functions of \<open>Chain\<close> and \<open>Verifier\<close> are the runs
    that nothing interrupts.
  \<^item> \<open>Node\<close>, \<open>Derive\<close>: \<open>AppState\<close>, the responder, client and coordinator of \<open>GetDprfPartial\<close>. Shown: one epoch,
    threshold many different shares, a verified signature, one key per app and material.
  \<^item> \<open>Availability\<close>: the derivation succeeds as soon as enough peers of one epoch answer.
  \<^item> \<open>Gossip\<close>, \<open>Monitoring\<close>: handler, client and periodic round; write probe, master baseline, cluster
    snapshot. Shown: epochs only grow by relayed entries (locale \<open>growing\<close>), only a caller's own entry is
    written, liveness needs an answer from the URL of the entry; the baseline detects another master.
  \<^item> \<open>Dkg\<close>: the driver of a session against an abstract run of the five rounds on complete message
    maps, its time bound, the delivery of messages. The locale \<open>interference\<close> carries a relation
    between states through a session while other tasks run.
  \<^item> \<open>Assign\<close>, \<open>Membership\<close>, \<open>Reshare\<close>, \<open>Formation\<close> (\<open>init.rs\<close> and the handlers it serves): assignment of
    first shares, the committee (locale \<open>quorums\<close> on majorities), storing and reloading, genesis,
    recovery, dealing, refresh, the startup loop and the watchdog. Shown: the master is never
    replaced, epochs move forward in sessions that do not overlap, a genesis needs the whole list
    live and no evidence of a running cluster in the same turn, two recoveries on one list share a node.
  \<^item> \<open>Server\<close>: the HTTP handlers and the router. Shown: who gets an app key, who may refresh, that
    monitoring reveals no secret.
  \<^item> \<open>Client\<close> (\<open>examples/dprf_client.rs\<close>): the reference client, end to end with the handler.
  \<^item> \<open>Startup\<close>, \<open>Lifetime\<close> (\<open>main.rs\<close>): \<open>main\<close> up to the shared state, and every event of a running node.
    Shown: a node starts as configured or not at all, and here, at the end, what holds over its whole
    life.
  \<^item> \<open>Service\<close>: the abstract specification of the cluster, one function from apps and materials to keys;
    shown here, at the end: every run of every node implements it.

  \<^bold>\<open>Interleaving and bounds.\<close> The code awaits; other tasks of the same node run meanwhile. The model
  makes those points explicit where a claim depends on them: \<open>wakeups\<close> of the environment are the state changes a
  waiting session sees before its deadline, \<open>meanwhile\<close> those during a sleep. They are arbitrary
  functions, restricted in a theorem by what it says of them; \<open>Lifetime.react_beside\<close> shows that every
  event of the running tasks satisfies the restriction used for the life of a node. The two caches that
  all requests share have a model of their own in which every await is a point of interleaving
  (\<open>Lookups\<close>, \<open>Checks\<close>); in the other theories a lookup is one step. The steps
  between two awaits, and the consecutive writes of one update, are taken as one. \<open>form_loop\<close>
  retries for as long as the node runs; it has fuel, the number of turns, and returns no state when it
  runs out, so that its theorems speak of every number of turns; the watchdog is given by its turns
  in the same way. All other loops end by their data.

  \<^bold>\<open>Not modelled.\<close> The log calls, the sockets of the two servers, TOML and JSON parsing (records stand
  for the parsed values, with the defaults of the sources), the signature checks inside TLS, which
  the verifier forwards to rustls, the build script and the tests. A panic in a library and the
  poisoning of locks are not represented.
\<close>

section \<open>Properties\<close>

text \<open>C5. The life of a node: from its start on, whatever calls, requests, turns and sessions it goes
  through in whatever order, the invariant that the other statements assume holds, its configuration and
  identity stay the same, time moves forward, a share is never lost once held, a node without a share knows no
  master, and a known master is never replaced. (The tasks that run while an operation waits are
  represented by the environment; \<open>react_beside\<close> shows of each of the node's own events that it may
  run there.)\<close>

theorem life_of_a_node:
  assumes "beside_env E" "start E l fs now = Inr s0"
    and "evolves E s0 s" "evolves E s s'"
  shows "proc_inv E (node_cfg s0) s' \<and> node_cfg s' = node_cfg s0 \<and> signing_key s' = signing_key s0 \<and> clock s \<le> clock s' \<and>
    (shard s' = None \<longrightarrow> group_pubkey s' = None) \<and> (shard s \<noteq> None \<longrightarrow> shard s' \<noteq> None) \<and>
    (\<forall>g. group_pubkey s = Some g \<longrightarrow> group_pubkey s' = Some g)"
proof -
  from start_inv [OF assms(2)] have b: "node_inv E s0" .
  from evolves_inv [OF assms(3,1) b] have s: "node_inv E s" "kept s0 s" by simp_all
  from evolves_inv [OF assms(4,1) s(1)] have s': "node_inv E s'" "kept s s'" by simp_all
  from s' s(2) show ?thesis by (simp add: node_inv_def kept_def)
qed

theorem life_of_a_node_witness:
  "\<exists>s0. start demo_init (demo_launch (demo_config\<lparr>verifier_cfg := None\<rparr>)) demo_disk 0 = Inr s0 \<and>
     signing_key (react demo_init (FormTurn None) (react demo_init Reload s0)) = signing_key s0"
proof -
  obtain s0 where b: "start demo_init (demo_launch (demo_config\<lparr>verifier_cfg := None\<rparr>)) demo_disk 0 = Inr s0"
    using demo_starts by blast
  have "evolves demo_init s0 (react demo_init Reload s0)"
    "evolves demo_init (react demo_init Reload s0) (react demo_init (FormTurn None) (react demo_init Reload s0))"
    by (rule evolves.event [OF evolves.now])+
  from life_of_a_node [OF demo_beside b this] b show ?thesis by blast
qed

text \<open>C2. The cluster is one function: take any number of nodes, each in a state that satisfies the invariant
  of started nodes and with any events ahead of it, whose masters, where known at the end, agree.
  There is one function from apps and materials to keys such that every secret that any of them
  returns to \<open>POST /app-key\<close>, at any time, is the value of that function for the app and material of
  the request, encrypted to the key of the request. Assumes that a BLS signature on a message is unique under a
  public key.\<close>

theorem cluster_is_one_function:
  assumes "bls_unique B"
    and "\<forall>i. blsful (E i) = B \<and> beside_env (E i) \<and> node_inv (E i) (s i) \<and>
      group_pubkey (run (E i) (evs i) (s i)) \<in> {None, Some gpk}"
  shows "\<exists>f. \<forall>i req secret. (req, secret) \<in> set (responses (E i) (evs i) (s i)) \<longrightarrow> ideal_response (E i) f req secret"
proof (intro exI allI impI)
  fix i req secret
  assume r: "(req, secret) \<in> set (responses (E i) (evs i) (s i))"
  have "\<exists>g. group_pubkey (run (E i) (evs i) (s i)) = Some g \<and> ideal_response (E i) (group_function (blsful (E i)) g) req secret"
    by (rule responses_ideal [OF _ _ _ r]) (use assms in simp_all)
  then obtain g where g: "group_pubkey (run (E i) (evs i) (s i)) = Some g"
    "ideal_response (E i) (group_function (blsful (E i)) g) req secret" by blast
  moreover have "group_pubkey (run (E i) (evs i) (s i)) \<in> {None, Some gpk}" "blsful (E i) = B" using assms(2) by blast+
  ultimately show "ideal_response (E i) (group_function B gpk) req secret" by simp
qed

theorem cluster_is_one_function_witness:
  "\<exists>s0 req secret f. start demo_init (demo_launch (demo_config\<lparr>verifier_cfg := None\<rparr>)) demo_disk 0 = Inr s0 \<and>
     (req, secret) \<in> set (responses demo_init [OnHttp (PostAppKey req), TimePasses 1] demo_dealing) \<and> ideal_response demo_init f req secret"
proof -
  obtain s0 where s0: "start demo_init (demo_launch (demo_config\<lparr>verifier_cfg := None\<rparr>)) demo_disk 0 = Inr s0"
    using demo_starts by blast
  have new: "node_inv demo_init s0" "group_pubkey (run demo_init [TimePasses 1] s0) = None"
    using start_inv [OF s0] start_no_master [OF s0] by (simp_all add: tick_def)
  let ?k = "hex_encode demo_init (demo_pk demo_sk)"
  let ?evs = "[OnHttp (PostAppKey (demo_ask ?k)), TimePasses 1]"
  have "hex_decode demo_init (trim_0x ?k) = Inr (demo_pk demo_sk)"
    using demo_init_crates(1) by (simp add: hex_ok_trim_0x hex_ok_roundtrip del: demo_init_simps)
  then obtain secret s' where h: "handle_app_key demo_init (demo_ask ?k) demo_dealing = (Inr (200, EncryptedSecret secret), s')"
    using demo_app_key by blast
  have old: "node_inv demo_init demo_dealing" using demo_dealing_inv by (simp add: node_inv_def)
  have g: "group_pubkey (run demo_init ?evs demo_dealing) = Some [7]"
    using run_inv [OF demo_beside old, of ?evs] by (simp add: kept_def)
  have got: "(demo_ask ?k, secret) \<in> set (responses demo_init ?evs demo_dealing)"
    using h by (simp add: secret_of_def respond_def)
  let ?e = "\<lambda>i. if i then ?evs else [TimePasses 1]" and ?s = "\<lambda>i. if i then demo_dealing else s0"
  have B: "blsful demo_init = demo_bls" by simp
  have "\<forall>i. blsful demo_init = demo_bls \<and> beside_env demo_init \<and> node_inv demo_init (?s i) \<and>
      group_pubkey (run demo_init (?e i) (?s i)) \<in> {None, Some [7]}"
  proof
    show "blsful demo_init = demo_bls \<and> beside_env demo_init \<and> node_inv demo_init (?s i) \<and>
      group_pubkey (run demo_init (?e i) (?s i)) \<in> {None, Some [7]}" for i
      using B demo_beside old new g by (cases i) (simp_all only: if_True if_False insert_iff simp_thms)
  qed
  from cluster_is_one_function [OF demo_bls_unique this] obtain f where
    "\<forall>i req secret. (req, secret) \<in> set (responses demo_init (?e i) (?s i)) \<longrightarrow> ideal_response demo_init f req secret" ..
  from this [rule_format, of "demo_ask ?k" secret True] got have "ideal_response demo_init f (demo_ask ?k) secret"
    by (simp only: if_True)
  with s0 got show ?thesis by blast
qed

text \<open>The key of an app is the same for the whole life of a node: whatever happens between two
  derivations of one app and material, reshares, refreshes and catch-ups included, they return the
  same key. Assumes that a BLS signature on a message is unique under a public key.\<close>

theorem app_key_for_life:
  assumes "bls_unique (blsful E)" "beside_env E" "node_inv E s" "evolves E s s'"
    and "collect_and_dprf E app material s = (Inr (key, tr), s1)"
    and "collect_and_dprf E app material s' = (Inr (key', tr'), s1')"
  shows "key' = key"
proof -
  from evolves_inv [OF assms(4,2,3)] have later: "node_inv E s'" "kept s s'" by simp_all
  with assms(3) have inv: "proc_inv E (node_cfg s) s" "proc_inv E (node_cfg s') s'" by (simp_all add: node_inv_def)
  from inv(1) assms(5) obtain sigma gpk where 1: "group_pubkey s = Some gpk"
    "dprf_verify (blsful E) sigma gpk (dprf_message app material) = Inr ()" "key = sigma_to_app_key (blsful E) sigma"
    by (rule collect_and_dprf_ok)
  from inv(2) assms(6) obtain sigma' gpk' where 2: "group_pubkey s' = Some gpk'"
    "dprf_verify (blsful E) sigma' gpk' (dprf_message app material) = Inr ()" "key' = sigma_to_app_key (blsful E) sigma'"
    by (rule collect_and_dprf_ok)
  from later(2) 1(1) 2(1) have "gpk' = gpk" by (simp add: kept_def)
  with dprf_verify_unique [OF assms(1) 2(2)] 1 2 show ?thesis by simp
qed

theorem app_key_for_life_witness:
  "\<exists>key tr tr'. collect_and_dprf demo_init ''kms'' [1] demo_dealing = (Inr (key, tr), demo_dealing) \<and>
     collect_and_dprf demo_init ''kms'' [1] (tick 1 demo_dealing) = (Inr (key, tr'), tick 1 demo_dealing)"
proof -
  obtain key tr where k: "collect_and_dprf demo_init ''kms'' [1] demo_dealing = (Inr (key, tr), demo_dealing)"
    using demo_key by blast
  obtain key' tr' where k': "collect_and_dprf demo_init ''kms'' [1] (tick 1 demo_dealing) = (Inr (key', tr'), tick 1 demo_dealing)"
    using demo_key_later by blast
  have u: "bls_unique (blsful demo_init)" using demo_bls_unique by simp
  have n: "node_inv demo_init demo_dealing" using demo_dealing_inv by (simp add: node_inv_def)
  have "evolves demo_init demo_dealing (tick 1 demo_dealing)"
    using evolves.event [OF evolves.now, of demo_init demo_dealing "TimePasses 1"] by simp
  from app_key_for_life [OF u demo_beside n this k k'] k k' show ?thesis by blast
qed

end
